(* ===== verification/Prelude.thy ===== *)
theory Prelude
  imports Main "HOL-Library.Multiset" "HOL-Library.Word"
begin

text \<open>
  Shared vocabulary of the development: the machine type \<open>size_t\<close> of the
  sources' sizes and counts, the error values of the model (the places
  where the C++ code has undefined behaviour or would need to reject its
  input), the view of a \<open>std::vector\<close> range \<open>[b, e)\<close> as a slice of a HOL
  list, and generic lemmas on lists and list updates that the components'
  proofs share.  The collection \<open>slice_simps\<close> gathers the rewrite rules
  for slices; the components add to it.
\<close>

named_theorems slice_simps "rewrite rules for array ranges"

type_synonym size_t = "64 word"

datatype error =
    DivisionByZero   \<comment> \<open>integer division by a zero \<open>size_t\<close>\<close>
  | OutOfRange       \<comment> \<open>dereference of an iterator outside \<open>[begin, end)\<close>\<close>
  | DanglingReference  \<comment> \<open>use of a local variable of a call that has returned\<close>

subsection \<open>Ranges of a vector\<close>

text \<open>The elements of the iterator range \<open>[b, e)\<close> of a vector.\<close>

definition slice :: "'a list \<Rightarrow> nat \<Rightarrow> nat \<Rightarrow> 'a list" where
  "slice xs b e = take (e - b) (drop b xs)"

lemma length_slice [slice_simps]:
  "e \<le> length xs \<Longrightarrow> length (slice xs b e) = e - b"
  by (simp add: slice_def)

lemma slice_empty [slice_simps]: "e \<le> b \<Longrightarrow> slice xs b e = []"
  by (simp add: slice_def)

lemma nth_slice [slice_simps]:
  "b + i < e \<Longrightarrow> e \<le> length xs \<Longrightarrow> slice xs b e ! i = xs ! (b + i)"
  by (simp add: slice_def)

lemma slice_Cons_front:
  "b < e \<Longrightarrow> e \<le> length xs \<Longrightarrow> slice xs b e = xs ! b # slice xs (Suc b) e"
proof -
  assume "b < e" "e \<le> length xs"
  then have "e - b = Suc (e - Suc b)" and "drop b xs = xs ! b # drop (Suc b) xs"
    by (simp_all add: Cons_nth_drop_Suc)
  then show ?thesis by (simp add: slice_def)
qed

lemma slice_snoc:
  "b \<le> e \<Longrightarrow> e < length xs \<Longrightarrow> slice xs b (Suc e) = slice xs b e @ [xs ! e]"
  by (simp add: slice_def take_Suc_conv_app_nth Suc_diff_le)

lemma slice_append:
  "a \<le> b \<Longrightarrow> b \<le> c \<Longrightarrow> slice xs a b @ slice xs b c = slice xs a c"
proof -
  assume ab: "a \<le> b" and bc: "b \<le> c"
  then have "c - a = (b - a) + (c - b)" and "drop (b - a) (drop a xs) = drop b xs"
    by simp_all
  then show ?thesis by (simp only: slice_def take_add)
qed

lemma slice_whole [simp]: "slice xs 0 (length xs) = xs"
  by (simp add: slice_def)

lemma slice_update_outside [slice_simps]:
  "i < b \<or> e \<le> i \<Longrightarrow> slice (xs[i := v]) b e = slice xs b e"
  by (auto simp: slice_def list_eq_iff_nth_eq nth_list_update)

lemma mset_slice_swap:
  assumes "b \<le> i" "i < e" "b \<le> j" "j < e" "e \<le> length xs"
  shows "mset (slice (xs[j := xs ! i, i := xs ! j]) b e) = mset (slice xs b e)"
proof -
  let ?s = "slice xs b e"
  have i: "i - b < length ?s" and j: "j - b < length ?s"
    using assms by (simp_all add: slice_simps)
  have "slice (xs[j := xs ! i, i := xs ! j]) b e = ?s[j - b := ?s ! (i - b), i - b := ?s ! (j - b)]"
    using assms by (simp add: slice_def take_update_swap drop_update_swap nth_slice)
  also have "mset \<dots> = mset ?s"
    using i j by (rule mset_swap)
  finally show ?thesis .
qed

subsection \<open>Outside a range, an update changes nothing\<close>

text \<open>Frame condition: a routine that only writes inside \<open>[b, e)\<close>.\<close>

definition same_outside :: "nat \<Rightarrow> nat \<Rightarrow> 'a list \<Rightarrow> 'a list \<Rightarrow> bool" where
  "same_outside b e xs ys \<longleftrightarrow>
     length ys = length xs \<and> (\<forall>k < length xs. (k < b \<or> e \<le> k) \<longrightarrow> ys ! k = xs ! k)"

lemma same_outside_refl [simp]: "same_outside b e xs xs"
  by (simp add: same_outside_def)

lemma same_outside_trans:
  "same_outside b e xs ys \<Longrightarrow> same_outside b e ys zs \<Longrightarrow> same_outside b e xs zs"
  by (simp add: same_outside_def)

lemma same_outside_update [intro]:
  "b \<le> i \<Longrightarrow> i < e \<Longrightarrow> same_outside b e xs (xs[i := v])"
  by (simp add: same_outside_def)

lemma same_outside_mono:
  "same_outside b e xs ys \<Longrightarrow> b' \<le> b \<Longrightarrow> e \<le> e' \<Longrightarrow> same_outside b' e' xs ys"
  by (auto simp: same_outside_def)

lemma same_outside_slice:
  "same_outside b e xs ys \<Longrightarrow> c \<le> d \<Longrightarrow> d \<le> b \<or> e \<le> c \<Longrightarrow> d \<le> length xs \<Longrightarrow>
   slice ys c d = slice xs c d"
  by (auto simp: same_outside_def slice_def list_eq_iff_nth_eq)

lemma slice_three:
  "b \<le> e \<Longrightarrow> e \<le> length xs \<Longrightarrow> xs = take b xs @ slice xs b e @ drop e xs"
  by (simp add: slice_def) (metis append.assoc append_take_drop_id le_add_diff_inverse take_add)

text \<open>A routine that permutes a range and writes nothing else permutes the vector.\<close>

lemma same_outside_mset:
  assumes "same_outside b e xs ys" "b \<le> e" "e \<le> length xs"
    and "mset (slice ys b e) = mset (slice xs b e)"
  shows "mset ys = mset xs"
proof -
  have len: "length ys = length xs" using assms(1) by (simp add: same_outside_def)
  have "take b ys = take b xs"
    using same_outside_slice [OF assms(1), of 0 b] assms(2,3) by (simp add: slice_def)
  moreover have "drop e ys = drop e xs"
    using same_outside_slice [OF assms(1), of e "length xs"] assms(2,3) len by (simp add: slice_def)
  moreover have "ys = take b ys @ slice ys b e @ drop e ys"
    using assms(2,3) len by (intro slice_three) simp_all
  ultimately show ?thesis
    using slice_three [OF assms(2,3)] assms(4) by (metis mset_append)
qed

lemma set_slice_perm:
  "mset (slice ys b e) = mset (slice xs b e) \<Longrightarrow> b \<le> k \<Longrightarrow> k < e \<Longrightarrow> e \<le> length ys \<Longrightarrow>
   ys ! k \<in> set (slice xs b e)"
  by (metis add_diff_inverse_nat diff_less_mono length_slice
      not_less nth_mem nth_slice set_mset_mset)

lemma in_set_slice:
  "x \<in> set (slice xs b e) \<Longrightarrow> e \<le> length xs \<Longrightarrow> \<exists>k. b \<le> k \<and> k < e \<and> xs ! k = x"
proof -
  assume x: "x \<in> set (slice xs b e)" and e: "e \<le> length xs"
  then obtain t where "t < length (slice xs b e)" "slice xs b e ! t = x"
    by (auto simp: in_set_conv_nth)
  with e show ?thesis
    by (intro exI [of _ "b + t"]) (simp add: length_slice nth_slice)
qed

text \<open>An element of a permuted range comes from that range.\<close>

lemma perm_slice_nth:
  "mset (slice ys b e) = mset (slice xs b e) \<Longrightarrow> b \<le> k \<Longrightarrow> k < e \<Longrightarrow>
   e \<le> length ys \<Longrightarrow> e \<le> length xs \<Longrightarrow> \<exists>k'. b \<le> k' \<and> k' < e \<and> ys ! k = xs ! k'"
  by (metis in_set_slice set_slice_perm)

subsection \<open>Sums over a list of thread states\<close>

text \<open>
  Counters of a thread pool are sums over the list of its workers; an update
  of one worker changes the sum by the difference of the two summands.
\<close>

lemma sum_list_map_update:
  fixes f :: "'a \<Rightarrow> 'b::comm_monoid_add"
  shows "i < length xs \<Longrightarrow> sum_list (map f (xs[i := x])) + f (xs ! i) = sum_list (map f xs) + f x"
proof (induction xs arbitrary: i)
  case Nil
  then show ?case by simp
next
  case (Cons y ys)
  then show ?case by (cases i) (simp_all add: algebra_simps)
qed

lemma map_update_same:
  "i < length xs \<Longrightarrow> f x = f (xs ! i) \<Longrightarrow> map f (xs[i := x]) = map f xs"
  by (metis list_update_id map_update nth_map)

lemma elem_le_sum_list_map:
  "i < length xs \<Longrightarrow> f (xs ! i) \<le> sum_list (map f xs :: nat list)"
  by (metis elem_le_sum_list length_map nth_map)

lemma mset_elem_le_sum_list_map:
  "i < length xs \<Longrightarrow> f (xs ! i) \<subseteq># sum_list (map f xs :: 'b multiset list)"
proof (induction xs arbitrary: i)
  case Nil
  then show ?case by simp
next
  case (Cons y ys)
  then show ?case
    by (cases i) (auto intro: subset_mset.order_trans simp: subset_mset.add_increasing)
qed

lemma two_le_sum_list_map:
  "i < length xs \<Longrightarrow> k < length xs \<Longrightarrow> k \<noteq> i \<Longrightarrow>
   f (xs ! i) + f (xs ! k) \<le> sum_list (map f xs :: nat list)"
proof (induction xs arbitrary: i k)
  case Nil
  then show ?case by simp
next
  case (Cons y ys)
  then show ?case
    by (cases i; cases k) (auto simp: elem_le_sum_list_map add_mono trans_le_add2)
qed

lemma sum_list_map_update_mset:
  "i < length xs \<Longrightarrow>
   sum_list (map f (xs[i := x])) = sum_list (map f xs) - f (xs ! i) + (f x :: 'b multiset)"
proof -
  assume i: "i < length xs"
  then have "sum_list (map f (xs[i := x])) = sum_list (map f xs) + f x - f (xs ! i)"
    using sum_list_map_update [of i xs f x] by (metis add_diff_cancel_right')
  also have "\<dots> = sum_list (map f xs) - f (xs ! i) + f x"
    using mset_elem_le_sum_list_map [OF i, of f]
    by (metis subset_mset.add_diff_assoc2)
  finally show ?thesis .
qed

lemma sum_list_map_update_nat:
  "i < length xs \<Longrightarrow>
   sum_list (map f (xs[i := x])) = sum_list (map f xs) - f (xs ! i) + (f x :: nat)"
  using sum_list_map_update [of i xs f x] elem_le_sum_list_map [of i xs f] by simp

lemma mem_iff_map_eq: "w \<in> set xs \<longleftrightarrow> True \<in> set (map (\<lambda>x. x = w) xs)"
  by auto

lemma set_update_other:
  "i < length ws \<Longrightarrow> w \<noteq> v \<Longrightarrow> w \<noteq> ws ! i \<Longrightarrow> w \<in> set (ws[i := v]) \<longleftrightarrow> w \<in> set ws"
  by (auto simp: set_conv_nth nth_list_update)

lemma member_le_sum_list_map:
  "x \<in> set xs \<Longrightarrow> f x \<le> sum_list (map f xs :: nat list)"
  by (simp add: member_le_sum_list)

lemma list_all_map_eq:
  assumes "map P ws' = map P ws"
  shows "list_all P ws' = list_all P ws"
proof -
  have "list_all P xs = list_all (\<lambda>b. b) (map P xs)" for xs
    by (simp add: list.pred_map comp_def)
  then show ?thesis by (simp only: assms)
qed

lemma list_all_update_keep:
  "list_all P ws \<Longrightarrow> P w \<Longrightarrow> list_all P (ws[i := w])"
  by (auto simp: list_all_iff dest: set_update_subset_insert [THEN subsetD])

end
