(* ===== verification/ThreadPool.thy ===== *)
theory ThreadPool
  imports Prelude
begin

text \<open>
  Model of \<open>mt::thread_pool\<close> (src/thread_pool.hpp) as an interleaving
  semantics: one calling thread (the owner of the pool, which submits tasks,
  calls \<open>wait()\<close> and finally runs the destructor) and \<open>n\<close> worker threads
  running \<open>worker()\<close>, all sharing the task queue, the counter \<open>active\<close>, the
  flag \<open>shutdown_request\<close>, the mutex \<open>queue_mutex\<close> and the two condition
  variables \<open>queue_cv\<close> and \<open>wait_cv\<close>.  A step is one thread moving from one
  program point to the next; which thread moves is not determined, so the
  steps form a relation (\<open>pool_step\<close>).  Code that runs entirely while holding
  \<open>queue_mutex\<close> and touches only lock-protected state is one step.
  Condition variables follow the C++ standard: \<open>notify_one\<close> wakes any one
  waiting thread or none, \<open>notify_all\<close> all of them, and a waiting thread may
  also wake spuriously (enabled by the flag \<open>spurious\<close> of the relation).
  A task is an opaque value; running it is a parameter \<open>exec\<close> that updates
  the shared data the tasks work on and returns the tasks it submits, in order.
\<close>

section \<open>State\<close>

text \<open>Program points of \<open>worker()\<close> (thread_pool.hpp, lines 124--154).\<close>

datatype 'task wpc =
    WStart                      \<comment> \<open>spawned by \<open>std::async\<close>, not yet at line 125\<close>
  | WCheck                      \<comment> \<open>holds the lock, at \<open>while (!task_queue.empty())\<close>, line 130\<close>
  | WCall 'task                 \<comment> \<open>task popped and lock released, about to call \<open>task()\<close>, line 137\<close>
  | WRun 'task "'task list"     \<comment> \<open>inside \<open>task()\<close>: the submissions it has still to make\<close>
  | WRelock                     \<comment> \<open>\<open>task()\<close> returned, at \<open>queue_mutex.lock()\<close>, line 138\<close>
  | WShut                       \<comment> \<open>holds the lock, at \<open>if (shutdown_request)\<close>, line 147\<close>
  | WWaitCall                   \<comment> \<open>holds the lock, calling \<open>queue_cv.wait(lock)\<close>, line 152\<close>
  | WSleep                      \<comment> \<open>blocked in \<open>queue_cv.wait\<close>, lock released\<close>
  | WWoken                      \<comment> \<open>woken, re-acquiring the lock inside \<open>queue_cv.wait\<close>\<close>
  | WExit                       \<comment> \<open>returned from \<open>worker()\<close>, line 148\<close>

text \<open>
  The operations of the owning thread: \<open>push\<close> (through \<open>add\<close>), \<open>wait()\<close>, and
  the statements of the destructor \<open>~thread_pool()\<close> (lines 66--77) followed by
  the destruction of the members, which C++ performs in reverse declaration
  order: everything up to \<open>queue_mutex\<close> and the condition variables first
  (\<open>DestroyMembers\<close>), the vector \<open>threads\<close> of futures, whose destructors
  block until each worker has returned, last (\<open>JoinAll\<close>).
\<close>

datatype 'task mop =
    Push 'task
  | Wait
  | SetShutdown
  | NotifyAll
  | DestroyMembers
  | JoinAll

text \<open>Where the owning thread is inside \<open>wait()\<close> (lines 95--100).\<close>

datatype mstate =
    MRun        \<comment> \<open>not blocked\<close>
  | MBlocked    \<comment> \<open>in \<open>wait_cv.wait(lock)\<close>, lock released\<close>
  | MWoken      \<comment> \<open>woken, re-acquiring the lock\<close>

text \<open>
  The members of \<open>thread_pool\<close> (lines 103--109), the program counters of all
  threads, the data the tasks share, and two ghost logs: the tasks submitted
  so far and the tasks whose execution has completed.  \<open>lock\<close> records which
  worker owns \<open>queue_mutex\<close>; the owning thread's critical sections (\<open>add\<close> and
  the test in \<open>wait\<close>) are single steps, taken only while the mutex is free.
\<close>

record ('task, 'd) pool =
  task_queue :: "'task list"
  active :: nat
  shutdown_request :: bool
  lock :: "nat option"
  workers :: "'task wpc list"
  prog :: "'task mop list"
  mstate :: mstate
  destroyed :: bool
  data :: 'd
  submitted :: "'task list"
  finished :: "'task list"

type_synonym ('task, 'd) exec = "'task \<Rightarrow> 'd \<Rightarrow> 'd \<times> 'task list"

text \<open>\<open>thread_pool(threads_amount)\<close> (lines 60--65) followed by the owner's program.\<close>

definition pool_init :: "nat \<Rightarrow> 'task mop list \<Rightarrow> 'd \<Rightarrow> ('task, 'd) pool" where
  "pool_init n ops d =
     \<lparr>task_queue = [], active = 0, shutdown_request = False, lock = None,
      workers = replicate n WStart, prog = ops, mstate = MRun, destroyed = False,
      data = d, submitted = [], finished = []\<rparr>"

text \<open>The statements of \<open>~thread_pool()\<close> and the member destructors.\<close>

definition destructor_ops :: "'task mop list" where
  "destructor_ops = [Wait, SetShutdown, NotifyAll, DestroyMembers, JoinAll]"

section \<open>Condition variables\<close>

text \<open>\<open>queue_cv.notify_one()\<close>: one blocked worker is woken, or none if none is blocked.\<close>

inductive notify_one :: "'task wpc list \<Rightarrow> 'task wpc list \<Rightarrow> bool" where
  wake: "j < length ws \<Longrightarrow> ws ! j = WSleep \<Longrightarrow> notify_one ws (ws[j := WWoken])"
| none: "WSleep \<notin> set ws \<Longrightarrow> notify_one ws ws"

text \<open>\<open>queue_cv.notify_all()\<close>.\<close>

definition wake_all :: "'task wpc list \<Rightarrow> 'task wpc list" where
  "wake_all ws = map (\<lambda>w. case w of WSleep \<Rightarrow> WWoken | _ \<Rightarrow> w) ws"

text \<open>\<open>wait_cv.notify_all()\<close>, seen by the owning thread.\<close>

fun wake_main :: "mstate \<Rightarrow> mstate" where
  "wake_main MBlocked = MWoken"
| "wake_main m = m"

section \<open>Steps\<close>

fun exited :: "'task wpc \<Rightarrow> bool" where
  "exited WExit = True"
| "exited _ = False"

inductive pool_step :: "('task, 'd) exec \<Rightarrow> bool \<Rightarrow> ('task, 'd) pool \<Rightarrow> ('task, 'd) pool \<Rightarrow> bool"
  for exec :: "('task, 'd) exec" and spurious :: bool where
  \<comment> \<open>\<open>push\<close> / \<open>add\<close> (lines 91--93, 111--122): enqueue under the lock, \<open>notify_one\<close>\<close>
  main_push:
    "mstate s = MRun \<Longrightarrow> prog s = Push t # ops \<Longrightarrow> lock s = None \<Longrightarrow>
     notify_one (workers s) ws \<Longrightarrow>
     pool_step exec spurious s
       (s\<lparr>task_queue := task_queue s @ [t], workers := ws, prog := ops,
          submitted := submitted s @ [t]\<rparr>)"
  \<comment> \<open>\<open>wait()\<close> (lines 95--100): the test under the lock, true branch not taken\<close>
| main_wait_return:
    "mstate s = MRun \<Longrightarrow> prog s = Wait # ops \<Longrightarrow> lock s = None \<Longrightarrow>
     task_queue s = [] \<Longrightarrow> active s = 0 \<Longrightarrow>
     pool_step exec spurious s (s\<lparr>prog := ops\<rparr>)"
  \<comment> \<open>\<open>wait()\<close>: the test holds, \<open>wait_cv.wait(lock)\<close> blocks and releases the lock\<close>
| main_wait_block:
    "mstate s = MRun \<Longrightarrow> prog s = Wait # ops \<Longrightarrow> lock s = None \<Longrightarrow>
     task_queue s \<noteq> [] \<or> 0 < active s \<Longrightarrow>
     pool_step exec spurious s (s\<lparr>mstate := MBlocked\<rparr>)"
  \<comment> \<open>a spurious wake-up of \<open>wait_cv.wait\<close>\<close>
| main_spurious:
    "spurious \<Longrightarrow> mstate s = MBlocked \<Longrightarrow>
     pool_step exec spurious s (s\<lparr>mstate := MWoken\<rparr>)"
  \<comment> \<open>\<open>wait_cv.wait\<close> re-acquires the lock and \<open>wait()\<close> returns: no second test\<close>
| main_woken_return:
    "mstate s = MWoken \<Longrightarrow> prog s = Wait # ops \<Longrightarrow> lock s = None \<Longrightarrow>
     pool_step exec spurious s (s\<lparr>mstate := MRun, prog := ops\<rparr>)"
  \<comment> \<open>\<open>shutdown_request = true\<close> (line 71), without the lock\<close>
| main_set_shutdown:
    "mstate s = MRun \<Longrightarrow> prog s = SetShutdown # ops \<Longrightarrow>
     pool_step exec spurious s (s\<lparr>shutdown_request := True, prog := ops\<rparr>)"
  \<comment> \<open>\<open>queue_cv.notify_all()\<close> (line 74), without the lock\<close>
| main_notify_all:
    "mstate s = MRun \<Longrightarrow> prog s = NotifyAll # ops \<Longrightarrow>
     pool_step exec spurious s (s\<lparr>workers := wake_all (workers s), prog := ops\<rparr>)"
  \<comment> \<open>end of the destructor body: \<open>active\<close>, the flag, the condition variables,
      \<open>queue_mutex\<close> and the queue are destroyed\<close>
| main_destroy:
    "mstate s = MRun \<Longrightarrow> prog s = DestroyMembers # ops \<Longrightarrow>
     pool_step exec spurious s (s\<lparr>destroyed := True, prog := ops\<rparr>)"
  \<comment> \<open>the futures in \<open>threads\<close> are destroyed: each blocks until its worker returned\<close>
| main_join:
    "mstate s = MRun \<Longrightarrow> prog s = JoinAll # ops \<Longrightarrow> list_all exited (workers s) \<Longrightarrow>
     pool_step exec spurious s (s\<lparr>prog := ops\<rparr>)"
  \<comment> \<open>\<open>worker()\<close> starts: lock (line 125), \<open>active++\<close> (line 129)\<close>
| worker_start:
    "i < length (workers s) \<Longrightarrow> workers s ! i = WStart \<Longrightarrow> lock s = None \<Longrightarrow>
     pool_step exec spurious s
       (s\<lparr>lock := Some i, active := Suc (active s), workers := (workers s)[i := WCheck]\<rparr>)"
  \<comment> \<open>queue not empty: pop the front and unlock (lines 132--136)\<close>
| worker_pop:
    "i < length (workers s) \<Longrightarrow> workers s ! i = WCheck \<Longrightarrow> task_queue s = t # q \<Longrightarrow>
     pool_step exec spurious s
       (s\<lparr>task_queue := q, lock := None, workers := (workers s)[i := WCall t]\<rparr>)"
  \<comment> \<open>queue empty: \<open>active--\<close>, and \<open>wait_cv.notify_all()\<close> if it reached 0 (lines 140--145)\<close>
| worker_idle:
    "i < length (workers s) \<Longrightarrow> workers s ! i = WCheck \<Longrightarrow> task_queue s = [] \<Longrightarrow>
     pool_step exec spurious s
       (s\<lparr>active := active s - 1,
          mstate := (if active s - 1 = 0 then wake_main (mstate s) else mstate s),
          workers := (workers s)[i := WShut]\<rparr>)"
  \<comment> \<open>\<open>task()\<close> (line 137) does its work on the shared data\<close>
| worker_run:
    "i < length (workers s) \<Longrightarrow> workers s ! i = WCall t \<Longrightarrow> exec t (data s) = (d', cs) \<Longrightarrow>
     pool_step exec spurious s (s\<lparr>data := d', workers := (workers s)[i := WRun t cs]\<rparr>)"
  \<comment> \<open>a running task calls \<open>push\<close>: \<open>add\<close> takes the lock, enqueues, \<open>notify_one\<close>\<close>
| worker_submit:
    "i < length (workers s) \<Longrightarrow> workers s ! i = WRun t (c # cs) \<Longrightarrow> lock s = None \<Longrightarrow>
     notify_one ((workers s)[i := WRun t cs]) ws \<Longrightarrow>
     pool_step exec spurious s
       (s\<lparr>task_queue := task_queue s @ [c], workers := ws, submitted := submitted s @ [c]\<rparr>)"
  \<comment> \<open>\<open>task()\<close> returns\<close>
| worker_return:
    "i < length (workers s) \<Longrightarrow> workers s ! i = WRun t [] \<Longrightarrow>
     pool_step exec spurious s
       (s\<lparr>workers := (workers s)[i := WRelock], finished := finished s @ [t]\<rparr>)"
  \<comment> \<open>\<open>queue_mutex.lock()\<close> (line 138), back to the loop test\<close>
| worker_relock:
    "i < length (workers s) \<Longrightarrow> workers s ! i = WRelock \<Longrightarrow> lock s = None \<Longrightarrow>
     pool_step exec spurious s (s\<lparr>lock := Some i, workers := (workers s)[i := WCheck]\<rparr>)"
  \<comment> \<open>\<open>if (shutdown_request) return;\<close> (line 147--148), releasing the lock\<close>
| worker_exit:
    "i < length (workers s) \<Longrightarrow> workers s ! i = WShut \<Longrightarrow> shutdown_request s \<Longrightarrow>
     pool_step exec spurious s (s\<lparr>lock := None, workers := (workers s)[i := WExit]\<rparr>)"
| worker_stay:
    "i < length (workers s) \<Longrightarrow> workers s ! i = WShut \<Longrightarrow> \<not> shutdown_request s \<Longrightarrow>
     pool_step exec spurious s (s\<lparr>workers := (workers s)[i := WWaitCall]\<rparr>)"
  \<comment> \<open>\<open>queue_cv.wait(lock)\<close> (line 152) blocks and releases the lock\<close>
| worker_block:
    "i < length (workers s) \<Longrightarrow> workers s ! i = WWaitCall \<Longrightarrow>
     pool_step exec spurious s (s\<lparr>lock := None, workers := (workers s)[i := WSleep]\<rparr>)"
| worker_spurious:
    "spurious \<Longrightarrow> i < length (workers s) \<Longrightarrow> workers s ! i = WSleep \<Longrightarrow>
     pool_step exec spurious s (s\<lparr>workers := (workers s)[i := WWoken]\<rparr>)"
  \<comment> \<open>\<open>queue_cv.wait\<close> re-acquires the lock; the loop goes on with \<open>active++\<close>\<close>
| worker_woken:
    "i < length (workers s) \<Longrightarrow> workers s ! i = WWoken \<Longrightarrow> lock s = None \<Longrightarrow>
     pool_step exec spurious s
       (s\<lparr>lock := Some i, active := Suc (active s), workers := (workers s)[i := WCheck]\<rparr>)"

text \<open>The states reachable from a freshly constructed pool of \<open>n\<close> workers.\<close>

inductive reachable :: "('task, 'd) exec \<Rightarrow> bool \<Rightarrow> nat \<Rightarrow> 'task mop list \<Rightarrow> 'd \<Rightarrow> ('task, 'd) pool \<Rightarrow> bool"
  for exec :: "('task, 'd) exec" and spurious :: bool and n :: nat and ops :: "'task mop list" and d :: 'd where
  init: "reachable exec spurious n ops d (pool_init n ops d)"
| step: "reachable exec spurious n ops d s \<Longrightarrow> pool_step exec spurious s s' \<Longrightarrow>
         reachable exec spurious n ops d s'"

section \<open>Invariants\<close>

text \<open>The program points at which a worker owns \<open>queue_mutex\<close>.\<close>

fun holds_lock :: "'task wpc \<Rightarrow> bool" where
  "holds_lock WCheck = True"
| "holds_lock WShut = True"
| "holds_lock WWaitCall = True"
| "holds_lock _ = False"

text \<open>The program points between \<open>active++\<close> and \<open>active--\<close>: what \<open>active\<close> counts.\<close>

fun draining :: "'task wpc \<Rightarrow> nat" where
  "draining WCheck = 1"
| "draining (WCall t) = 1"
| "draining (WRun t cs) = 1"
| "draining WRelock = 1"
| "draining _ = 0"

text \<open>The task a worker is executing, as a multiset of at most one element.\<close>

fun running :: "'task wpc \<Rightarrow> 'task multiset" where
  "running (WCall t) = {#t#}"
| "running (WRun t cs) = {#t#}"
| "running _ = {#}"

fun busy :: "'task wpc \<Rightarrow> bool" where
  "busy (WCall t) = True"
| "busy (WRun t cs) = True"
| "busy WRelock = True"
| "busy _ = False"

text \<open>At most one thread holds \<open>queue_mutex\<close>, and \<open>lock\<close> names it.\<close>

definition lock_inv :: "('task, 'd) pool \<Rightarrow> bool" where
  "lock_inv s \<longleftrightarrow>
     (\<forall>i. lock s = Some i \<longrightarrow> i < length (workers s)) \<and>
     (\<forall>i < length (workers s). holds_lock (workers s ! i) \<longleftrightarrow> lock s = Some i)"

text \<open>\<open>active\<close> is the number of workers inside the draining loop.\<close>

definition active_inv :: "('task, 'd) pool \<Rightarrow> bool" where
  "active_inv s \<longleftrightarrow> active s = sum_list (map draining (workers s))"

text \<open>Every submitted task is queued, being executed, or finished: none is lost
  and none runs twice.\<close>

definition task_inv :: "('task, 'd) pool \<Rightarrow> bool" where
  "task_inv s \<longleftrightarrow>
     mset (submitted s) = mset (task_queue s) + sum_list (map running (workers s)) + mset (finished s)"

text \<open>Once \<open>wait_cv\<close> has been notified, the pool stays quiescent while the owner
  re-acquires the lock (without spurious wake-ups).\<close>

definition barrier_inv :: "('task, 'd) pool \<Rightarrow> bool" where
  "barrier_inv s \<longleftrightarrow>
     (mstate s = MWoken \<longrightarrow> task_queue s = [] \<and> list_all (\<lambda>w. \<not> busy w) (workers s))"

subsection \<open>Condition variables change only sleeping workers\<close>

lemma notify_one_length [simp]: "notify_one ws ws' \<Longrightarrow> length ws' = length ws"
  by (induction rule: notify_one.induct) simp_all

lemma notify_one_nth_eq:
  "notify_one ws ws' \<Longrightarrow> f WSleep = f WWoken \<Longrightarrow> k < length ws \<Longrightarrow> f (ws' ! k) = f (ws ! k)"
  by (induction rule: notify_one.induct) (auto simp: nth_list_update)

lemma notify_one_map:
  "notify_one ws ws' \<Longrightarrow> f WSleep = f WWoken \<Longrightarrow> map f ws' = map f ws"
  by (simp add: list_eq_iff_nth_eq notify_one_nth_eq)

lemma wake_all_map:
  "f WSleep = f WWoken \<Longrightarrow> map f (wake_all ws) = map f ws"
  by (induction ws) (auto simp: wake_all_def split: wpc.splits)

lemma length_wake_all [simp]: "length (wake_all ws) = length ws"
  by (simp add: wake_all_def)

lemma wake_all_nth_eq:
  "f WSleep = f WWoken \<Longrightarrow> k < length ws \<Longrightarrow> f (wake_all ws ! k) = f (ws ! k)"
  by (metis length_wake_all nth_map wake_all_map)

subsection \<open>Each step keeps each invariant\<close>

lemma pool_init_invs:
  "lock_inv (pool_init n ops d)" "active_inv (pool_init n ops d)"
  "task_inv (pool_init n ops d)" "barrier_inv (pool_init n ops d)"
proof -
  have "sum_list (replicate n ({#} :: 'task multiset)) = {#}"
    by (induction n) simp_all
  then show "lock_inv (pool_init n ops d)" "active_inv (pool_init n ops d)"
    "task_inv (pool_init n ops d)" "barrier_inv (pool_init n ops d)"
    by (simp_all add: pool_init_def lock_inv_def active_inv_def task_inv_def barrier_inv_def
                      sum_list_replicate)
qed

lemma lock_inv_step:
  "pool_step exec sp s s' \<Longrightarrow> lock_inv s \<Longrightarrow> lock_inv s'"
proof (induction rule: pool_step.induct)
  case (main_push s t ops ws)
  then show ?case by (auto simp: lock_inv_def notify_one_nth_eq [where f = holds_lock])
next
  case (main_notify_all s ops)
  then show ?case by (auto simp: lock_inv_def wake_all_nth_eq [where f = holds_lock])
next
  case (worker_submit i s t c cs ws)
  then show ?case
    by (auto simp: lock_inv_def notify_one_nth_eq [where f = holds_lock] nth_list_update)
qed (auto simp: lock_inv_def nth_list_update)

text \<open>No step changes how far \<open>active\<close> is above the number of draining workers.\<close>

lemma active_offset_step:
  "pool_step exec sp s s' \<Longrightarrow> active s = sum_list (map draining (workers s)) + k \<Longrightarrow>
   active s' = sum_list (map draining (workers s')) + k"
proof (induction rule: pool_step.induct)
  case (main_push s t ops ws)
  then show ?case by (simp add: notify_one_map [where f = draining])
next
  case (main_notify_all s ops)
  then show ?case by (simp add: wake_all_map [where f = draining])
next
  case (worker_submit i s t c cs ws)
  then show ?case by (simp add: notify_one_map [where f = draining] map_update_same)
next
  case (worker_idle i s)
  then have "draining (workers s ! i) \<le> sum_list (map draining (workers s))"
    by (intro elem_le_sum_list_map)
  with worker_idle show ?case by (simp add: sum_list_map_update_nat)
qed (auto simp: sum_list_map_update_nat map_update_same)

lemma active_inv_step:
  "pool_step exec sp s s' \<Longrightarrow> active_inv s \<Longrightarrow> active_inv s'"
  unfolding active_inv_def using active_offset_step [where k = 0] by simp

lemma task_inv_step:
  "pool_step exec sp s s' \<Longrightarrow> task_inv s \<Longrightarrow> task_inv s'"
proof (induction rule: pool_step.induct)
  case (main_push s t ops ws)
  then show ?case by (simp add: task_inv_def notify_one_map [where f = running])
next
  case (main_notify_all s ops)
  then show ?case by (simp add: task_inv_def wake_all_map [where f = running])
next
  case (worker_pop i s t q)
  then show ?case by (simp add: task_inv_def sum_list_map_update_mset)
next
  case (worker_submit i s t c cs ws)
  then show ?case
    by (simp add: task_inv_def notify_one_map [where f = running] map_update_same)
next
  case (worker_return i s t)
  then show ?case
    by (simp add: task_inv_def sum_list_map_update_mset)
       (metis add_mset_add_single
              mset_elem_le_sum_list_map running.simps(2) subset_mset.diff_add)
qed (auto simp: task_inv_def sum_list_map_update_mset map_update_same)

lemma running_submitted:
  assumes "task_inv s" "i < length (workers s)" "t \<in># running (workers s ! i)"
  shows "t \<in> set (submitted s)"
proof -
  have "running (workers s ! i) \<subseteq># sum_list (map running (workers s))"
    using assms(2) by (rule mset_elem_le_sum_list_map)
  with assms(3) have "t \<in># sum_list (map running (workers s))" by (blast dest: mset_subset_eqD)
  with assms(1) show ?thesis by (simp add: task_inv_def flip: set_mset_mset)
qed

lemma busy_draining: "busy w \<Longrightarrow> draining w = 1"
  by (cases w) simp_all

text \<open>When \<open>active\<close> equals the share of one draining worker, no other worker is busy.\<close>

lemma active_one_others_idle:
  assumes "active_inv s" "i < length (workers s)" "draining (workers s ! i) = 1"
    and "active s - 1 = 0"
  shows "\<forall>k < length (workers s). k \<noteq> i \<longrightarrow> \<not> busy (workers s ! k)"
proof (intro allI impI notI)
  fix k assume k: "k < length (workers s)" "k \<noteq> i" and b: "busy (workers s ! k)"
  have "draining (workers s ! i) + draining (workers s ! k) \<le> active s"
    using assms(1,2) k two_le_sum_list_map [of i "workers s" k draining]
    by (simp add: active_inv_def)
  with assms(3,4) b show False by (simp add: busy_draining)
qed

lemma barrier_inv_step:
  "pool_step exec False s s' \<Longrightarrow> barrier_inv s \<Longrightarrow> active_inv s \<Longrightarrow> barrier_inv s'"
proof (induction rule: pool_step.induct)
  case (main_push s t ops ws)
  then show ?case by (simp add: barrier_inv_def)
next
  case (main_notify_all s ops)
  then show ?case
    by (simp add: barrier_inv_def list_all_length wake_all_nth_eq [where f = busy])
next
  case (worker_idle i s)
  show ?case
  proof (cases "active s - 1 = 0 \<and> mstate s = MBlocked")
    case True
    with worker_idle have "\<forall>k < length (workers s). k \<noteq> i \<longrightarrow> \<not> busy (workers s ! k)"
      by (intro active_one_others_idle) simp_all
    with worker_idle True show ?thesis
      by (auto simp: barrier_inv_def list_all_length nth_list_update)
  next
    case False
    with worker_idle show ?thesis
      by (cases "mstate s") (auto simp: barrier_inv_def list_all_length nth_list_update)
  qed
next
  case (worker_submit i s t c cs ws)
  then show ?case by (auto simp: barrier_inv_def list_all_length)
qed (auto simp: barrier_inv_def list_all_length nth_list_update)

subsection \<open>Invariants of reachable states\<close>

lemma reachable_invs:
  "reachable exec sp n ops d s \<Longrightarrow> lock_inv s \<and> active_inv s \<and> task_inv s"
proof (induction rule: reachable.induct)
  case init
  then show ?case by (simp add: pool_init_invs)
next
  case (step s s')
  then show ?case by (blast intro: lock_inv_step active_inv_step task_inv_step)
qed

lemma reachable_barrier_inv:
  "reachable exec False n ops d s \<Longrightarrow> barrier_inv s"
proof (induction rule: reachable.induct)
  case init
  then show ?case by (simp add: pool_init_invs)
next
  case (step s s')
  then show ?case by (blast intro: barrier_inv_step reachable_invs [THEN conjunct2, THEN conjunct1])
qed

lemma reachable_length_workers:
  "reachable exec sp n ops d s \<Longrightarrow> length (workers s) = n"
proof (induction rule: reachable.induct)
  case init
  then show ?case by (simp add: pool_init_def)
next
  case (step s s')
  from step.hyps(2) step.IH show ?case
    by (induction rule: pool_step.induct) simp_all
qed

section \<open>An executable scheduler\<close>

text \<open>
  A deterministic refinement of \<open>pool_step\<close>: the thread to move is named
  by an actor, and \<open>notify_one\<close> wakes the blocked worker of least index.
  Running a schedule evaluates by simplification, which gives concrete
  executions of the pool.
\<close>

datatype actor = AMain | AWorker nat | ASpuriousMain | ASpuriousWorker nat

fun first_sleeper :: "'task wpc list \<Rightarrow> nat option" where
  "first_sleeper [] = None"
| "first_sleeper (w # ws) =
     (case w of WSleep \<Rightarrow> Some 0 | _ \<Rightarrow> map_option Suc (first_sleeper ws))"

definition notify_one_fn :: "'task wpc list \<Rightarrow> 'task wpc list" where
  "notify_one_fn ws = (case first_sleeper ws of None \<Rightarrow> ws | Some j \<Rightarrow> ws[j := WWoken])"

lemma first_sleeper_Some: "first_sleeper ws = Some j \<Longrightarrow> j < length ws \<and> ws ! j = WSleep"
  by (induction ws arbitrary: j) (auto split: wpc.splits)

lemma first_sleeper_None: "first_sleeper ws = None \<Longrightarrow> WSleep \<notin> set ws"
  by (induction ws) (auto split: wpc.splits)

lemma notify_one_fn_sound: "notify_one ws (notify_one_fn ws)"
  by (cases "first_sleeper ws")
     (auto simp: notify_one_fn_def dest: first_sleeper_Some first_sleeper_None
           intro: notify_one.intros)

fun main_at :: "mstate \<Rightarrow> 'task mop list \<Rightarrow> ('task, 'd) pool \<Rightarrow> ('task, 'd) pool option" where
  "main_at MRun (Push t # ops) s =
     (if lock s = None then
        Some (s\<lparr>task_queue := task_queue s @ [t], workers := notify_one_fn (workers s),
                prog := ops, submitted := submitted s @ [t]\<rparr>)
      else None)"
| "main_at MRun (Wait # ops) s =
     (if lock s = None then
        if task_queue s = [] \<and> active s = 0 then Some (s\<lparr>prog := ops\<rparr>)
        else Some (s\<lparr>mstate := MBlocked\<rparr>)
      else None)"
| "main_at MRun (SetShutdown # ops) s = Some (s\<lparr>shutdown_request := True, prog := ops\<rparr>)"
| "main_at MRun (NotifyAll # ops) s = Some (s\<lparr>workers := wake_all (workers s), prog := ops\<rparr>)"
| "main_at MRun (DestroyMembers # ops) s = Some (s\<lparr>destroyed := True, prog := ops\<rparr>)"
| "main_at MRun (JoinAll # ops) s =
     (if list_all exited (workers s) then Some (s\<lparr>prog := ops\<rparr>) else None)"
| "main_at MWoken (Wait # ops) s =
     (if lock s = None then Some (s\<lparr>mstate := MRun, prog := ops\<rparr>) else None)"
| "main_at _ _ s = None"

definition main_step :: "('task, 'd) pool \<Rightarrow> ('task, 'd) pool option" where
  "main_step s = main_at (mstate s) (prog s) s"

fun worker_at :: "('task, 'd) exec \<Rightarrow> nat \<Rightarrow> 'task wpc \<Rightarrow> ('task, 'd) pool \<Rightarrow> ('task, 'd) pool option" where
  "worker_at exec i WStart s =
     (if lock s = None then
        Some (s\<lparr>lock := Some i, active := Suc (active s), workers := (workers s)[i := WCheck]\<rparr>)
      else None)"
| "worker_at exec i WCheck s =
     (case task_queue s of
        t # q \<Rightarrow> Some (s\<lparr>task_queue := q, lock := None, workers := (workers s)[i := WCall t]\<rparr>)
      | [] \<Rightarrow> Some (s\<lparr>active := active s - 1,
                      mstate := (if active s - 1 = 0 then wake_main (mstate s) else mstate s),
                      workers := (workers s)[i := WShut]\<rparr>))"
| "worker_at exec i (WCall t) s =
     (case exec t (data s) of
        (d', cs) \<Rightarrow> Some (s\<lparr>data := d', workers := (workers s)[i := WRun t cs]\<rparr>))"
| "worker_at exec i (WRun t (c # cs)) s =
     (if lock s = None then
        Some (s\<lparr>task_queue := task_queue s @ [c],
                workers := notify_one_fn ((workers s)[i := WRun t cs]),
                submitted := submitted s @ [c]\<rparr>)
      else None)"
| "worker_at exec i (WRun t []) s =
     Some (s\<lparr>workers := (workers s)[i := WRelock], finished := finished s @ [t]\<rparr>)"
| "worker_at exec i WRelock s =
     (if lock s = None then Some (s\<lparr>lock := Some i, workers := (workers s)[i := WCheck]\<rparr>)
      else None)"
| "worker_at exec i WShut s =
     (if shutdown_request s then Some (s\<lparr>lock := None, workers := (workers s)[i := WExit]\<rparr>)
      else Some (s\<lparr>workers := (workers s)[i := WWaitCall]\<rparr>))"
| "worker_at exec i WWaitCall s = Some (s\<lparr>lock := None, workers := (workers s)[i := WSleep]\<rparr>)"
| "worker_at exec i WSleep s = None"
| "worker_at exec i WWoken s =
     (if lock s = None then
        Some (s\<lparr>lock := Some i, active := Suc (active s), workers := (workers s)[i := WCheck]\<rparr>)
      else None)"
| "worker_at exec i WExit s = None"

definition worker_step :: "('task, 'd) exec \<Rightarrow> nat \<Rightarrow> ('task, 'd) pool \<Rightarrow> ('task, 'd) pool option" where
  "worker_step exec i s = (if i < length (workers s) then worker_at exec i (workers s ! i) s else None)"

fun sched_step :: "('task, 'd) exec \<Rightarrow> bool \<Rightarrow> actor \<Rightarrow> ('task, 'd) pool \<Rightarrow> ('task, 'd) pool option" where
  "sched_step exec sp AMain s = main_step s"
| "sched_step exec sp (AWorker i) s = worker_step exec i s"
| "sched_step exec sp ASpuriousMain s =
     (if sp \<and> mstate s = MBlocked then Some (s\<lparr>mstate := MWoken\<rparr>) else None)"
| "sched_step exec sp (ASpuriousWorker i) s =
     (if sp \<and> i < length (workers s) \<and> workers s ! i = WSleep
      then Some (s\<lparr>workers := (workers s)[i := WWoken]\<rparr>) else None)"

fun run_sched :: "('task, 'd) exec \<Rightarrow> bool \<Rightarrow> actor list \<Rightarrow> ('task, 'd) pool \<Rightarrow> ('task, 'd) pool option" where
  "run_sched exec sp [] s = Some s"
| "run_sched exec sp (a # as) s =
     (case sched_step exec sp a s of None \<Rightarrow> None | Some s' \<Rightarrow> run_sched exec sp as s')"

lemma main_at_sound:
  "main_at m ops s = Some s' \<Longrightarrow> mstate s = m \<Longrightarrow> prog s = ops \<Longrightarrow> pool_step exec sp s s'"
  by (induction m ops s rule: main_at.induct)
     (auto intro: pool_step.intros notify_one_fn_sound split: if_splits)

lemma main_step_sound: "main_step s = Some s' \<Longrightarrow> pool_step exec sp s s'"
  by (simp add: main_step_def main_at_sound)

lemma worker_at_sound:
  assumes "worker_at exec i w s = Some s'" "i < length (workers s)" "workers s ! i = w"
  shows "pool_step exec sp s s'"
  using assms
proof (induction exec i w s rule: worker_at.induct)
  case (1 exec i s)
  then show ?case by (auto intro: pool_step.worker_start split: if_splits)
next
  case (2 exec i s)
  then show ?case
  proof (cases "task_queue s")
    case Nil
    with 2 show ?thesis using pool_step.worker_idle [of i s exec sp] by simp
  next
    case (Cons t q)
    with 2 show ?thesis by (auto intro: pool_step.worker_pop)
  qed
next
  case (3 exec i t s)
  then show ?case by (auto intro: pool_step.worker_run split: prod.splits)
next
  case (4 exec i t c cs s)
  then show ?case
    by (auto intro: pool_step.worker_submit notify_one_fn_sound split: if_splits)
next
  case (5 exec i t s)
  then show ?case by (auto intro: pool_step.worker_return)
next
  case (6 exec i s)
  then show ?case by (auto intro: pool_step.worker_relock split: if_splits)
next
  case (7 exec i s)
  then show ?case by (auto intro: pool_step.worker_exit pool_step.worker_stay split: if_splits)
next
  case (8 exec i s)
  then show ?case by (auto intro: pool_step.worker_block)
next
  case (10 exec i s)
  then show ?case by (auto intro: pool_step.worker_woken split: if_splits)
qed simp_all

lemma worker_step_sound: "worker_step exec i s = Some s' \<Longrightarrow> pool_step exec sp s s'"
  by (auto simp: worker_step_def intro: worker_at_sound split: if_splits)

lemma sched_step_sound: "sched_step exec sp a s = Some s' \<Longrightarrow> pool_step exec sp s s'"
  by (cases a) (auto intro: pool_step.intros main_step_sound worker_step_sound split: if_splits)

lemma run_sched_reachable:
  "run_sched exec sp as s = Some s' \<Longrightarrow> reachable exec sp n ops d s \<Longrightarrow> reachable exec sp n ops d s'"
proof (induction as arbitrary: s)
  case Nil
  then show ?case by simp
next
  case (Cons a as)
  then obtain s1 where "sched_step exec sp a s = Some s1" and "run_sched exec sp as s1 = Some s'"
    by (auto split: option.splits)
  with Cons show ?case by (blast intro: reachable.step sched_step_sound)
qed

section \<open>The owner's view: \<open>wait()\<close>\<close>

text \<open>
  The only steps that complete a \<open>wait()\<close> are its two return paths: the test
  fails at once, or the owner was woken and re-acquired the lock.
\<close>

lemma wait_step_disj:
  "pool_step exec sp s s' \<Longrightarrow> prog s = Wait # ops \<Longrightarrow> prog s' = ops \<Longrightarrow>
   (mstate s = MRun \<and> task_queue s = [] \<and> active s = 0 \<and> s' = s\<lparr>prog := ops\<rparr>) \<or>
   (mstate s = MWoken \<and> s' = s\<lparr>mstate := MRun, prog := ops\<rparr>)"
  by (induction rule: pool_step.induct) simp_all

lemma idle_workers_run_nothing:
  "list_all (\<lambda>w. \<not> busy w) ws \<Longrightarrow> sum_list (map running ws) = {#}"
proof (induction ws)
  case Nil
  then show ?case by simp
next
  case (Cons w ws)
  then show ?case by (cases w) simp_all
qed

lemma active_zero_idle:
  "active_inv s \<Longrightarrow> active s = 0 \<Longrightarrow> list_all (\<lambda>w. \<not> busy w) (workers s)"
  by (auto simp: active_inv_def list_all_iff dest: busy_draining)

text \<open>Without spurious wake-ups, the state in which \<open>wait()\<close> returns is quiescent.\<close>

lemma quiescent_after_wait:
  assumes "reachable exec False n ops0 d s" and "pool_step exec False s s'"
    and "prog s = Wait # ops" and "prog s' = ops"
  shows "task_queue s' = [] \<and> list_all (\<lambda>w. \<not> busy w) (workers s') \<and> task_inv s'"
proof -
  have inv: "active_inv s" "task_inv s" "barrier_inv s"
    using reachable_invs [OF assms(1)] reachable_barrier_inv [OF assms(1)] by simp_all
  from assms(2) inv(2) have "task_inv s'" by (rule task_inv_step)
  moreover from wait_step_disj [OF assms(2-4)]
  have "task_queue s' = [] \<and> list_all (\<lambda>w. \<not> busy w) (workers s')"
  proof
    assume "mstate s = MRun \<and> task_queue s = [] \<and> active s = 0 \<and> s' = s\<lparr>prog := ops\<rparr>"
    with inv(1) show ?thesis by (simp add: active_zero_idle)
  next
    assume "mstate s = MWoken \<and> s' = s\<lparr>mstate := MRun, prog := ops\<rparr>"
    with inv(3) show ?thesis by (simp add: barrier_inv_def)
  qed
  ultimately show ?thesis by blast
qed

lemma run_sched_init:
  "run_sched exec sp as (pool_init n ops d) = Some s \<Longrightarrow> reachable exec sp n ops d s"
  by (blast intro: run_sched_reachable reachable.init)

section \<open>Test fixtures of mt_test.cpp\<close>

text \<open>
  \<open>f_without_arg\<close> (mt_test.cpp, lines 34--39): the task increments a counter
  (the diagnostic print is not modelled).  As a task of the pool it submits
  nothing.
\<close>

definition f_without_arg :: "('task, nat) exec" where
  "f_without_arg t c = (Suc c, [])"

primrec pushes :: "'task mop list \<Rightarrow> 'task list" where
  "pushes [] = []"
| "pushes (op # ops) = (case op of Push t \<Rightarrow> t # pushes ops | _ \<Rightarrow> pushes ops)"

fun pending :: "'task wpc \<Rightarrow> 'task list" where
  "pending (WRun t cs) = cs"
| "pending _ = []"

fun in_task :: "'task wpc \<Rightarrow> nat" where
  "in_task (WRun t cs) = 1"
| "in_task _ = 0"

text \<open>
  With \<open>f_without_arg\<close> as the task, no task submits another: the owner's
  submissions are exactly the \<open>Push\<close> operations it has executed, and the
  counter has grown by one for every task that has started.
\<close>

definition prog_inv :: "'task mop list \<Rightarrow> ('task, 'd) pool \<Rightarrow> bool" where
  "prog_inv ops s \<longleftrightarrow> (\<exists>pre. ops = pre @ prog s \<and> submitted s = pushes pre)"

definition counter_inv :: "nat \<Rightarrow> ('task, nat) pool \<Rightarrow> bool" where
  "counter_inv c s \<longleftrightarrow>
     concat (map pending (workers s)) = [] \<and>
     data s = c + length (finished s) + sum_list (map in_task (workers s))"

lemma pushes_append [simp]: "pushes (xs @ ys) = pushes xs @ pushes ys"
  by (induction xs) (auto split: mop.splits)

lemma prog_inv_consume:
  "prog_inv ops s \<Longrightarrow> prog s = op # ops' \<Longrightarrow> prog s' = ops' \<Longrightarrow>
   submitted s' = submitted s @ pushes [op] \<Longrightarrow> prog_inv ops s'"
  unfolding prog_inv_def by (metis append.assoc append_Cons append_Nil pushes_append)

lemma no_pending_nth:
  "concat (map pending ws) = [] \<Longrightarrow> i < length ws \<Longrightarrow> pending (ws ! i) = []"
  by (induction ws arbitrary: i) (auto simp: nth_Cons split: nat.splits)

lemma prog_inv_step:
  "pool_step exec sp s s' \<Longrightarrow> prog_inv ops s \<Longrightarrow> concat (map pending (workers s)) = [] \<Longrightarrow>
   prog_inv ops s'"
proof (induction rule: pool_step.induct)
  case (main_push s t ops' ws)
  show ?case
    by (rule prog_inv_consume [where s = s and op = "Push t" and ops' = ops']) (use main_push in simp_all)
next
  case (main_wait_return s ops')
  show ?case
    by (rule prog_inv_consume [where s = s and op = Wait and ops' = ops']) (use main_wait_return in simp_all)
next
  case (main_woken_return s ops')
  show ?case
    by (rule prog_inv_consume [where s = s and op = Wait and ops' = ops']) (use main_woken_return in simp_all)
next
  case (main_set_shutdown s ops')
  show ?case
    by (rule prog_inv_consume [where s = s and op = SetShutdown and ops' = ops']) (use main_set_shutdown in simp_all)
next
  case (main_notify_all s ops')
  show ?case
    by (rule prog_inv_consume [where s = s and op = NotifyAll and ops' = ops']) (use main_notify_all in simp_all)
next
  case (main_destroy s ops')
  show ?case
    by (rule prog_inv_consume [where s = s and op = DestroyMembers and ops' = ops']) (use main_destroy in simp_all)
next
  case (main_join s ops')
  show ?case
    by (rule prog_inv_consume [where s = s and op = JoinAll and ops' = ops']) (use main_join in simp_all)
next
  case (worker_submit i s t c cs ws)
  then have "pending (workers s ! i) = []" by (intro no_pending_nth)
  with worker_submit show ?case by simp
qed (simp_all add: prog_inv_def)

lemma counter_inv_step:
  "pool_step f_without_arg sp s s' \<Longrightarrow> counter_inv c s \<Longrightarrow> counter_inv c s'"
proof (induction rule: pool_step.induct)
  case (main_push s t ops' ws)
  then show ?case
    by (simp add: counter_inv_def notify_one_map [where f = pending] notify_one_map [where f = in_task])
next
  case (main_notify_all s ops')
  then show ?case
    by (simp add: counter_inv_def wake_all_map [where f = pending] wake_all_map [where f = in_task])
next
  case (worker_submit i s t c' cs ws)
  then have "pending (workers s ! i) = []" by (intro no_pending_nth) (simp add: counter_inv_def)
  with worker_submit show ?case by simp
next
  case (worker_run i s t d' cs)
  then show ?case
    by (simp add: counter_inv_def f_without_arg_def map_update_same sum_list_map_update_nat)
next
  case (worker_return i s t)
  then have "in_task (workers s ! i) \<le> sum_list (map in_task (workers s))"
    by (intro elem_le_sum_list_map)
  with worker_return show ?case
    by (simp add: counter_inv_def map_update_same sum_list_map_update_nat)
qed (simp_all add: counter_inv_def map_update_same)

lemma reachable_counter:
  "reachable f_without_arg sp n ops c s \<Longrightarrow> prog_inv ops s \<and> counter_inv c s"
proof (induction rule: reachable.induct)
  case init
  have "prog_inv ops (pool_init n ops c)"
    unfolding prog_inv_def pool_init_def by (rule exI [of _ "[]"]) simp
  moreover have "map in_task (replicate n (WStart :: 'task wpc)) = replicate n 0" by simp
  ultimately show ?case by (simp add: counter_inv_def pool_init_def sum_list_replicate)
next
  case (step s s')
  then have "prog_inv ops s" "counter_inv c s" "concat (map pending (workers s)) = []"
    by (simp_all add: counter_inv_def)
  with step.hyps(2) show ?case by (simp add: prog_inv_step counter_inv_step)
qed

lemma pushes_replicate [simp]: "pushes (replicate k (Push t)) = replicate k t"
  by (induction k) simp_all

lemma in_task_busy: "in_task w \<noteq> 0 \<Longrightarrow> busy w"
  by (cases w) simp_all

lemma idle_not_in_task:
  "list_all (\<lambda>w. \<not> busy w) ws \<Longrightarrow> sum_list (map in_task ws) = 0"
  by (induction ws) (auto dest: in_task_busy)

lemma sum_draining_le: "sum_list (map draining ws) \<le> length ws"
proof (induction ws)
  case Nil
  then show ?case by simp
next
  case (Cons w ws)
  have "draining w \<le> 1" by (cases w) simp_all
  with Cons show ?case by simp
qed

inductive_simps pool_step_simps: "pool_step exec sp s s'"

section \<open>Properties of the pool\<close>

text \<open>
  Claim C1: \<open>wait()\<close> is a quiescence barrier.  Whenever \<open>wait()\<close> returns
  (and no spurious wake-up occurs), the task queue is empty, no worker is
  executing a task, and every task submitted so far, including those submitted
  by running tasks, has been executed exactly once.
\<close>

theorem wait_returns_quiescent:
  assumes "reachable exec False n ops0 d s" and "pool_step exec False s s'"
    and "prog s = Wait # ops" and "prog s' = ops"
  shows "task_queue s' = [] \<and> list_all (\<lambda>w. \<not> busy w) (workers s') \<and>
         mset (finished s') = mset (submitted s')"
  using quiescent_after_wait [OF assms]
  by (simp add: task_inv_def idle_workers_run_nothing)

theorem wait_returns_quiescent_witness:
  "\<exists>s s'. reachable f_without_arg False 1 [Push (7::nat), Wait] (0::nat) s \<and>
          pool_step f_without_arg False s s' \<and> prog s = Wait # [] \<and> prog s' = [] \<and>
          task_queue s' = [] \<and> list_all (\<lambda>w. \<not> busy w) (workers s') \<and>
          mset (finished s') = mset (submitted s') \<and> finished s' = [7]"
proof -
  let ?s = "\<lparr>task_queue = [], active = 0, shutdown_request = False, lock = None,
             workers = [WSleep], prog = [Wait], mstate = MWoken, destroyed = False,
             data = 1::nat, submitted = [7::nat], finished = [7]\<rparr>"
  let ?s' = "?s\<lparr>mstate := MRun, prog := []\<rparr>"
  have r: "reachable f_without_arg False 1 [Push (7::nat), Wait] (0::nat) ?s"
    by (rule run_sched_init [where as = "[AMain, AMain, AWorker 0, AWorker 0, AWorker 0,
          AWorker 0, AWorker 0, AWorker 0, AWorker 0, AWorker 0]"])
       (simp add: pool_init_def main_step_def worker_step_def notify_one_fn_def f_without_arg_def)
  have st: "pool_step f_without_arg False ?s ?s'"
    by (rule pool_step.main_woken_return) simp_all
  have "task_queue ?s' = [] \<and> list_all (\<lambda>w. \<not> busy w) (workers ?s') \<and>
        mset (finished ?s') = mset (submitted ?s')"
    by (rule wait_returns_quiescent [OF r st]) simp_all
  with r st show ?thesis by (intro exI [of _ ?s] exI [of _ ?s']) simp
qed

text \<open>
  Claim C4: no task is lost or duplicated.  In every reachable state, with or
  without spurious wake-ups, the multiset of submitted tasks is the sum of the
  queued tasks, the tasks being executed and the tasks whose execution has
  completed.
\<close>

theorem task_conservation:
  "reachable exec sp n ops d s \<Longrightarrow>
   mset (submitted s) = mset (task_queue s) + sum_list (map running (workers s)) + mset (finished s)"
  using reachable_invs [of exec sp n ops d s] by (simp add: task_inv_def)

theorem task_conservation_witness:
  "reachable f_without_arg True 1 [Push (7::nat), Wait] (0::nat)
     \<lparr>task_queue = [], active = 1, shutdown_request = False, lock = None,
      workers = [WRun 7 []], prog = [Wait], mstate = MBlocked, destroyed = False,
      data = 1, submitted = [7], finished = []\<rparr> \<and>
   mset [7::nat] = mset [] + sum_list (map running [WRun (7::nat) []]) + mset []"
proof -
  have r: "reachable f_without_arg True 1 [Push (7::nat), Wait] (0::nat)
     \<lparr>task_queue = [], active = 1, shutdown_request = False, lock = None,
      workers = [WRun 7 []], prog = [Wait], mstate = MBlocked, destroyed = False,
      data = 1, submitted = [7], finished = []\<rparr>"
    by (rule run_sched_init [where as = "[AMain, AMain, AWorker 0, AWorker 0, AWorker 0]"])
       (simp add: pool_init_def main_step_def worker_step_def notify_one_fn_def f_without_arg_def)
  with task_conservation [OF r] show ?thesis by simp
qed

text \<open>
  Claim C10: \<open>queue_mutex\<close> is held by at most one worker: in every reachable
  state, two workers at program points that own the mutex are the same worker.
\<close>

theorem queue_mutex_exclusive:
  assumes "reachable exec sp n ops d s"
    and "i < length (workers s)" and "j < length (workers s)"
    and "holds_lock (workers s ! i)" and "holds_lock (workers s ! j)"
  shows "i = j"
  using reachable_invs [OF assms(1)] assms(2-5) by (simp add: lock_inv_def)

theorem queue_mutex_exclusive_witness:
  "reachable f_without_arg False 2 [Wait] (0::nat)
     \<lparr>task_queue = [], active = 1, shutdown_request = False, lock = Some 0,
      workers = [WCheck, WStart :: nat wpc], prog = [Wait], mstate = MRun, destroyed = False,
      data = 0, submitted = [], finished = []\<rparr> \<and> (0::nat) = 0"
proof -
  have r: "reachable f_without_arg False 2 [Wait] (0::nat)
     \<lparr>task_queue = [], active = 1, shutdown_request = False, lock = Some 0,
      workers = [WCheck, WStart :: nat wpc], prog = [Wait], mstate = MRun, destroyed = False,
      data = 0, submitted = [], finished = []\<rparr>"
    by (rule run_sched_init [where as = "[AWorker 0]"])
       (simp add: pool_init_def worker_step_def numeral_2_eq_2)
  have "(0::nat) = 0" by (rule queue_mutex_exclusive [OF r]) simp_all
  with r show ?thesis by simp
qed

text \<open>
  Claim C11: the atomic counter \<open>active\<close> counts exactly the workers inside
  their draining loop (between \<open>active++\<close> and \<open>active--\<close>), so it never
  exceeds the number of workers and never wraps around.
\<close>

theorem active_counts_draining:
  "reachable exec sp n ops d s \<Longrightarrow>
   active s = sum_list (map draining (workers s)) \<and> active s \<le> n"
  using reachable_invs [of exec sp n ops d s] reachable_length_workers [of exec sp n ops d s]
        sum_draining_le [of "workers s"]
  by (simp add: active_inv_def)

theorem active_counts_draining_witness:
  "reachable f_without_arg False 2 [Wait] (0::nat)
     \<lparr>task_queue = [], active = 1, shutdown_request = False, lock = Some 0,
      workers = [WCheck, WStart :: nat wpc], prog = [Wait], mstate = MRun, destroyed = False,
      data = 0, submitted = [], finished = []\<rparr> \<and>
   (1::nat) = sum_list (map draining [WCheck, WStart :: nat wpc]) \<and> (1::nat) \<le> 2"
proof -
  have r: "reachable f_without_arg False 2 [Wait] (0::nat)
     \<lparr>task_queue = [], active = 1, shutdown_request = False, lock = Some 0,
      workers = [WCheck, WStart :: nat wpc], prog = [Wait], mstate = MRun, destroyed = False,
      data = 0, submitted = [], finished = []\<rparr>"
    by (rule run_sched_init [where as = "[AWorker 0]"])
       (simp add: pool_init_def worker_step_def numeral_2_eq_2)
  with active_counts_draining [OF r] show ?thesis by simp
qed

text \<open>
  Claim C12: \<open>wait()\<close> tests its condition once (an \<open>if\<close>, line 97, not a
  loop), so a spurious wake-up of \<open>wait_cv\<close>, which the C++ standard allows,
  makes it return while a submitted task is still queued and has not run.
\<close>

theorem spurious_wakeup_breaks_wait:
  "\<exists>s s'. reachable f_without_arg True 1 [Push (0::nat), Wait] (0::nat) s \<and>
          pool_step f_without_arg True s s' \<and> prog s = [Wait] \<and> prog s' = [] \<and>
          task_queue s' = [0] \<and> finished s' = []"
proof -
  let ?s = "\<lparr>task_queue = [0::nat], active = 0, shutdown_request = False, lock = None,
             workers = [WStart], prog = [Wait], mstate = MWoken, destroyed = False,
             data = 0::nat, submitted = [0], finished = []\<rparr>"
  have r: "reachable f_without_arg True 1 [Push (0::nat), Wait] (0::nat) ?s"
    by (rule run_sched_init [where as = "[AMain, AMain, ASpuriousMain]"])
       (simp add: pool_init_def main_step_def notify_one_fn_def)
  have st: "pool_step f_without_arg True ?s (?s\<lparr>mstate := MRun, prog := []\<rparr>)"
    by (rule pool_step.main_woken_return) simp_all
  from r st show ?thesis by (intro exI [of _ ?s] exI [of _ "?s\<lparr>mstate := MRun, prog := []\<rparr>"]) simp
qed

text \<open>
  Claim C13: the destructor can hang.  \<open>shutdown_request\<close> is written and
  \<open>queue_cv\<close> notified without holding \<open>queue_mutex\<close> (lines 71--74), so a
  worker that has read the flag as false (line 147) but not yet blocked
  (line 152) misses the notification and sleeps for ever; the owner then blocks
  in the destruction of \<open>threads\<close>.  Without spurious wake-ups no step is
  possible from the state reached.
\<close>

theorem destructor_lost_wakeup:
  "\<exists>s. reachable f_without_arg False 1 (destructor_ops :: nat mop list) (0::nat) s \<and>
       prog s = [JoinAll] \<and> workers s = [WSleep] \<and> shutdown_request s \<and>
       (\<nexists>s'. pool_step f_without_arg False s s')"
proof -
  let ?s = "\<lparr>task_queue = [], active = 0, shutdown_request = True, lock = None,
             workers = [WSleep], prog = [JoinAll], mstate = MRun, destroyed = True,
             data = 0::nat, submitted = [], finished = [] :: nat list\<rparr>"
  have r: "reachable f_without_arg False 1 (destructor_ops :: nat mop list) (0::nat) ?s"
    by (rule run_sched_init [where as = "[AMain, AWorker 0, AWorker 0, AWorker 0, AMain, AMain,
          AWorker 0, AMain]"])
       (simp add: pool_init_def destructor_ops_def main_step_def worker_step_def
                  notify_one_fn_def wake_all_def)
  have "\<nexists>s'. pool_step f_without_arg False ?s s'"
    by (simp add: pool_step_simps)
  with r show ?thesis by (intro exI [of _ ?s]) simp
qed

text \<open>
  Claim C14: the destructor does not join the workers before the mutex and the
  condition variables are destroyed.  The futures in \<open>threads\<close> are declared
  first and destroyed last, so \<open>queue_mutex\<close> can be destroyed while a worker
  woken by \<open>notify_all\<close> has still to re-acquire it, which it then does.
\<close>

theorem members_destroyed_before_join:
  "\<exists>s s'. reachable f_without_arg False 1 (Push (0::nat) # destructor_ops) (0::nat) s \<and>
          destroyed s \<and> workers s = [WWoken] \<and>
          pool_step f_without_arg False s s' \<and> lock s' = Some 0"
proof -
  let ?s = "\<lparr>task_queue = [], active = 0, shutdown_request = True, lock = None,
             workers = [WWoken], prog = [JoinAll], mstate = MRun, destroyed = True,
             data = 1::nat, submitted = [0::nat], finished = [0]\<rparr>"
  let ?s' = "?s\<lparr>lock := Some 0, active := 1, workers := [WCheck]\<rparr>"
  have r: "reachable f_without_arg False 1 (Push (0::nat) # destructor_ops) (0::nat) ?s"
    by (rule run_sched_init [where as = "[AMain, AMain, AWorker 0, AWorker 0, AWorker 0,
          AWorker 0, AWorker 0, AWorker 0, AWorker 0, AWorker 0, AMain, AMain, AMain, AMain]"])
       (simp add: pool_init_def destructor_ops_def main_step_def worker_step_def
                  notify_one_fn_def wake_all_def f_without_arg_def)
  have st: "pool_step f_without_arg False ?s ?s'"
    using pool_step.worker_woken [of 0 ?s f_without_arg False] by simp
  from r st show ?thesis by (intro exI [of _ ?s] exI [of _ ?s']) simp
qed

text \<open>
  Claim C33: the tests \<open>test_one_call_without_arg\<close> and
  \<open>test_a_few_calls_without_arg\<close> (mt_test.cpp, lines 66--95), for any number of
  workers and submissions: after \<open>k\<close> submissions of \<open>f_without_arg\<close> and a
  \<open>wait()\<close> that returns without a spurious wake-up, the counter has grown by
  exactly \<open>k\<close>.
\<close>

theorem push_wait_counts:
  assumes "reachable f_without_arg False n (replicate k (Push t) @ Wait # ops) c s"
    and "pool_step f_without_arg False s s'" and "prog s = Wait # ops" and "prog s' = ops"
  shows "data s' = c + k"
proof -
  have q: "task_queue s' = [] \<and> list_all (\<lambda>w. \<not> busy w) (workers s') \<and> task_inv s'"
    by (rule quiescent_after_wait [OF assms])
  have inv: "prog_inv (replicate k (Push t) @ Wait # ops) s" "counter_inv c s'"
    using reachable_counter [OF assms(1)]
          reachable_counter [OF reachable.step [OF assms(1,2)]] by simp_all
  then obtain pre where "replicate k (Push t) @ Wait # ops = pre @ Wait # ops"
    and sub: "submitted s = pushes pre"
    using assms(3) by (auto simp: prog_inv_def)
  then have "pre = replicate k (Push t)" by simp
  with sub have "submitted s = replicate k t" by simp
  moreover have "submitted s' = submitted s"
    using wait_step_disj [OF assms(2-4)] by auto
  ultimately have sub': "submitted s' = replicate k t" by simp
  have "mset (finished s') = mset (submitted s')"
    using q idle_workers_run_nothing [of "workers s'"] by (simp add: task_inv_def)
  then have "length (finished s') = k"
    using sub' mset_eq_length by fastforce
  with q inv(2) show ?thesis
    by (simp add: counter_inv_def idle_not_in_task)
qed

theorem push_wait_counts_witness:
  "reachable f_without_arg False 1 (replicate 4 (Push ()) @ [Wait]) (0::nat)
     \<lparr>task_queue = [], active = 0, shutdown_request = False, lock = None,
      workers = [WSleep], prog = [Wait], mstate = MWoken, destroyed = False,
      data = 4, submitted = [(), (), (), ()], finished = [(), (), (), ()]\<rparr> \<and>
   data (\<lparr>task_queue = [], active = 0, shutdown_request = False, lock = None,
      workers = [WSleep], prog = [], mstate = MRun, destroyed = False,
      data = 4::nat, submitted = [(), (), (), ()], finished = [(), (), (), ()]\<rparr>) = 0 + 4"
proof -
  let ?s = "\<lparr>task_queue = [], active = 0, shutdown_request = False, lock = None,
      workers = [WSleep], prog = [Wait], mstate = MWoken, destroyed = False,
      data = 4::nat, submitted = [(), (), (), ()], finished = [(), (), (), ()]\<rparr>"
  have ops: "replicate 4 (Push ()) @ [Wait] = [Push (), Push (), Push (), Push (), Wait]"
    by code_simp
  have "reachable f_without_arg False 1 [Push (), Push (), Push (), Push (), Wait] (0::nat) ?s"
    by (rule run_sched_init [where as = "[AMain, AMain, AMain, AMain, AMain, AWorker 0,
          AWorker 0, AWorker 0, AWorker 0, AWorker 0, AWorker 0, AWorker 0, AWorker 0, AWorker 0,
          AWorker 0, AWorker 0, AWorker 0, AWorker 0, AWorker 0, AWorker 0, AWorker 0, AWorker 0,
          AWorker 0, AWorker 0, AWorker 0]"])
       (simp add: pool_init_def main_step_def worker_step_def notify_one_fn_def f_without_arg_def)
  then have r: "reachable f_without_arg False 1 (replicate 4 (Push ()) @ Wait # []) (0::nat) ?s"
    by (simp only: ops)
  have st: "pool_step f_without_arg False ?s (?s\<lparr>mstate := MRun, prog := []\<rparr>)"
    by (rule pool_step.main_woken_return) simp_all
  have "data (?s\<lparr>mstate := MRun, prog := []\<rparr>) = 0 + 4"
    by (rule push_wait_counts [OF r st]) simp_all
  with r show ?thesis by simp
qed

definition zero_pool_inv :: "'task \<Rightarrow> ('task, 'd) pool \<Rightarrow> bool" where
  "zero_pool_inv t s \<longleftrightarrow> workers s = [] \<and> mstate s \<noteq> MWoken \<and>
     (prog s = [Push t, Wait] \<or> (prog s = [Wait] \<and> task_queue s \<noteq> []))"

lemma zero_pool_inv_step:
  "pool_step exec False s s' \<Longrightarrow> zero_pool_inv t s \<Longrightarrow> zero_pool_inv t s'"
  by (induction rule: pool_step.induct) (auto simp: zero_pool_inv_def dest: notify_one_length)

text \<open>
  Claim C15: a pool without workers never finishes \<open>wait()\<close>.  A pool built
  with \<open>threads_amount = 0\<close>, the value \<open>hardware_concurrency()\<close> returns when
  it cannot tell, accepts a task and then blocks for ever in \<open>wait()\<close>: in
  every reachable state the owner has not got past it.
\<close>

theorem zero_workers_wait_hangs:
  "reachable exec False 0 [Push t, Wait] d s \<Longrightarrow> prog s \<noteq> []"
proof -
  assume "reachable exec False 0 [Push t, Wait] d s"
  then have "zero_pool_inv t s"
  proof (induction rule: reachable.induct)
    case init
    then show ?case by (simp add: zero_pool_inv_def pool_init_def)
  next
    case (step s s')
    then show ?case using zero_pool_inv_step [OF step.hyps(2)] by blast
  qed
  then show ?thesis by (auto simp: zero_pool_inv_def)
qed

theorem zero_workers_wait_hangs_witness:
  "reachable f_without_arg False 0 [Push (), Wait] (0 :: nat)
     (pool_init 0 [Push (), Wait] 0\<lparr>task_queue := [()], prog := [Wait], submitted := [()],
                                      mstate := MBlocked\<rparr>) \<and>
   prog (pool_init 0 [Push (), Wait] (0 :: nat)\<lparr>task_queue := [()], prog := [Wait], submitted := [()],
                                      mstate := MBlocked\<rparr>) \<noteq> []"
proof -
  have r: "reachable f_without_arg False 0 [Push (), Wait] (0 :: nat)
     (pool_init 0 [Push (), Wait] 0\<lparr>task_queue := [()], prog := [Wait], submitted := [()],
                                      mstate := MBlocked\<rparr>)"
    by (rule run_sched_init [where as = "[AMain, AMain]"])
       (simp add: pool_init_def main_step_def notify_one_fn_def)
  show ?thesis using r zero_workers_wait_hangs [OF r] by simp
qed

end
