(* ===== verification/StdAlgo.thy ===== *)
theory StdAlgo
  imports Prelude
begin

text \<open>
  The algorithms of the C++ standard library that src/sort.hpp and
  src/unique.hpp call, on a \<open>std::vector\<close> modelled as a list and iterators
  modelled as indices.  \<open>std::partition\<close>, \<open>std::unique\<close> and \<open>std::copy\<close>
  follow the loops of libstdc++ (and of the reference implementations of
  cppreference); \<open>std::sort\<close>, whose introsort is irrelevant to every
  property here, is modelled by its contract: the range is replaced by a sorted
  permutation of itself (an insertion sort by the comparison).  Each
  algorithm comes with its contract as lemmas: what it leaves outside the
  range, that it permutes the range, and what it establishes inside.
\<close>

section \<open>\<open>std::partition\<close>\<close>

text \<open>
  libstdc++'s \<open>__partition\<close> for bidirectional iterators: scan forward from
  \<open>first\<close> over elements satisfying the predicate; then step \<open>last\<close> back and
  scan backwards over elements that do not; swap the two and continue.  The
  flag \<open>fwd\<close> says which of the two inner loops runs.  The loops test
  \<open>first == last\<close>; as \<open>first \<le> last\<close> always holds, the test is written
  \<open>l \<le> f\<close>.
\<close>

function partition_loop :: "('a \<Rightarrow> bool) \<Rightarrow> bool \<Rightarrow> 'a list \<Rightarrow> nat \<Rightarrow> nat \<Rightarrow> 'a list \<times> nat" where
  "partition_loop p fwd xs f l =
     (if l \<le> f then (xs, f)
      else if fwd then
        (if p (xs ! f) then partition_loop p True xs (Suc f) l
         else partition_loop p False xs f (l - 1))
      else if \<not> p (xs ! l) then partition_loop p False xs f (l - 1)
      else partition_loop p True (xs[f := xs ! l, l := xs ! f]) (Suc f) l)"
  by pat_completeness auto
termination
  by (relation "measure (\<lambda>(p, fwd, xs, f, l). 2 * (l - f) + (if fwd then 0 else 1))") auto

declare partition_loop.simps [simp del]

definition std_partition :: "('a \<Rightarrow> bool) \<Rightarrow> 'a list \<Rightarrow> nat \<Rightarrow> nat \<Rightarrow> 'a list \<times> nat" where
  "std_partition p xs b e = partition_loop p True xs b e"

text \<open>
  The loop's invariant: below \<open>f\<close> (from \<open>b\<close>) every element satisfies the
  predicate; from \<open>l\<close> (forward phase) or above \<open>l\<close> (backward phase) up to
  \<open>e\<close> none does.
\<close>

definition part_ok :: "('a \<Rightarrow> bool) \<Rightarrow> nat \<Rightarrow> nat \<Rightarrow> 'a list \<Rightarrow> 'a list \<Rightarrow> nat \<Rightarrow> bool" where
  "part_ok p b e xs ys m \<longleftrightarrow>
     b \<le> m \<and> m \<le> e \<and> same_outside b e xs ys \<and> mset (slice ys b e) = mset (slice xs b e) \<and>
     (\<forall>k. b \<le> k \<and> k < m \<longrightarrow> p (ys ! k)) \<and> (\<forall>k. m \<le> k \<and> k < e \<longrightarrow> \<not> p (ys ! k))"

lemma part_ok_trans:
  assumes "part_ok p b e ys zs m" "same_outside b e xs ys" "mset (slice ys b e) = mset (slice xs b e)"
  shows "part_ok p b e xs zs m"
  using assms by (auto simp: part_ok_def intro: same_outside_trans)

lemma partition_loop_correct:
  "b \<le> f \<Longrightarrow> (if fwd then l \<le> e else l < e) \<Longrightarrow> f \<le> l \<Longrightarrow> e \<le> length xs \<Longrightarrow>
   \<forall>k. b \<le> k \<and> k < f \<longrightarrow> p (xs ! k) \<Longrightarrow>
   \<forall>k. (if fwd then l \<le> k else l < k) \<and> k < e \<longrightarrow> \<not> p (xs ! k) \<Longrightarrow>
   (\<not> fwd \<longrightarrow> \<not> p (xs ! f)) \<Longrightarrow>
   part_ok p b e xs (fst (partition_loop p fwd xs f l)) (snd (partition_loop p fwd xs f l))"
proof (induction p fwd xs f l rule: partition_loop.induct)
  case (1 p fwd xs f l)
  show ?case
  proof (cases "l \<le> f")
    case True
    then have "partition_loop p fwd xs f l = (xs, f)"
      by (simp add: partition_loop.simps [of p fwd xs f l])
    with True "1.prems" show ?thesis
      by (cases fwd) (auto simp: part_ok_def le_eq_less_or_eq)
  next
    case lf: False
    show ?thesis
    proof (cases fwd)
      case True
      show ?thesis
      proof (cases "p (xs ! f)")
        case True
        have "partition_loop p fwd xs f l = partition_loop p True xs (Suc f) l"
          by (subst partition_loop.simps) (use lf True \<open>fwd\<close> in simp)
        moreover have "part_ok p b e xs (fst (partition_loop p True xs (Suc f) l))
                         (snd (partition_loop p True xs (Suc f) l))"
          by (rule "1.IH"(1)) (use lf True \<open>fwd\<close> "1.prems" in \<open>auto simp: less_Suc_eq\<close>)
        ultimately show ?thesis by simp
      next
        case False
        have "partition_loop p fwd xs f l = partition_loop p False xs f (l - 1)"
          by (subst partition_loop.simps) (use lf False \<open>fwd\<close> in simp)
        moreover have "part_ok p b e xs (fst (partition_loop p False xs f (l - 1)))
                         (snd (partition_loop p False xs f (l - 1)))"
          by (rule "1.IH"(2)) (use lf False \<open>fwd\<close> "1.prems" in auto)
        ultimately show ?thesis by simp
      qed
    next
      case bwd: False
      show ?thesis
      proof (cases "p (xs ! l)")
        case False
        have "partition_loop p fwd xs f l = partition_loop p False xs f (l - 1)"
          by (subst partition_loop.simps) (use lf False bwd in simp)
        moreover have "part_ok p b e xs (fst (partition_loop p False xs f (l - 1)))
                         (snd (partition_loop p False xs f (l - 1)))"
        proof (rule "1.IH"(3))
          show "\<forall>k. (if False then l - 1 \<le> k else l - 1 < k) \<and> k < e \<longrightarrow> \<not> p (xs ! k)"
          proof (intro allI impI)
            fix k assume k: "(if False then l - 1 \<le> k else l - 1 < k) \<and> k < e"
            then have "k = l \<or> l < k" using lf by auto
            with k False "1.prems" show "\<not> p (xs ! k)" by auto
          qed
        qed (use lf False bwd "1.prems" in auto)
        ultimately show ?thesis by simp
      next
        case True
        let ?ys = "xs[f := xs ! l, l := xs ! f]"
        have so: "same_outside b e xs ?ys"
          using lf bwd "1.prems" by (auto simp: same_outside_def)
        have ms: "mset (slice ?ys b e) = mset (slice xs b e)"
          using lf bwd "1.prems" mset_slice_swap [of b l e f xs] by simp
        have "partition_loop p fwd xs f l = partition_loop p True ?ys (Suc f) l"
          by (subst partition_loop.simps) (use lf True bwd in simp)
        moreover have "part_ok p b e ?ys (fst (partition_loop p True ?ys (Suc f) l))
                         (snd (partition_loop p True ?ys (Suc f) l))"
          by (rule "1.IH"(4)) (use lf bwd True "1.prems" in \<open>auto simp: nth_list_update less_Suc_eq\<close>)
        ultimately show ?thesis by (simp add: part_ok_trans [OF _ so ms])
      qed
    qed
  qed
qed

lemma std_partition_correct:
  assumes "b \<le> e" "e \<le> length xs" "std_partition p xs b e = (ys, m)"
  shows "part_ok p b e xs ys m"
proof -
  have "part_ok p b e xs (fst (partition_loop p True xs b e)) (snd (partition_loop p True xs b e))"
    using assms(1,2) by (intro partition_loop_correct) auto
  with assms(3) show ?thesis by (simp add: std_partition_def)
qed

section \<open>\<open>std::unique\<close>\<close>

text \<open>
  \<open>std::unique(first, last)\<close> with \<open>operator==\<close> (the reference
  implementation; libstdc++'s differs only in skipping a prefix without
  writes): \<open>result\<close> is the last element kept, \<open>first\<close> runs over the rest,
  and an element different from \<open>*result\<close> is moved to \<open>++result\<close> unless
  that is its own position.  It returns \<open>++result\<close>.
  \<^verbatim>\<open>
    if (first == last) return last;
    ForwardIt result = first;
    while (++first != last)
        if (!(*result == *first) && ++result != first)
            *result = std::move(*first);
    return ++result;
  \<close>
  Moved-from elements keep their value in the model; the algorithm leaves
  the elements past the returned end unspecified, and no property reads them.
\<close>

function unique_loop :: "'a list \<Rightarrow> nat \<Rightarrow> nat \<Rightarrow> nat \<Rightarrow> 'a list \<times> nat" where
  "unique_loop xs r f e =
     (if e \<le> f then (xs, Suc r)
      else if xs ! r = xs ! f then unique_loop xs r (Suc f) e
      else unique_loop (if Suc r \<noteq> f then xs[Suc r := xs ! f] else xs) (Suc r) (Suc f) e)"
  by pat_completeness auto
termination
  by (relation "measure (\<lambda>(xs, r, f, e). e - f)") auto

declare unique_loop.simps [simp del]

definition std_unique :: "'a list \<Rightarrow> nat \<Rightarrow> nat \<Rightarrow> 'a list \<times> nat" where
  "std_unique xs b e = (if b = e then (xs, e) else unique_loop xs b (Suc b) e)"

lemma remdups_adj_Cons_Cons:
  "remdups_adj (x # y # zs) = (if x = y then remdups_adj (x # zs) else x # remdups_adj (y # zs))"
  by simp

text \<open>
  The loop keeps \<open>[b, r]\<close> as the kept prefix; the result's kept prefix is
  that prefix without its last element followed by the adjacent-duplicate-free
  form of the last element and the unread rest.
\<close>

lemma unique_loop_write_step:
  assumes "b \<le> r" "r < f" "f < e" "e \<le> length xs" "xs ! r \<noteq> xs ! f"
    and "slice ys b m = slice (xs[Suc r := xs ! f]) b (Suc r) @
           remdups_adj (xs[Suc r := xs ! f] ! Suc r # slice (xs[Suc r := xs ! f]) (Suc f) e)"
    and "same_outside (Suc (Suc r)) e (xs[Suc r := xs ! f]) ys"
  shows "slice ys b m = slice xs b r @ remdups_adj (xs ! r # slice xs f e) \<and>
         same_outside (Suc r) e xs ys"
proof
  have sl: "slice xs f e = xs ! f # slice xs (Suc f) e"
    using assms(3,4) by (rule slice_Cons_front)
  have pre: "slice (xs[Suc r := xs ! f]) b (Suc r) = slice xs b r @ [xs ! r]"
    using assms(1-4) by (simp add: slice_update_outside slice_snoc)
  have rest: "slice (xs[Suc r := xs ! f]) (Suc f) e = slice xs (Suc f) e"
    using assms(2) by (simp add: slice_update_outside)
  have nth: "xs[Suc r := xs ! f] ! Suc r = xs ! f"
    using assms(2-4) by simp
  show "slice ys b m = slice xs b r @ remdups_adj (xs ! r # slice xs f e)"
    using assms(5,6) unfolding sl pre rest nth by simp
  have "same_outside (Suc r) e xs (xs[Suc r := xs ! f])"
    using assms(2-4) by (intro same_outside_update) auto
  moreover have "same_outside (Suc r) e (xs[Suc r := xs ! f]) ys"
    using assms(7) by (rule same_outside_mono) auto
  ultimately show "same_outside (Suc r) e xs ys"
    by (rule same_outside_trans)
qed

lemma unique_loop_correct:
  "b \<le> r \<Longrightarrow> r < f \<Longrightarrow> f \<le> e \<Longrightarrow> e \<le> length xs \<Longrightarrow>
   unique_loop xs r f e = (ys, m) \<Longrightarrow>
   slice ys b m = slice xs b r @ remdups_adj (xs ! r # slice xs f e) \<and>
   same_outside (Suc r) e xs ys \<and> Suc r \<le> m \<and> m \<le> e"
proof (induction xs r f e arbitrary: ys m rule: unique_loop.induct)
  case (1 xs r f e)
  show ?case
  proof (cases "e \<le> f")
    case True
    then have "unique_loop xs r f e = (xs, Suc r)"
      by (subst unique_loop.simps) simp
    with True "1.prems" show ?thesis
      by (simp add: slice_snoc slice_empty)
  next
    case ef: False
    then have sl: "slice xs f e = xs ! f # slice xs (Suc f) e"
      using "1.prems" by (simp add: slice_Cons_front)
    show ?thesis
    proof (cases "xs ! r = xs ! f")
      case True
      then have "unique_loop xs r f e = unique_loop xs r (Suc f) e"
        by (subst unique_loop.simps) (use ef in simp)
      with "1.prems" have "unique_loop xs r (Suc f) e = (ys, m)" by simp
      with "1.IH"(1) [OF ef True] "1.prems" ef
      have "slice ys b m = slice xs b r @ remdups_adj (xs ! r # slice xs (Suc f) e) \<and>
            same_outside (Suc r) e xs ys \<and> Suc r \<le> m \<and> m \<le> e"
        by simp
      with True sl show ?thesis by simp
    next
      case False
      have upd: "(if Suc r \<noteq> f then xs[Suc r := xs ! f] else xs) = xs[Suc r := xs ! f]"
        by simp
      have "unique_loop xs r f e = unique_loop (xs[Suc r := xs ! f]) (Suc r) (Suc f) e"
        by (subst unique_loop.simps) (use ef False in simp)
      with "1.prems" have u: "unique_loop (xs[Suc r := xs ! f]) (Suc r) (Suc f) e = (ys, m)"
        by simp
      have ih: "slice ys b m = slice (xs[Suc r := xs ! f]) b (Suc r) @
                  remdups_adj (xs[Suc r := xs ! f] ! Suc r # slice (xs[Suc r := xs ! f]) (Suc f) e) \<and>
                same_outside (Suc (Suc r)) e (xs[Suc r := xs ! f]) ys \<and> Suc (Suc r) \<le> m \<and> m \<le> e"
        using "1.IH"(2) [OF ef False, of ys m] "1.prems" ef u unfolding upd by simp
      then show ?thesis
        using unique_loop_write_step [of b r f e xs ys m] "1.prems" ef False by simp
    qed
  qed
qed
lemma std_unique_correct:
  assumes "b \<le> e" "e \<le> length xs" "std_unique xs b e = (ys, m)"
  shows "slice ys b m = remdups_adj (slice xs b e) \<and> same_outside b e xs ys \<and>
         b \<le> m \<and> m \<le> e \<and> (b < e \<longrightarrow> b < m)"
proof (cases "b = e")
  case True
  with assms show ?thesis by (simp add: std_unique_def slice_empty)
next
  case False
  with assms have "unique_loop xs b (Suc b) e = (ys, m)" by (simp add: std_unique_def)
  then have "slice ys b m = slice xs b b @ remdups_adj (xs ! b # slice xs (Suc b) e) \<and>
             same_outside (Suc b) e xs ys \<and> Suc b \<le> m \<and> m \<le> e"
    using assms False by (intro unique_loop_correct) auto
  with assms False show ?thesis
    by (auto simp: slice_empty slice_Cons_front [symmetric] intro: same_outside_mono)
qed

text \<open>
  \<open>std::unique\<close> reads and writes only its range: on two vectors that agree on
  the range it returns the same end and results that agree on the range.
\<close>

definition agree :: "nat \<Rightarrow> nat \<Rightarrow> 'a list \<Rightarrow> 'a list \<Rightarrow> bool" where
  "agree b e xs ys \<longleftrightarrow> length ys = length xs \<and> (\<forall>k. b \<le> k \<and> k < e \<longrightarrow> ys ! k = xs ! k)"

lemma unique_loop_agree:
  "b \<le> r \<Longrightarrow> r < f \<Longrightarrow> e \<le> length xs \<Longrightarrow> agree b e xs ys \<Longrightarrow>
   snd (unique_loop ys r f e) = snd (unique_loop xs r f e) \<and>
   agree b e (fst (unique_loop xs r f e)) (fst (unique_loop ys r f e))"
proof (induction xs r f e arbitrary: ys rule: unique_loop.induct)
  case (1 xs r f e)
  have len: "length ys = length xs" and eqk: "\<And>k. b \<le> k \<Longrightarrow> k < e \<Longrightarrow> ys ! k = xs ! k"
    using "1.prems"(4) by (simp_all add: agree_def)
  show ?case
  proof (cases "e \<le> f")
    case True
    then show ?thesis using "1.prems" by (simp add: unique_loop.simps [of xs r f e] unique_loop.simps [of ys r f e])
  next
    case ef: False
    have rf: "ys ! r = xs ! r" "ys ! f = xs ! f" using eqk "1.prems"(1,2) ef by simp_all
    show ?thesis
    proof (cases "xs ! r = xs ! f")
      case True
      then have "unique_loop xs r f e = unique_loop xs r (Suc f) e"
        "unique_loop ys r f e = unique_loop ys r (Suc f) e"
        using ef rf by (subst unique_loop.simps, simp)+
      with "1.IH"(1) [OF ef True _ _ "1.prems"(3,4)] "1.prems"(1,2) show ?thesis by simp
    next
      case False
      let ?xs' = "if Suc r \<noteq> f then xs[Suc r := xs ! f] else xs"
      let ?ys' = "if Suc r \<noteq> f then ys[Suc r := ys ! f] else ys"
      have "unique_loop xs r f e = unique_loop ?xs' (Suc r) (Suc f) e"
        "unique_loop ys r f e = unique_loop ?ys' (Suc r) (Suc f) e"
        using ef rf False by (subst unique_loop.simps, simp)+
      moreover have "agree b e ?xs' ?ys'"
        using "1.prems" rf len ef by (auto simp: agree_def nth_list_update)
      moreover have "e \<le> length ?xs'" using "1.prems"(3) by simp
      ultimately show ?thesis
        using "1.IH"(2) [OF ef False, of ?ys'] "1.prems"(1,2) by simp
    qed
  qed
qed

lemma std_unique_agree:
  "b \<le> e \<Longrightarrow> e \<le> length xs \<Longrightarrow> agree b e xs ys \<Longrightarrow>
   snd (std_unique ys b e) = snd (std_unique xs b e) \<and>
   agree b e (fst (std_unique xs b e)) (fst (std_unique ys b e))"
  using unique_loop_agree [of b b "Suc b" e xs ys]
  by (cases "b = e") (simp_all add: std_unique_def)

lemma std_unique_frame:
  "b \<le> e \<Longrightarrow> e \<le> length xs \<Longrightarrow> same_outside b e xs (fst (std_unique xs b e))"
  using std_unique_correct [of b e xs "fst (std_unique xs b e)" "snd (std_unique xs b e)"] by simp

lemma same_outside_agree:
  "same_outside b e xs ys \<Longrightarrow> e \<le> c \<or> d \<le> b \<Longrightarrow> d \<le> length xs \<Longrightarrow> agree c d xs ys"
  by (auto simp: same_outside_def agree_def)

text \<open>\<open>std::unique\<close> on two disjoint ranges gives the same vector and ends in either order.\<close>

lemma std_unique_commute:
  assumes "b1 \<le> e1" "e1 \<le> b2" "b2 \<le> e2" "e2 \<le> length xs"
  shows "std_unique (fst (std_unique xs b1 e1)) b2 e2 =
           (fst (std_unique (fst (std_unique xs b2 e2)) b1 e1), snd (std_unique xs b2 e2)) \<and>
         snd (std_unique (fst (std_unique xs b2 e2)) b1 e1) = snd (std_unique xs b1 e1)"
proof -
  let ?xs1 = "fst (std_unique xs b1 e1)" and ?ys1 = "fst (std_unique xs b2 e2)"
  have f1: "same_outside b1 e1 xs ?xs1" using assms by (intro std_unique_frame) simp_all
  have f2: "same_outside b2 e2 xs ?ys1" using assms by (intro std_unique_frame) simp_all
  have l1: "length ?xs1 = length xs" and l2: "length ?ys1 = length xs"
    using f1 f2 by (simp_all add: same_outside_def)
  have a2: "snd (std_unique ?xs1 b2 e2) = snd (std_unique xs b2 e2) \<and>
            agree b2 e2 (fst (std_unique xs b2 e2)) (fst (std_unique ?xs1 b2 e2))"
  proof -
    have "agree b2 e2 xs ?xs1" by (rule same_outside_agree [OF f1]) (use assms in simp_all)
    then show ?thesis by (rule std_unique_agree [OF assms(3,4)])
  qed
  have a1: "snd (std_unique ?ys1 b1 e1) = snd (std_unique xs b1 e1) \<and>
            agree b1 e1 (fst (std_unique xs b1 e1)) (fst (std_unique ?ys1 b1 e1))"
  proof -
    have "agree b1 e1 xs ?ys1" by (rule same_outside_agree [OF f2]) (use assms in simp_all)
    moreover have "e1 \<le> length xs" using assms by simp
    ultimately show ?thesis using std_unique_agree [OF assms(1)] by blast
  qed
  have g2: "same_outside b2 e2 ?xs1 (fst (std_unique ?xs1 b2 e2))"
    using assms l1 by (intro std_unique_frame) simp_all
  have g1: "same_outside b1 e1 ?ys1 (fst (std_unique ?ys1 b1 e1))"
    using assms l2 by (intro std_unique_frame) simp_all
  have "fst (std_unique ?xs1 b2 e2) = fst (std_unique ?ys1 b1 e1)"
  proof (rule nth_equalityI)
    show "length (fst (std_unique ?xs1 b2 e2)) = length (fst (std_unique ?ys1 b1 e1))"
      using g1 g2 l1 l2 by (simp add: same_outside_def)
  next
    fix k assume "k < length (fst (std_unique ?xs1 b2 e2))"
    then have k: "k < length xs" using g2 l1 by (simp add: same_outside_def)
    consider "b1 \<le> k \<and> k < e1" | "b2 \<le> k \<and> k < e2" | "(k < b1 \<or> e1 \<le> k) \<and> (k < b2 \<or> e2 \<le> k)"
      by linarith
    then show "fst (std_unique ?xs1 b2 e2) ! k = fst (std_unique ?ys1 b1 e1) ! k"
    proof cases
      case 1
      then show ?thesis using g2 a1 assms k l1 unfolding same_outside_def agree_def by auto
    next
      case 2
      then show ?thesis using g1 a2 assms k l2 unfolding same_outside_def agree_def by auto
    next
      case 3
      then show ?thesis using f1 f2 g1 g2 k l1 l2 unfolding same_outside_def by auto
    qed
  qed
  then show ?thesis using a1 a2 by (metis prod.collapse)
qed

section \<open>\<open>std::copy\<close>\<close>

text \<open>
  \<open>std::copy(first, last, d_first)\<close>: \<open>*d_first++ = *first++\<close> while
  \<open>first != last\<close>.  The loop reads each source element after the writes
  of the earlier iterations, which is what matters when the ranges overlap.
\<close>

function copy_range :: "'a list \<Rightarrow> nat \<Rightarrow> nat \<Rightarrow> nat \<Rightarrow> 'a list" where
  "copy_range xs f l d = (if l \<le> f then xs else copy_range (xs[d := xs ! f]) (Suc f) l (Suc d))"
  by pat_completeness auto
termination
  by (relation "measure (\<lambda>(xs, f, l, d). l - f)") auto

declare copy_range.simps [simp del]

text \<open>Copying to the left (\<open>d \<le> f\<close>), even into an overlapping range, copies the source.\<close>

lemma copy_range_correct:
  "d \<le> f \<Longrightarrow> f \<le> l \<Longrightarrow> l \<le> length xs \<Longrightarrow>
   slice (copy_range xs f l d) d (d + (l - f)) = slice xs f l \<and>
   same_outside d (d + (l - f)) xs (copy_range xs f l d)"
proof (induction xs f l d rule: copy_range.induct)
  case (1 xs f l d)
  show ?case
  proof (cases "l \<le> f")
    case True
    then have "copy_range xs f l d = xs" by (subst copy_range.simps) simp
    with True "1.prems" show ?thesis by (simp add: slice_empty)
  next
    case False
    let ?xs' = "xs[d := xs ! f]"
    have eq: "copy_range xs f l d = copy_range ?xs' (Suc f) l (Suc d)"
      by (subst copy_range.simps) (use False in simp)
    have ih: "slice (copy_range ?xs' (Suc f) l (Suc d)) (Suc d) (Suc d + (l - Suc f)) = slice ?xs' (Suc f) l \<and>
              same_outside (Suc d) (Suc d + (l - Suc f)) ?xs' (copy_range ?xs' (Suc f) l (Suc d))"
      using False "1.prems" by (intro "1.IH") auto
    let ?ys = "copy_range ?xs' (Suc f) l (Suc d)"
    have len: "length ?ys = length xs" using ih by (simp add: same_outside_def)
    have d_kept: "?ys ! d = xs ! f"
      using ih "1.prems" False by (auto simp: same_outside_def)
    have src: "slice ?xs' (Suc f) l = slice xs (Suc f) l"
      using "1.prems" by (simp add: slice_update_outside)
    have "slice ?ys d (d + (l - f)) = ?ys ! d # slice ?ys (Suc d) (Suc d + (l - Suc f))"
      using False "1.prems" len by (simp add: slice_Cons_front Suc_diff_Suc)
    also have "\<dots> = slice xs f l"
      using ih d_kept src False "1.prems" by (simp add: slice_Cons_front [of f l xs])
    finally have "slice ?ys d (d + (l - f)) = slice xs f l" .
    moreover have "same_outside d (d + (l - f)) xs ?ys"
    proof -
      have "same_outside d (d + (l - f)) xs ?xs'"
        using False "1.prems" by (intro same_outside_update) auto
      moreover have "same_outside d (d + (l - f)) ?xs' ?ys"
        using ih False by (auto intro: same_outside_mono)
      ultimately show ?thesis by (rule same_outside_trans)
    qed
    ultimately show ?thesis using eq by simp
  qed
qed

section \<open>\<open>std::sort\<close>\<close>

text \<open>
  \<open>std::sort(begin, end, cmp)\<close> by its contract: the range becomes a
  permutation of itself that is sorted by \<open>cmp\<close>.  Which permutation (for
  elements equivalent under \<open>cmp\<close>) the standard leaves open; an insertion sort
  by \<open>cmp\<close> is one.  For a strict total order the sorted permutation is unique
  (\<open>sort_by_less\<close>), so the choice does not matter there.
\<close>

fun insert_by :: "('a \<Rightarrow> 'a \<Rightarrow> bool) \<Rightarrow> 'a \<Rightarrow> 'a list \<Rightarrow> 'a list" where
  "insert_by cmp x [] = [x]"
| "insert_by cmp x (y # ys) = (if cmp y x then y # insert_by cmp x ys else x # y # ys)"

fun sort_by :: "('a \<Rightarrow> 'a \<Rightarrow> bool) \<Rightarrow> 'a list \<Rightarrow> 'a list" where
  "sort_by cmp [] = []"
| "sort_by cmp (x # xs) = insert_by cmp x (sort_by cmp xs)"

definition std_sort :: "('a \<Rightarrow> 'a \<Rightarrow> bool) \<Rightarrow> 'a list \<Rightarrow> nat \<Rightarrow> nat \<Rightarrow> 'a list" where
  "std_sort cmp xs b e = take b xs @ sort_by cmp (slice xs b e) @ drop e xs"

lemma insert_by_less: "insert_by (<) x ys = insort x (ys :: 'a::linorder list)"
  by (induction ys) (auto simp: not_less)

lemma sort_by_less: "sort_by (<) xs = sort (xs :: 'a::linorder list)"
  by (induction xs) (simp_all add: insert_by_less)

lemma std_sort_less:
  "b \<le> e \<Longrightarrow> e \<le> length xs \<Longrightarrow>
   slice (std_sort (<) xs b e) b e = sort (slice xs b e) \<and>
   same_outside b e xs (std_sort (<) xs b e)"
  by (auto simp: std_sort_def sort_by_less slice_def same_outside_def nth_append min_def)

lemma mset_insert_by: "mset (insert_by cmp x ys) = add_mset x (mset ys)"
  by (induction ys) auto

lemma mset_sort_by: "mset (sort_by cmp xs) = mset xs"
  by (induction xs) (simp_all add: mset_insert_by)

lemma std_sort_frame:
  "b \<le> e \<Longrightarrow> e \<le> length xs \<Longrightarrow>
   mset (slice (std_sort cmp xs b e) b e) = mset (slice xs b e) \<and>
   same_outside b e xs (std_sort cmp xs b e)"
proof -
  assume be: "b \<le> e" and el: "e \<le> length xs"
  have len: "length (sort_by cmp (slice xs b e)) = e - b"
    using mset_sort_by [of cmp "slice xs b e"] el by (metis length_slice size_mset)
  then show ?thesis
    using be el by (auto simp: std_sort_def slice_def same_outside_def nth_append min_def mset_sort_by)
qed

text \<open>
  The requirement the standard places on \<open>Compare\<close>: a strict weak ordering
  (irreflexive, transitive, and with transitive incomparability, here stated
  as transitivity of the complement).
\<close>

definition swo :: "('a \<Rightarrow> 'a \<Rightarrow> bool) \<Rightarrow> bool" where
  "swo cmp \<longleftrightarrow> (\<forall>x. \<not> cmp x x) \<and> (\<forall>x y z. cmp x y \<longrightarrow> cmp y z \<longrightarrow> cmp x z) \<and>
                (\<forall>x y z. \<not> cmp x y \<longrightarrow> \<not> cmp y z \<longrightarrow> \<not> cmp x z)"

text \<open>Sorted in the sense of the standard: no later element is less than an earlier one.\<close>

abbreviation sorted_by :: "('a \<Rightarrow> 'a \<Rightarrow> bool) \<Rightarrow> 'a list \<Rightarrow> bool" where
  "sorted_by cmp xs \<equiv> sorted_wrt (\<lambda>x y. \<not> cmp y x) xs"

lemma swo_less: "swo ((<) :: 'a::linorder \<Rightarrow> 'a \<Rightarrow> bool)"
  by (auto simp: swo_def)

lemma swo_asym: "swo cmp \<Longrightarrow> cmp x y \<Longrightarrow> \<not> cmp y x"
  unfolding swo_def by blast

lemma swo_trans: "swo cmp \<Longrightarrow> cmp x y \<Longrightarrow> cmp y z \<Longrightarrow> cmp x z"
  unfolding swo_def by blast

lemma swo_ntrans: "swo cmp \<Longrightarrow> \<not> cmp x y \<Longrightarrow> \<not> cmp y z \<Longrightarrow> \<not> cmp x z"
  unfolding swo_def by blast

lemma swo_irrefl: "swo cmp \<Longrightarrow> \<not> cmp x x"
  unfolding swo_def by blast

lemma set_insert_by [simp]: "set (insert_by cmp x ys) = insert x (set ys)"
  by (induction ys) auto

lemma sorted_insert_by:
  "swo cmp \<Longrightarrow> sorted_by cmp ys \<Longrightarrow> sorted_by cmp (insert_by cmp x ys)"
proof (induction ys)
  case (Cons a ys)
  then show ?case using swo_ntrans [of cmp _ a x] by (auto dest: swo_asym)
qed simp

lemma sorted_sort_by: "swo cmp \<Longrightarrow> sorted_by cmp (sort_by cmp xs)"
  by (induction xs) (simp_all add: sorted_insert_by)


lemma slice_std_sort:
  "b \<le> e \<Longrightarrow> e \<le> length xs \<Longrightarrow> slice (std_sort cmp xs b e) b e = sort_by cmp (slice xs b e)"
proof -
  assume be: "b \<le> e" and el: "e \<le> length xs"
  have "length (sort_by cmp (slice xs b e)) = e - b"
    using mset_sort_by [of cmp "slice xs b e"] el by (metis length_slice size_mset)
  with be el show ?thesis by (simp add: std_sort_def slice_def min_def)
qed

text \<open>After \<open>std::sort\<close> with a strict weak ordering no element of the range is less than an earlier one.\<close>

lemma std_sort_sorted:
  assumes "swo cmp" "b \<le> i" "i < j" "j < e" "e \<le> length xs"
  shows "\<not> cmp (std_sort cmp xs b e ! j) (std_sort cmp xs b e ! i)"
proof -
  let ?ys = "std_sort cmp xs b e"
  have len: "length ?ys = length xs"
    using std_sort_frame [of b e xs cmp] assms by (simp add: same_outside_def)
  have s: "sorted_by cmp (slice ?ys b e)"
    using slice_std_sort [of b e xs cmp] sorted_sort_by [OF assms(1)] assms by simp
  have "\<not> cmp (slice ?ys b e ! (j - b)) (slice ?ys b e ! (i - b))"
    using sorted_wrt_nth_less [OF s, of "i - b" "j - b"] assms len by (simp add: length_slice)
  with assms len show ?thesis by (simp add: nth_slice)
qed

end
