(* ===== verification/ParallelSort.thy ===== *)
theory ParallelSort
  imports StdAlgo
begin

text \<open>
  The task of \<open>mt::sort\<close> (src/sort.hpp, lines 70--95) and the process of
  all its tasks on a shared vector.  A task is a range \<open>[b, e)\<close> of the
  vector; running it permutes that range and returns the ranges it submits.
  \<open>qs_step\<close> runs any pending task, in any order, which covers every
  schedule a pool can produce; \<open>qs_run\<close> runs them in FIFO order, the
  schedule of a pool with one worker.  The invariant \<open>qs_inv\<close> says that
  the vector is a permutation of the input, the pending ranges are disjoint
  (tasks that may run in parallel never touch the same element), and any two
  elements not inside one pending range are already in order.
\<close>

type_synonym range = "nat \<times> nat"

section \<open>The task\<close>

text \<open>
  \<open>chunk_size = std::distance(begin, end) / (threads_amount * 8)\<close> (line 73):
  the distance is converted to \<open>size_t\<close> and the product wraps modulo
  \<open>2^64\<close>; a zero divisor is undefined behaviour.
\<close>

definition chunk_size_of :: "size_t \<Rightarrow> size_t \<Rightarrow> error + size_t" where
  "chunk_size_of len threads =
     (if threads * 8 = 0 then Inl DivisionByZero else Inr (len div (threads * 8)))"

text \<open>
  The body of the lambda \<open>quick_sort\<close> (lines 76--92) on the range \<open>[b, e)\<close>:
  the pivot is the middle element, read before the first partition; the two
  calls to \<open>pool.push\<close> submit \<open>[b, middle1)\<close> and \<open>[middle2, end)\<close>, in that
  order.  \<open>sz\<close> is a \<open>size_t\<close> that the comparison with \<open>chunk_size\<close> reads
  through \<open>unat\<close> (ranges of a vector are shorter than \<open>2^64\<close>).
\<close>

definition quick_sort_task ::
  "('a \<Rightarrow> 'a \<Rightarrow> bool) \<Rightarrow> size_t \<Rightarrow> range \<Rightarrow> 'a list \<Rightarrow> 'a list \<times> range list" where
  "quick_sort_task cmp chunk r xs =
     (case r of (b, e) \<Rightarrow>
       let sz = e - b in
       if sz \<le> 1 then (xs, [])
       else if unat chunk < sz then
         (let pivot = xs ! (b + sz div 2);
              (xs1, m1) = std_partition (\<lambda>em. cmp em pivot) xs b e;
              (xs2, m2) = std_partition (\<lambda>em. \<not> cmp pivot em) xs1 m1 e
          in (xs2, [(b, m1), (m2, e)]))
       else (std_sort cmp xs b e, []))"

section \<open>Pending ranges\<close>

definition in_range :: "range \<Rightarrow> nat \<Rightarrow> bool" where
  "in_range r k \<longleftrightarrow> fst r \<le> k \<and> k < snd r"

text \<open>How many pending ranges contain position \<open>k\<close>.\<close>

definition cover :: "range multiset \<Rightarrow> nat \<Rightarrow> nat" where
  "cover P k = size (filter_mset (\<lambda>r. in_range r k) P)"

definition ranges_ok :: "nat \<Rightarrow> range multiset \<Rightarrow> bool" where
  "ranges_ok n P \<longleftrightarrow> (\<forall>r\<in>#P. fst r \<le> snd r \<and> snd r \<le> n) \<and> (\<forall>k < n. cover P k \<le> 1)"

definition sorted_outside :: "('a \<Rightarrow> 'a \<Rightarrow> bool) \<Rightarrow> range multiset \<Rightarrow> 'a list \<Rightarrow> bool" where
  "sorted_outside cmp P xs \<longleftrightarrow>
     (\<forall>j < length xs. \<forall>i < j. (\<forall>r\<in>#P. \<not> (in_range r i \<and> in_range r j)) \<longrightarrow>
        \<not> cmp (xs ! j) (xs ! i))"

definition qs_inv :: "('a \<Rightarrow> 'a \<Rightarrow> bool) \<Rightarrow> 'a list \<Rightarrow> range multiset \<Rightarrow> 'a list \<Rightarrow> bool" where
  "qs_inv cmp xs0 P xs \<longleftrightarrow>
     mset xs = mset xs0 \<and> ranges_ok (length xs) P \<and> sorted_outside cmp P xs"

text \<open>The measure that every task decreases.\<close>

definition qs_measure :: "range multiset \<Rightarrow> nat" where
  "qs_measure P = (\<Sum>r\<in>#P. 2 * (snd r - fst r) + 1)"

lemma cover_add [simp]: "cover (P + Q) k = cover P k + cover Q k"
  by (simp add: cover_def)

lemma cover_single [simp]: "cover {#r#} k = (if in_range r k then 1 else 0)"
  by (simp add: cover_def)

lemma cover_diff_single:
  "r \<in># P \<Longrightarrow> cover (P - {#r#}) k = cover P k - (if in_range r k then 1 else 0)"
proof -
  assume "r \<in># P"
  then have "cover P k = cover (P - {#r#} + {#r#}) k" by simp
  then show ?thesis by (simp only: cover_add cover_single)
qed

lemma cover_pos: "r \<in># P \<Longrightarrow> in_range r k \<Longrightarrow> 0 < cover P k"
proof -
  assume "r \<in># P" "in_range r k"
  then have "r \<in># filter_mset (\<lambda>r. in_range r k) P" by simp
  then have "filter_mset (\<lambda>r. in_range r k) P \<noteq> {#}" by (metis empty_iff set_mset_empty)
  then show ?thesis unfolding cover_def by (simp only: nonempty_has_size)
qed

lemma cover_zero: "\<forall>r\<in>#P. \<not> in_range r k \<Longrightarrow> cover P k = 0"
  unfolding cover_def by (simp add: filter_empty_mset)

lemma cover_unique:
  assumes "cover P k \<le> 1" "r \<in># P" "r' \<in># P" "in_range r k" "in_range r' k"
  shows "r' = r"
proof (rule ccontr)
  assume "r' \<noteq> r"
  with assms(3) have "r' \<in># P - {#r#}" by (simp add: in_diff_count)
  then have "0 < cover (P - {#r#}) k" using assms(5) by (rule cover_pos)
  with assms(1,2,4) show False by (simp add: cover_diff_single)
qed

lemma ranges_ok_replace:
  assumes ok: "ranges_ok n P" and r: "r \<in># P"
    and sub: "\<forall>c\<in>set cs. fst r \<le> fst c \<and> fst c \<le> snd c \<and> snd c \<le> snd r"
    and dis: "\<forall>k. cover (mset cs) k \<le> 1"
  shows "ranges_ok n (P - {#r#} + mset cs)"
proof -
  have "fst x \<le> snd x \<and> snd x \<le> n" if x: "x \<in># P - {#r#} + mset cs" for x
  proof -
    from x have "x \<in># P \<or> x \<in> set cs" by (simp only: union_iff set_mset_mset) (blast dest: in_diffD)
    then show ?thesis
      using ok r sub unfolding ranges_ok_def by fastforce
  qed
  moreover have "cover (P - {#r#} + mset cs) k \<le> 1" if k: "k < n" for k
  proof (cases "in_range r k")
    case True
    with ok k r have "cover (P - {#r#}) k = 0"
      by (simp add: ranges_ok_def cover_diff_single)
    with dis show ?thesis by simp
  next
    case False
    with sub have "cover (mset cs) k = 0"
      by (intro cover_zero) (auto simp: in_range_def)
    with False ok k r show ?thesis
      by (simp add: ranges_ok_def cover_diff_single)
  qed
  ultimately show ?thesis unfolding ranges_ok_def by blast
qed

lemma sorted_outside_replace:
  assumes so: "sorted_outside cmp P xs" and ok: "ranges_ok (length xs) P" and r: "(b, e) \<in># P"
    and fr: "same_outside b e xs xs'" and pm: "mset (slice xs' b e) = mset (slice xs b e)"
    and inside: "\<forall>j<e. \<forall>i<j. b \<le> i \<longrightarrow> (\<forall>c\<in>set cs. \<not> (in_range c i \<and> in_range c j)) \<longrightarrow>
                   \<not> cmp (xs' ! j) (xs' ! i)"
  shows "sorted_outside cmp (P - {#(b, e)#} + mset cs) xs'"
  unfolding sorted_outside_def
proof (intro allI impI)
  fix j i
  assume j: "j < length xs'" and ij: "i < j"
    and H: "\<forall>r\<in>#P - {#(b, e)#} + mset cs. \<not> (in_range r i \<and> in_range r j)"
  have len: "length xs' = length xs" using fr by (simp add: same_outside_def)
  have ble: "b \<le> e" "e \<le> length xs" using ok r by (auto simp: ranges_ok_def)
  have keep: "xs' ! k = xs ! k" if "k < b \<or> e \<le> k" "k < length xs" for k
    using fr that unfolding same_outside_def by blast
  have old: "\<not> cmp (xs ! j') (xs ! i')"
    if "i' < j'" "j' < length xs" "\<forall>r\<in>#P. \<not> (in_range r i' \<and> in_range r j')" for i' j'
    using so that by (simp add: sorted_outside_def)
  have Hcs: "\<forall>c\<in>set cs. \<not> (in_range c i \<and> in_range c j)"
    using H by simp
  have Hrest: "\<not> (in_range r' i \<and> in_range r' j)" if "r' \<in># P" "r' \<noteq> (b, e)" for r'
  proof -
    from that have "r' \<in># P - {#(b, e)#}" by (simp add: in_diff_count)
    then show ?thesis using H by (metis union_iff)
  qed
  have unique: "r' = (b, e)" if "r' \<in># P" "in_range r' k" "b \<le> k" "k < e" for r' k
  proof (rule cover_unique [of P k])
    show "cover P k \<le> 1" using ok that(4) ble by (simp add: ranges_ok_def)
    show "in_range (b, e) k" using that(3,4) by (simp add: in_range_def)
  qed (use that r in simp_all)
  show "\<not> cmp (xs' ! j) (xs' ! i)"
  proof (cases "b \<le> i \<and> j < e")
    case True
    then show ?thesis using inside Hcs ij by blast
  next
    case False
    consider (out) "(i < b \<or> e \<le> i) \<and> (j < b \<or> e \<le> j)" | (iin) "b \<le> i \<and> i < e \<and> e \<le> j"
      | (jin) "i < b \<and> b \<le> j \<and> j < e"
      using False ij by linarith
    then show ?thesis
    proof cases
      case out
      have "\<forall>r\<in>#P. \<not> (in_range r i \<and> in_range r j)"
      proof
        fix r' assume "r' \<in># P"
        then show "\<not> (in_range r' i \<and> in_range r' j)"
          using out Hrest by (cases "r' = (b, e)") (auto simp: in_range_def)
      qed
      then show ?thesis using old [of i j] keep out ij j len by simp
    next
      case iin
      obtain i' where i': "b \<le> i'" "i' < e" "xs' ! i = xs ! i'"
        using perm_slice_nth [OF pm, of i] iin ble len by auto
      have "\<forall>r\<in>#P. \<not> (in_range r i' \<and> in_range r j)"
      proof (intro ballI notI)
        fix r' assume r': "r' \<in># P" "in_range r' i' \<and> in_range r' j"
        then have "r' = (b, e)" using unique i' by blast
        with r' iin show False by (simp add: in_range_def)
      qed
      then show ?thesis using old [of i' j] i' iin keep j len by simp
    next
      case jin
      obtain j' where j': "b \<le> j'" "j' < e" "xs' ! j = xs ! j'"
        using perm_slice_nth [OF pm, of j] jin ble len by auto
      have "\<forall>r\<in>#P. \<not> (in_range r i \<and> in_range r j')"
      proof (intro ballI notI)
        fix r' assume r': "r' \<in># P" "in_range r' i \<and> in_range r' j'"
        then have "r' = (b, e)" using unique j' by blast
        with r' jin show False by (simp add: in_range_def)
      qed
      then show ?thesis using old [of i j'] j' jin keep ble by simp
    qed
  qed
qed
lemma qs_inv_replace:
  assumes inv: "qs_inv cmp xs0 P xs" and r: "(b, e) \<in># P"
    and fr: "same_outside b e xs xs'" and pm: "mset (slice xs' b e) = mset (slice xs b e)"
    and sub: "\<forall>c\<in>set cs. b \<le> fst c \<and> fst c \<le> snd c \<and> snd c \<le> e"
    and dis: "\<forall>k. cover (mset cs) k \<le> 1"
    and inside: "\<forall>j<e. \<forall>i<j. b \<le> i \<longrightarrow> (\<forall>c\<in>set cs. \<not> (in_range c i \<and> in_range c j)) \<longrightarrow>
                   \<not> cmp (xs' ! j) (xs' ! i)"
  shows "qs_inv cmp xs0 (P - {#(b, e)#} + mset cs) xs'"
proof -
  have ok: "ranges_ok (length xs) P" and so: "sorted_outside cmp P xs" and m: "mset xs = mset xs0"
    using inv by (simp_all add: qs_inv_def)
  have ble: "b \<le> e" "e \<le> length xs" using ok r by (auto simp: ranges_ok_def)
  have len: "length xs' = length xs" using fr by (simp add: same_outside_def)
  have "mset xs' = mset xs" by (rule same_outside_mset [OF fr ble pm])
  moreover have "ranges_ok (length xs') (P - {#(b, e)#} + mset cs)"
    using ranges_ok_replace [OF ok r] sub dis len by simp
  moreover have "sorted_outside cmp (P - {#(b, e)#} + mset cs) xs'"
    by (rule sorted_outside_replace [OF so ok r fr pm inside])
  ultimately show ?thesis using m by (simp add: qs_inv_def)
qed

text \<open>The two calls of \<open>std::partition\<close> around a pivot \<open>p\<close> split the range into three zones.\<close>

lemma two_partitions:
  assumes "b \<le> e" "e \<le> length xs"
    and p1: "std_partition (\<lambda>em. cmp em p) xs b e = (xs1, m1)"
    and p2: "std_partition (\<lambda>em. \<not> cmp p em) xs1 m1 e = (xs2, m2)"
  shows "b \<le> m1 \<and> m1 \<le> m2 \<and> m2 \<le> e \<and> same_outside b e xs xs2 \<and>
         mset (slice xs2 b e) = mset (slice xs b e) \<and>
         (\<forall>k. b \<le> k \<and> k < m1 \<longrightarrow> cmp (xs2 ! k) p) \<and>
         (\<forall>k. m1 \<le> k \<and> k < m2 \<longrightarrow> \<not> cmp (xs2 ! k) p \<and> \<not> cmp p (xs2 ! k)) \<and>
         (\<forall>k. m2 \<le> k \<and> k < e \<longrightarrow> cmp p (xs2 ! k))"
proof -
  have o1: "part_ok (\<lambda>em. cmp em p) b e xs xs1 m1"
    using std_partition_correct [OF assms(1,2) p1] .
  then have bm1: "b \<le> m1" "m1 \<le> e" and f1: "same_outside b e xs xs1"
    and ms1: "mset (slice xs1 b e) = mset (slice xs b e)"
    and lo1: "\<forall>k. b \<le> k \<and> k < m1 \<longrightarrow> cmp (xs1 ! k) p"
    and hi1: "\<forall>k. m1 \<le> k \<and> k < e \<longrightarrow> \<not> cmp (xs1 ! k) p"
    by (simp_all add: part_ok_def)
  have len1: "length xs1 = length xs" using f1 by (simp add: same_outside_def)
  have o2: "part_ok (\<lambda>em. \<not> cmp p em) m1 e xs1 xs2 m2"
    using std_partition_correct [OF bm1(2) _ p2] assms(2) len1 by simp
  then have m12: "m1 \<le> m2" "m2 \<le> e" and f2: "same_outside m1 e xs1 xs2"
    and ms2: "mset (slice xs2 m1 e) = mset (slice xs1 m1 e)"
    and lo2: "\<forall>k. m1 \<le> k \<and> k < m2 \<longrightarrow> \<not> cmp p (xs2 ! k)"
    and hi2: "\<forall>k. m2 \<le> k \<and> k < e \<longrightarrow> cmp p (xs2 ! k)"
    by (simp_all add: part_ok_def)
  have len2: "length xs2 = length xs" using f2 len1 by (simp add: same_outside_def)
  have f: "same_outside b e xs xs2"
    using f1 same_outside_mono [OF f2 bm1(1) order_refl] by (rule same_outside_trans)
  have front: "slice xs2 b m1 = slice xs1 b m1"
    using same_outside_slice [OF f2, of b m1] bm1 assms(2) len1 by simp
  have "mset (slice xs2 b e) = mset (slice xs2 b m1) + mset (slice xs2 m1 e)"
    using slice_append [OF bm1] by (metis mset_append)
  also have "\<dots> = mset (slice xs1 b e)"
    using front ms2 slice_append [OF bm1, of xs1] by (metis mset_append)
  finally have ms: "mset (slice xs2 b e) = mset (slice xs b e)" using ms1 by simp
  have z1: "\<forall>k. b \<le> k \<and> k < m1 \<longrightarrow> cmp (xs2 ! k) p"
  proof (intro allI impI)
    fix k assume k: "b \<le> k \<and> k < m1"
    then have "xs2 ! k = xs1 ! k" using f2 assms(2) bm1 len1 by (simp add: same_outside_def)
    with lo1 k show "cmp (xs2 ! k) p" by simp
  qed
  have z2: "\<forall>k. m1 \<le> k \<and> k < m2 \<longrightarrow> \<not> cmp (xs2 ! k) p \<and> \<not> cmp p (xs2 ! k)"
  proof (intro allI impI)
    fix k assume k: "m1 \<le> k \<and> k < m2"
    then obtain k' where k': "m1 \<le> k'" "k' < e" "xs2 ! k = xs1 ! k'"
      using perm_slice_nth [OF ms2, of k] m12 assms(2) len1 len2 by auto
    have "\<not> cmp (xs1 ! k') p" using hi1 k'(1,2) by simp
    moreover have "\<not> cmp p (xs2 ! k)" using lo2 k by simp
    ultimately show "\<not> cmp (xs2 ! k) p \<and> \<not> cmp p (xs2 ! k)" using k'(3) by simp
  qed
  show ?thesis using bm1 m12 f ms z1 z2 hi2 by blast
qed

text \<open>Around a pivot, the three zones are in order under a strict weak ordering.\<close>

lemma zones_ordered:
  assumes swo: "swo cmp" and "b \<le> i" "i < j" "j < e"
    and z1: "\<forall>k. b \<le> k \<and> k < m1 \<longrightarrow> cmp (xs ! k) p"
    and z2: "\<forall>k. m1 \<le> k \<and> k < m2 \<longrightarrow> \<not> cmp (xs ! k) p \<and> \<not> cmp p (xs ! k)"
    and z3: "\<forall>k. m2 \<le> k \<and> k < e \<longrightarrow> cmp p (xs ! k)"
    and not_same: "\<not> (in_range (b, m1) i \<and> in_range (b, m1) j)" "\<not> (in_range (m2, e) i \<and> in_range (m2, e) j)"
  shows "\<not> cmp (xs ! j) (xs ! i)"
proof
  assume ji: "cmp (xs ! j) (xs ! i)"
  consider (a) "i < m1" "j < m2" | (b) "i < m1" "m2 \<le> j" | (c) "m1 \<le> i" "i < m2" "j < m2"
    | (d) "m1 \<le> i" "i < m2" "m2 \<le> j"
    using not_same assms(2-4) unfolding in_range_def
    by (cases "i < m1"; cases "j < m2"; cases "i < m2") simp_all
  then show False
  proof cases
    case a
    with assms(2-4) not_same(1) have "cmp (xs ! i) p" "\<not> cmp (xs ! j) p"
      using z1 z2 by (auto simp: in_range_def)
    then show False using swo_trans [OF swo ji] by blast
  next
    case b
    with assms(2-4) have "cmp (xs ! i) p" "cmp p (xs ! j)" using z1 z3 by auto
    then show False using swo_trans [OF swo _ ji] swo_asym [OF swo] by blast
  next
    case c
    with assms(2-4) have "\<not> cmp p (xs ! i)" "\<not> cmp (xs ! j) p"
      using z2 by (auto simp: in_range_def)
    then show False using swo_ntrans [OF swo] ji by blast
  next
    case d
    with assms(2-4) have "\<not> cmp p (xs ! i)" "cmp p (xs ! j)" using z2 z3 by auto
    then show False using swo_trans [OF swo _ ji] by blast
  qed
qed

lemma quick_sort_task_split:
  assumes "\<not> e - b \<le> 1" "unat c < e - b"
    and "std_partition (\<lambda>em. cmp em (xs ! (b + (e - b) div 2))) xs b e = (xs1, m1)"
    and "std_partition (\<lambda>em. \<not> cmp (xs ! (b + (e - b) div 2)) em) xs1 m1 e = (xs2, m2)"
  shows "quick_sort_task cmp c (b, e) xs = (xs2, [(b, m1), (m2, e)])"
  using assms by (simp add: quick_sort_task_def Let_def)

lemma quick_sort_task_inv:
  assumes swo: "swo cmp" and inv: "qs_inv cmp xs0 P xs" and r: "(b, e) \<in># P"
    and t: "quick_sort_task cmp c (b, e) xs = (xs', cs)"
  shows "qs_inv cmp xs0 (P - {#(b, e)#} + mset cs) xs'"
proof -
  have ble: "b \<le> e" "e \<le> length xs"
    using inv r by (auto simp: qs_inv_def ranges_ok_def)
  consider (small) "e - b \<le> 1" | (split) "\<not> e - b \<le> 1" "unat c < e - b"
    | (leaf) "\<not> e - b \<le> 1" "\<not> unat c < e - b"
    by linarith
  then show ?thesis
  proof cases
    case small
    then have "xs' = xs" "cs = []" using t by (simp_all add: quick_sort_task_def)
    then show ?thesis
      using small by (intro qs_inv_replace [OF inv r]) (auto simp: cover_def)
  next
    case split
    let ?p = "xs ! (b + (e - b) div 2)"
    obtain xs1 m1 where p1: "std_partition (\<lambda>em. cmp em ?p) xs b e = (xs1, m1)"
      by (metis surj_pair)
    obtain xs2 m2 where p2: "std_partition (\<lambda>em. \<not> cmp ?p em) xs1 m1 e = (xs2, m2)"
      by (metis surj_pair)
    have "xs' = xs2" "cs = [(b, m1), (m2, e)]"
      using quick_sort_task_split [OF split p1 p2] t by simp_all
    moreover note z = two_partitions [OF ble p1 p2]
    ultimately show ?thesis
    proof (intro qs_inv_replace [OF inv r])
      show "\<forall>k. cover (mset cs) k \<le> 1"
        using z \<open>cs = _\<close> by (auto simp: cover_def in_range_def)
      show "\<forall>j<e. \<forall>i<j. b \<le> i \<longrightarrow> (\<forall>c\<in>set cs. \<not> (in_range c i \<and> in_range c j)) \<longrightarrow>
              \<not> cmp (xs' ! j) (xs' ! i)"
        using z \<open>cs = _\<close> \<open>xs' = xs2\<close> zones_ordered [OF swo] by simp blast
    qed auto
  next
    case leaf
    then have "xs' = std_sort cmp xs b e" "cs = []"
      using t by (simp_all add: quick_sort_task_def)
    then show ?thesis
      using std_sort_frame [OF ble, of cmp] std_sort_sorted [OF swo _ _ _ ble(2)]
      by (intro qs_inv_replace [OF inv r]) (auto simp: cover_def)
  qed
qed

lemma qs_measure_add [simp]: "qs_measure (P + Q) = qs_measure P + qs_measure Q"
  by (simp add: qs_measure_def)

lemma qs_measure_remove:
  "r \<in># P \<Longrightarrow> qs_measure P = qs_measure (P - {#r#}) + (2 * (snd r - fst r) + 1)"
proof -
  assume "r \<in># P"
  then have "qs_measure P = qs_measure (P - {#r#} + {#r#})" by simp
  then show ?thesis by (simp add: qs_measure_def)
qed

text \<open>The pivot lies in the middle zone, so the middle zone is not empty.\<close>

lemma pivot_middle:
  assumes irr: "\<forall>x. \<not> cmp x x" and "b \<le> e" "e \<le> length xs" "b \<le> q" "q < e"
    and p1: "std_partition (\<lambda>em. cmp em (xs ! q)) xs b e = (xs1, m1)"
    and p2: "std_partition (\<lambda>em. \<not> cmp (xs ! q) em) xs1 m1 e = (xs2, m2)"
  shows "m1 < m2"
proof -
  note z = two_partitions [OF assms(2,3) p1 p2]
  have len: "length xs2 = length xs" using z by (simp add: same_outside_def)
  have "xs ! q \<in> set (slice xs2 b e)"
  proof -
    have "slice xs b e ! (q - b) = xs ! q" "q - b < length (slice xs b e)"
      using assms(2-5) by (simp_all add: nth_slice length_slice)
    then have "xs ! q \<in> set (slice xs b e)" by (metis nth_mem)
    moreover have "mset (slice xs2 b e) = mset (slice xs b e)" using z by simp
    ultimately show ?thesis by (metis mset_eq_setD)
  qed
  then obtain k where k: "b \<le> k" "k < e" "xs2 ! k = xs ! q"
    using in_set_slice [of "xs ! q" xs2 b e] assms(3) len by auto
  have z1: "\<forall>k. b \<le> k \<and> k < m1 \<longrightarrow> cmp (xs2 ! k) (xs ! q)"
    and z3: "\<forall>k. m2 \<le> k \<and> k < e \<longrightarrow> cmp (xs ! q) (xs2 ! k)"
    using z by simp_all
  have "\<not> k < m1" using z1 k irr by auto
  moreover have "\<not> m2 \<le> k" using z3 k irr by auto
  ultimately show ?thesis by simp
qed

lemma quick_sort_task_measure:
  assumes irr: "\<forall>x. \<not> cmp x x" and ok: "ranges_ok (length xs) P" and r: "(b, e) \<in># P"
    and t: "quick_sort_task cmp c (b, e) xs = (xs', cs)"
  shows "qs_measure (P - {#(b, e)#} + mset cs) < qs_measure P"
proof -
  have ble: "b \<le> e" "e \<le> length xs"
    using ok r by (auto simp: ranges_ok_def)
  have "qs_measure (mset cs) < 2 * (e - b) + 1"
  proof (cases "\<not> e - b \<le> 1 \<and> unat c < e - b")
    case True
    let ?q = "b + (e - b) div 2"
    obtain xs1 m1 where p1: "std_partition (\<lambda>em. cmp em (xs ! ?q)) xs b e = (xs1, m1)"
      by (metis surj_pair)
    obtain xs2 m2 where p2: "std_partition (\<lambda>em. \<not> cmp (xs ! ?q) em) xs1 m1 e = (xs2, m2)"
      by (metis surj_pair)
    have "cs = [(b, m1), (m2, e)]"
      using quick_sort_task_split [of e b c cmp xs xs1 m1 xs2 m2] True p1 p2 t by simp
    moreover have "m1 < m2"
      using True ble by (intro pivot_middle [OF irr ble _ _ p1 p2]) auto
    moreover have "b \<le> m1" "m2 \<le> e" using two_partitions [OF ble p1 p2] by simp_all
    ultimately show ?thesis by (simp add: qs_measure_def)
  next
    case False
    then have "cs = []" using t by (simp add: quick_sort_task_def Let_def split: if_splits)
    then show ?thesis by (simp add: qs_measure_def)
  qed
  then show ?thesis using qs_measure_remove [OF r] by simp
qed

lemma qs_inv_init: "qs_inv cmp xs {#(0, length xs)#} xs"
  by (simp add: qs_inv_def ranges_ok_def sorted_outside_def cover_def in_range_def)

lemma qs_inv_done:
  "qs_inv cmp xs0 {#} xs \<Longrightarrow> sorted_by cmp xs \<and> mset xs = mset xs0"
  by (simp add: qs_inv_def sorted_outside_def sorted_wrt_iff_nth_less)

lemma qs_inv_done_less:
  "qs_inv (<) xs0 {#} xs \<Longrightarrow> xs = sort (xs0 :: 'a::linorder list)"
proof -
  assume "qs_inv (<) xs0 {#} xs"
  then have "sorted_wrt (\<lambda>x y. \<not> y < x) xs" "mset xs = mset xs0"
    using qs_inv_done by blast+
  then have "sorted xs" "mset xs = mset xs0" by (simp_all add: not_less sorted_wrt_iff_nth_less sorted_iff_nth_mono_less)
  then show ?thesis by (metis properties_for_sort)
qed
section \<open>Running the tasks\<close>

text \<open>
  One task runs to completion on the shared vector: any pending range may be
  the next, as with any number of workers.
\<close>

inductive qs_step :: "('a \<Rightarrow> 'a \<Rightarrow> bool) \<Rightarrow> size_t \<Rightarrow> range multiset \<times> 'a list \<Rightarrow> range multiset \<times> 'a list \<Rightarrow> bool"
  for cmp :: "'a \<Rightarrow> 'a \<Rightarrow> bool" and chunk :: size_t where
  run: "r \<in># P \<Longrightarrow> quick_sort_task cmp chunk r xs = (xs', cs) \<Longrightarrow>
        qs_step cmp chunk (P, xs) (P - {#r#} + mset cs, xs')"

inductive_cases qs_stepE: "qs_step cmp chunk s s'"

text \<open>
  The FIFO schedule of a pool with one worker: the front range runs, the
  ranges it submits join the back.  It may not return for a comparison that is
  not irreflexive, hence the option.
\<close>

partial_function (option) qs_run :: "('a \<Rightarrow> 'a \<Rightarrow> bool) \<Rightarrow> size_t \<Rightarrow> range list \<Rightarrow> 'a list \<Rightarrow> 'a list option" where
  "qs_run cmp chunk rs xs =
     (case rs of
        [] \<Rightarrow> Some xs
      | r # rs' \<Rightarrow> (case quick_sort_task cmp chunk r xs of (xs', cs) \<Rightarrow> qs_run cmp chunk (rs' @ cs) xs'))"

text \<open>\<open>mt::sort\<close> with the FIFO schedule: the threshold, then the first task on the whole vector.\<close>

definition mt_sort_fifo :: "('a \<Rightarrow> 'a \<Rightarrow> bool) \<Rightarrow> 'a list \<Rightarrow> size_t \<Rightarrow> (error + 'a list) option" where
  "mt_sort_fifo cmp xs threads =
     (case chunk_size_of (word_of_nat (length xs)) threads of
        Inl err \<Rightarrow> Some (Inl err)
      | Inr chunk \<Rightarrow> map_option Inr (qs_run cmp chunk [(0, length xs)] xs))"

lemma qs_step_inv:
  assumes "qs_step cmp chunk (P, xs) (P', xs')" "swo cmp" "qs_inv cmp xs0 P xs"
  shows "qs_inv cmp xs0 P' xs'"
  using assms(1)
proof (cases rule: qs_step.cases)
  case (run r cs)
  obtain b e where "r = (b, e)" by fastforce
  with run show ?thesis using quick_sort_task_inv [OF assms(2,3), of b e chunk xs' cs] by simp
qed

lemma qs_step_measure:
  assumes "qs_step cmp chunk (P, xs) (P', xs')" "\<forall>x. \<not> cmp x x" "ranges_ok (length xs) P"
  shows "qs_measure P' < qs_measure P"
  using assms(1)
proof (cases rule: qs_step.cases)
  case (run r cs)
  obtain b e where "r = (b, e)" by fastforce
  with run show ?thesis using quick_sort_task_measure [of cmp xs P b e chunk xs' cs] assms(2,3) by simp
qed

lemma qs_steps_inv:
  "(qs_step cmp chunk)\<^sup>*\<^sup>* s s' \<Longrightarrow> swo cmp \<Longrightarrow> qs_inv cmp xs0 (fst s) (snd s) \<Longrightarrow>
   qs_inv cmp xs0 (fst s') (snd s')"
proof (induction rule: rtranclp_induct)
  case (step y z)
  then show ?case using qs_step_inv [of cmp chunk "fst y" "snd y" "fst z" "snd z"] by simp
qed simp

lemma qs_run_correct:
  assumes "swo cmp" "qs_inv cmp xs0 (mset rs) xs"
  shows "\<exists>ys. qs_run cmp chunk rs xs = Some ys \<and> qs_inv cmp xs0 {#} ys"
  using assms(2)
proof (induction "qs_measure (mset rs)" arbitrary: rs xs rule: less_induct)
  case less
  show ?case
  proof (cases rs)
    case Nil
    with less.prems show ?thesis by (simp add: qs_run.simps)
  next
    case (Cons r rs')
    obtain xs' cs where t: "quick_sort_task cmp chunk r xs = (xs', cs)" by (metis surj_pair)
    have r: "r \<in># mset rs" and P: "mset (rs' @ cs) = mset rs - {#r#} + mset cs"
      using Cons by simp_all
    have st: "qs_step cmp chunk (mset rs, xs) (mset (rs' @ cs), xs')"
      unfolding P by (rule qs_step.run [OF r t])
    have inv': "qs_inv cmp xs0 (mset (rs' @ cs)) xs'"
      using qs_step_inv [OF st assms(1) less.prems] .
    have "qs_measure (mset (rs' @ cs)) < qs_measure (mset rs)"
      using qs_step_measure [OF st] assms(1) less.prems by (simp add: qs_inv_def swo_irrefl)
    then obtain ys where "qs_run cmp chunk (rs' @ cs) xs' = Some ys" "qs_inv cmp xs0 {#} ys"
      using less.hyps inv' by blast
    then show ?thesis using Cons t by (simp add: qs_run.simps)
  qed
qed

lemma qs_step_progress: "r \<in># P \<Longrightarrow> \<exists>s'. qs_step cmp chunk (P, xs) s'"
  by (metis qs_step.run surj_pair)

lemma qs_chain_inv:
  assumes "swo cmp" "qs_inv cmp xs0 (fst (f 0)) (snd (f 0))"
    and "\<forall>n. qs_step cmp chunk (f n) (f (Suc n))"
  shows "qs_inv cmp xs0 (fst (f n)) (snd (f n)) \<and> qs_measure (fst (f n)) + n \<le> qs_measure (fst (f 0))"
proof (induction n)
  case 0
  then show ?case using assms(2) by simp
next
  case (Suc n)
  have st: "qs_step cmp chunk (fst (f n), snd (f n)) (fst (f (Suc n)), snd (f (Suc n)))"
    using assms(3) by simp
  have "qs_inv cmp xs0 (fst (f (Suc n))) (snd (f (Suc n)))"
    using qs_step_inv [OF st assms(1)] Suc.IH by blast
  moreover have "qs_measure (fst (f (Suc n))) < qs_measure (fst (f n))"
    using qs_step_measure [OF st] Suc.IH assms(1) by (simp add: qs_inv_def swo_irrefl)
  ultimately show ?case using Suc.IH by simp
qed

declare qs_run.simps [code]

text \<open>The product \<open>threads_amount * 8\<close> wraps to zero exactly at the multiples of \<open>2^61\<close>.\<close>

lemma size_t_times_8_eq_0: "(t :: size_t) * 8 = 0 \<longleftrightarrow> unat t mod 2 ^ 61 = 0"
proof -
  have "unat (t * 8) = unat t * 8 mod 2 ^ 64" by (simp add: unat_word_ariths)
  also have "\<dots> = unat t mod 2 ^ 61 * 8"
    using mod_mult_mult2 [of "unat t" 8 "2 ^ 61"] by simp
  finally have "unat (t * 8) = unat t mod 2 ^ 61 * 8" .
  then show ?thesis by (metis mult_eq_0_iff unat_eq_zero zero_neq_numeral)
qed

lemma qs_run_init:
  assumes "swo cmp"
  shows "\<exists>ys. qs_run cmp chunk [(0, length xs)] xs = Some ys \<and> sorted_by cmp ys \<and> mset ys = mset xs"
proof -
  have "qs_inv cmp xs (mset [(0, length xs)]) xs" using qs_inv_init by simp
  then obtain ys where "qs_run cmp chunk [(0, length xs)] xs = Some ys" "qs_inv cmp xs {#} ys"
    using qs_run_correct [OF assms(1)] by blast
  then show ?thesis using qs_inv_done by blast
qed

lemma qs_steps_final:
  assumes "swo cmp" "(qs_step cmp chunk)\<^sup>*\<^sup>* ({#(0, length xs)#}, xs) (P, ys)"
    and "\<not> (\<exists>s'. qs_step cmp chunk (P, ys) s')"
  shows "qs_inv cmp xs {#} ys"
proof -
  have "qs_inv cmp xs (fst ({#(0, length xs)#}, xs)) (snd ({#(0, length xs)#}, xs))"
    using qs_inv_init by simp
  from qs_steps_inv [OF assms(2,1) this] have "qs_inv cmp xs P ys" by simp
  moreover have "P = {#}"
    using assms(3) qs_step_progress by (metis multiset_nonemptyE)
  ultimately show ?thesis by simp
qed

section \<open>Properties of the sort\<close>

lemma mt_sort_fifo_sort:
  assumes "threads * 8 \<noteq> 0"
  shows "mt_sort_fifo (<) xs threads = Some (Inr (sort (xs :: 'a::linorder list)))"
proof -
  obtain ys where "qs_run (<) (word_of_nat (length xs) div (threads * 8)) [(0, length xs)] xs = Some ys"
      "sorted_by (<) ys" "mset ys = mset xs"
    using qs_run_init [OF swo_less] by blast
  moreover have "ys = sort xs"
    using calculation(2,3) by (simp add: not_less sorted_wrt_iff_nth_less sorted_iff_nth_mono_less properties_for_sort)
  ultimately show ?thesis using assms by (simp add: mt_sort_fifo_def chunk_size_of_def)
qed

text \<open>
  Claim C7: every schedule of the tasks that stops sorts.  Starting from the
  first task on the whole vector, whatever order the tasks run in, once no task
  is pending the vector is a permutation of the input sorted by \<open>cmp\<close>, for
  every strict weak ordering \<open>cmp\<close>.
\<close>

theorem every_schedule_sorts:
  assumes "swo cmp" "(qs_step cmp chunk)\<^sup>*\<^sup>* ({#(0, length xs)#}, xs) (P, ys)"
    and "\<not> (\<exists>s'. qs_step cmp chunk (P, ys) s')"
  shows "sorted_by cmp ys \<and> mset ys = mset xs"
  using qs_inv_done [OF qs_steps_final [OF assms]] .

theorem every_schedule_sorts_witness:
  "(qs_step (<) 0)\<^sup>*\<^sup>* ({#(0, length [2, 1::nat])#}, [2, 1::nat]) ({#}, [1, 2]) \<and>
   sorted_by (<) [1, 2::nat] \<and> mset [1, 2::nat] = mset [2, 1]"
proof -
  have s1: "qs_step (<) 0 ({#(0, 2)#}, [2, 1::nat]) ({#(0, 0), (1, 2)#}, [1, 2])"
    using qs_step.run [of "(0, 2)" "{#(0, 2)#}" "(<)" 0 "[2, 1::nat]" "[1, 2]" "[(0, 0), (1, 2)]"]
    by (simp add: quick_sort_task_def std_partition_def partition_loop.simps)
  have s2: "qs_step (<) 0 ({#(0, 0), (1, 2)#}, [1, 2::nat]) ({#(1, 2)#}, [1, 2])"
    using qs_step.run [of "(0, 0)" "{#(0, 0), (1, 2)#}" "(<)" 0 "[1, 2::nat]" "[1, 2]" "[]"]
    by (simp add: quick_sort_task_def)
  have s3: "qs_step (<) 0 ({#(1, 2)#}, [1, 2::nat]) ({#}, [1, 2])"
    using qs_step.run [of "(1, 2)" "{#(1, 2)#}" "(<)" 0 "[1, 2::nat]" "[1, 2]" "[]"]
    by (simp add: quick_sort_task_def)
  have "(qs_step (<) 0)\<^sup>*\<^sup>* ({#(0, 2)#}, [2, 1::nat]) ({#}, [1, 2])"
    using s1 s2 s3 by (meson rtranclp.rtrancl_into_rtrancl rtranclp.rtrancl_refl)
  moreover have l: "length [2, 1::nat] = 2" by simp
  ultimately have "(qs_step (<) 0)\<^sup>*\<^sup>* ({#(0, length [2, 1::nat])#}, [2, 1::nat]) ({#}, [1, 2])"
    by (simp only: l)
  moreover have "\<not> (\<exists>s'. qs_step (<) 0 ({#}, [1, 2::nat]) s')"
    by (auto elim: qs_step.cases)
  ultimately show ?thesis
    using every_schedule_sorts [OF swo_less] by blast
qed

text \<open>
  Claim C8: no schedule of the tasks runs forever.  For a strict weak ordering
  every task shrinks its range (the pivot is excluded from both submitted
  ranges), so there is no infinite sequence of task executions from the first
  task, whatever the order.
\<close>

theorem no_infinite_schedule:
  assumes "swo cmp" "f 0 = ({#(0, length xs)#}, xs)"
  shows "\<not> (\<forall>n. qs_step cmp chunk (f n) (f (Suc n)))"
proof
  assume steps: "\<forall>n. qs_step cmp chunk (f n) (f (Suc n))"
  have "qs_inv cmp xs (fst (f 0)) (snd (f 0))" using assms(2) qs_inv_init by simp
  then have "qs_measure (fst (f n)) + n \<le> qs_measure (fst (f 0))" for n
    using qs_chain_inv [OF assms(1) _ steps] by blast
  from this [of "Suc (qs_measure (fst (f 0)))"] show False by simp
qed

theorem no_infinite_schedule_witness:
  "\<not> (\<forall>n. qs_step (<) 5 ((\<lambda>n. ({#(0, length [3, 1, 2::nat])#}, [3, 1, 2::nat])) n)
                          ((\<lambda>n. ({#(0, length [3, 1, 2::nat])#}, [3, 1, 2::nat])) (Suc n)))"
  using no_infinite_schedule [OF swo_less, of "\<lambda>n. ({#(0, length [3, 1, 2::nat])#}, [3, 1, 2::nat])"]
  by simp

text \<open>
  Claim C9: a task stays inside its range.  Running \<open>quick_sort\<close> on a range
  \<open>[b, e)\<close> of the vector writes nothing outside it, permutes it, and pushes
  only subranges of it, which are disjoint from each other.
\<close>

theorem quick_sort_task_frame:
  assumes "b \<le> e" "e \<le> length xs" "quick_sort_task cmp chunk (b, e) xs = (ys, cs)"
  shows "same_outside b e xs ys \<and> mset (slice ys b e) = mset (slice xs b e) \<and>
         (\<forall>c\<in>set cs. b \<le> fst c \<and> fst c \<le> snd c \<and> snd c \<le> e) \<and> (\<forall>k. cover (mset cs) k \<le> 1)"
proof (cases "\<not> e - b \<le> 1 \<and> unat chunk < e - b")
  case True
  let ?q = "b + (e - b) div 2"
  obtain xs1 m1 where p1: "std_partition (\<lambda>em. cmp em (xs ! ?q)) xs b e = (xs1, m1)"
    by (metis surj_pair)
  obtain xs2 m2 where p2: "std_partition (\<lambda>em. \<not> cmp (xs ! ?q) em) xs1 m1 e = (xs2, m2)"
    by (metis surj_pair)
  have "ys = xs2" "cs = [(b, m1), (m2, e)]"
    using quick_sort_task_split [of e b chunk cmp xs xs1 m1 xs2 m2] True p1 p2 assms(3) by simp_all
  with two_partitions [OF assms(1,2) p1 p2] show ?thesis by (auto simp: cover_def in_range_def)
next
  case False
  then have "(ys = xs \<or> ys = std_sort cmp xs b e) \<and> cs = []"
    using assms(3) by (auto simp: quick_sort_task_def Let_def split: if_splits)
  then show ?thesis using std_sort_frame [OF assms(1,2), of cmp] by (auto simp: cover_def)
qed

theorem quick_sort_task_frame_witness:
  "quick_sort_task (<) 0 (0, 2) [2, 1 :: nat] = ([1, 2], [(0, 0), (1, 2)]) \<and>
   same_outside 0 2 [2, 1 :: nat] [1, 2] \<and> mset (slice [1, 2 :: nat] 0 2) = mset (slice [2, 1 :: nat] 0 2) \<and>
   (\<forall>k. cover (mset [(0 :: nat, 0 :: nat), (1, 2)]) k \<le> 1)"
proof -
  have q: "quick_sort_task (<) 0 (0, 2) [2, 1 :: nat] = ([1, 2], [(0, 0), (1, 2)])"
    by (simp add: quick_sort_task_def std_partition_def partition_loop.simps)
  from quick_sort_task_frame [OF _ _ q] q show ?thesis by simp
qed

end
