(* ===== verification/PoolDrain.thy ===== *)
theory PoolDrain
  imports ThreadPool
begin

text \<open>
  Why the workers of src/thread_pool.hpp leave no task behind when they
  return, with or without spurious wake-ups.  A worker returns from
  \<open>worker()\<close> only at line 148, holding \<open>queue_mutex\<close>, after its loop found
  the queue empty (line 130) and \<open>shutdown_request\<close> set (line 147); while it
  holds the lock nobody can enqueue.  Every other program point leads back to
  the test of line 130 before the worker can return (\<open>rechecks\<close>).  So a
  non-empty queue always has a worker that will look at it again, provided
  that a worker can return only once the owner has no push left, which the
  destructor guarantees by setting the flag after the pushes.
\<close>

fun rechecks :: "'task wpc \<Rightarrow> bool" where
  "rechecks WShut = False"
| "rechecks WExit = False"
| "rechecks _ = True"

text \<open>
  The invariant reads the queue, the workers, the flag and the owner's
  remaining program: a non-empty queue has a worker that will test it again;
  a worker at line 147 saw the queue empty and still holds the lock; workers
  return only after the flag is set, which happens after the last push; and
  once the owner is done (the futures joined) every worker has returned.
\<close>

definition drain_ok :: "'task list \<Rightarrow> 'task wpc list \<Rightarrow> bool \<Rightarrow> 'task mop list \<Rightarrow> bool" where
  "drain_ok q ws sd p \<longleftrightarrow>
     (q \<noteq> [] \<longrightarrow> (\<exists>w\<in>set ws. rechecks w)) \<and> (WShut \<in> set ws \<longrightarrow> q = []) \<and>
     (\<not> sd \<longrightarrow> WExit \<notin> set ws) \<and> (sd \<longrightarrow> pushes p = []) \<and> (p = [] \<longrightarrow> list_all exited ws)"

definition drain_inv :: "('task, 'd) pool \<Rightarrow> bool" where
  "drain_inv s \<longleftrightarrow> drain_ok (task_queue s) (workers s) (shutdown_request s) (prog s)"

lemma ex_set_map_eq: "map f ws' = map f ws \<Longrightarrow> (\<exists>w\<in>set ws'. f w) = (\<exists>w\<in>set ws. f w)"
proof -
  assume m: "map f ws' = map f ws"
  have eq: "(\<exists>w\<in>set xs. f w) \<longleftrightarrow> True \<in> set (map f xs)" for xs by auto
  show ?thesis by (simp only: eq m)
qed

lemma map_sets:
  assumes "\<And>f :: 'task wpc \<Rightarrow> bool. f WSleep = f WWoken \<Longrightarrow> map f ws' = map f ws"
  shows "(\<exists>w\<in>set ws'. rechecks w) = (\<exists>w\<in>set ws. rechecks w)"
    and "(WShut \<in> set ws') = (WShut \<in> set ws)" and "(WExit \<in> set ws') = (WExit \<in> set ws)"
    and "list_all exited ws' = list_all exited ws"
proof -
  show "(\<exists>w\<in>set ws'. rechecks w) = (\<exists>w\<in>set ws. rechecks w)"
    by (rule ex_set_map_eq, rule assms) simp
  have "(\<exists>w\<in>set ws'. w = WShut) = (\<exists>w\<in>set ws. w = WShut)"
    by (rule ex_set_map_eq, rule assms) simp
  then show "(WShut \<in> set ws') = (WShut \<in> set ws)" by auto
  have "(\<exists>w\<in>set ws'. w = WExit) = (\<exists>w\<in>set ws. w = WExit)"
    by (rule ex_set_map_eq, rule assms) simp
  then show "(WExit \<in> set ws') = (WExit \<in> set ws)" by auto
  have "(\<exists>w\<in>set ws'. \<not> exited w) = (\<exists>w\<in>set ws. \<not> exited w)"
    by (rule ex_set_map_eq, rule assms) simp
  then show "list_all exited ws' = list_all exited ws" by (auto simp: list_all_iff)
qed

lemmas notify_one_sets = map_sets [OF notify_one_map]
lemmas wake_all_sets = map_sets [OF wake_all_map]

lemma holder_not_unlocked:
  "lock_inv s \<Longrightarrow> lock s = None \<Longrightarrow> WShut \<notin> set (workers s)"
  by (auto simp: lock_inv_def in_set_conv_nth)

lemma exited_no_step:
  "list_all exited ws \<Longrightarrow> i < length ws \<Longrightarrow> exited (ws ! i)"
  by (simp add: list_all_iff)

lemma set_update_notin:
  "x \<notin> set xs \<Longrightarrow> x \<noteq> v \<Longrightarrow> x \<notin> set (xs[i := v])"
  using set_update_subset_insert [of xs i v] by blast

subsection \<open>How each kind of step keeps the invariant\<close>

lemma rechecks_iff: "rechecks w \<longleftrightarrow> w \<noteq> WShut \<and> w \<noteq> WExit"
  by (cases w) simp_all

lemma exited_iff: "exited w \<longleftrightarrow> w = WExit"
  by (cases w) simp_all

lemma rechecks_not_exited: "rechecks w \<Longrightarrow> \<not> exited w"
  by (cases w) simp_all

lemma drain_ok_move:
  assumes "drain_ok q ws sd p" "i < length ws" "rechecks (ws ! i)" "rechecks w'"
  shows "drain_ok q (ws[i := w']) sd p"
proof -
  have "w' \<in> set (ws[i := w'])" using assms(2) by (simp add: set_update_memI)
  moreover have "w' \<noteq> WShut" "w' \<noteq> WExit" using assms(4) by auto
  moreover have "p \<noteq> []"
    using assms(1-3) rechecks_not_exited [OF assms(3)] by (auto simp: drain_ok_def list_all_iff)
  ultimately show ?thesis
    using assms(1,4) set_update_subset_insert [of ws i w'] by (auto simp: drain_ok_def)
qed

lemma drain_ok_pop:
  assumes "drain_ok (t # q) ws sd p" "i < length ws" "ws ! i = WCheck"
  shows "drain_ok q (ws[i := WCall t]) sd p"
proof -
  have "drain_ok (t # q) (ws[i := WCall t]) sd p"
    using assms by (intro drain_ok_move) simp_all
  moreover have "WCall t \<in> set (ws[i := WCall t])" using assms(2) by (simp add: set_update_memI)
  ultimately show ?thesis by (auto simp: drain_ok_def)
qed

lemma drain_ok_idle:
  assumes "drain_ok [] ws sd p" "i < length ws" "ws ! i = WCheck"
  shows "drain_ok [] (ws[i := WShut]) sd p"
proof -
  have "WCheck \<in> set ws" using assms(2,3) nth_mem by fastforce
  then have "p \<noteq> []" using assms(1) by (auto simp: drain_ok_def list_all_iff)
  then show ?thesis using assms(1) set_update_subset_insert [of ws i WShut] by (auto simp: drain_ok_def)
qed

lemma drain_ok_leave:
  assumes "drain_ok q ws sd p" "i < length ws" "ws ! i = WShut" "w' = WExit \<and> sd \<or> w' = WWaitCall"
  shows "drain_ok q (ws[i := w']) sd p"
proof -
  have "WShut \<in> set ws" using assms(2,3) nth_mem by fastforce
  then have "q = []" "p \<noteq> []" using assms(1) by (auto simp: drain_ok_def list_all_iff)
  then show ?thesis using assms(1,4) set_update_subset_insert [of ws i w'] by (auto simp: drain_ok_def)
qed

lemma drain_ok_enqueue:
  assumes "drain_ok q ws sd p" "WShut \<notin> set ws" "\<exists>w\<in>set ws. rechecks w"
  shows "drain_ok (q @ [c]) ws sd p"
  using assms by (auto simp: drain_ok_def)

lemma drain_ok_notify:
  "drain_ok q ws sd p \<Longrightarrow> notify_one ws ws' \<Longrightarrow> drain_ok q ws' sd p"
  by (simp add: drain_ok_def notify_one_sets)

lemma drain_ok_wake_all: "drain_ok q ws sd p \<Longrightarrow> drain_ok q (wake_all ws) sd p"
  by (simp add: drain_ok_def wake_all_sets)

lemma drain_ok_prog:
  assumes "drain_ok q ws sd (op # p)" "pushes [op] = []" "p = [] \<Longrightarrow> list_all exited ws"
  shows "drain_ok q ws sd p"
proof -
  have "pushes (op # p) = pushes p" using assms(2) pushes_append [of "[op]" p] by simp
  with assms show ?thesis by (auto simp: drain_ok_def)
qed

subsection \<open>Every step keeps the invariant\<close>

lemma drain_inv_step:
  assumes "pool_step exec sp s s'" and "drain_inv s" and "lock_inv s" and "0 < length (workers s)"
    and "\<And>ops. prog s = SetShutdown # ops \<Longrightarrow> pushes ops = []"
    and "\<And>op. prog s = [op] \<Longrightarrow> op = JoinAll"
  shows "drain_inv s'"
  using assms
proof (induction rule: pool_step.induct)
  case (main_push s t ops ws)
  then have sd: "\<not> shutdown_request s" and nx: "WExit \<notin> set (workers s)"
    by (auto simp: drain_inv_def drain_ok_def)
  have ns: "WShut \<notin> set (workers s)"
    using holder_not_unlocked [of s] main_push.prems(2) main_push.hyps(3) by simp
  have m: "workers s ! 0 \<in> set (workers s)" using main_push.prems(3) by simp
  have "workers s ! 0 \<noteq> WShut \<and> workers s ! 0 \<noteq> WExit"
  proof
    show "workers s ! 0 \<noteq> WShut" using m ns by auto
    show "workers s ! 0 \<noteq> WExit" using m nx by auto
  qed
  then have "\<exists>w\<in>set (workers s). rechecks w" using m by (auto simp: rechecks_iff)
  then have "\<exists>w\<in>set ws. rechecks w" using notify_one_sets(1) [OF main_push.hyps(4)] by blast
  moreover have "ops \<noteq> []" using main_push.hyps(2) main_push.prems(5) by auto
  ultimately show ?case
    using sd ns nx notify_one_sets(2,3) [OF main_push.hyps(4)] by (simp add: drain_inv_def drain_ok_def)
next
  case (main_set_shutdown s ops)
  then have "ops \<noteq> []" "pushes ops = []" by auto
  with main_set_shutdown.prems(1) show ?case by (simp add: drain_inv_def drain_ok_def)
next
  case (main_notify_all s ops)
  then have "ops \<noteq> []" by auto
  with main_notify_all.prems(1) main_notify_all.hyps(2) show ?case
    by (auto simp: drain_inv_def intro: drain_ok_prog drain_ok_wake_all)
next
  case (main_join s ops)
  then show ?case by (auto simp: drain_inv_def intro: drain_ok_prog)
next
  case (worker_start i s)
  then show ?case by (simp add: drain_inv_def drain_ok_move)
next
  case (worker_pop i s t q)
  then show ?case by (simp add: drain_inv_def drain_ok_pop)
next
  case (worker_idle i s)
  then show ?case by (simp add: drain_inv_def drain_ok_idle)
next
  case (worker_run i s t d' cs)
  then show ?case by (simp add: drain_inv_def drain_ok_move)
next
  case (worker_submit i s t c cs ws)
  have ns: "WShut \<notin> set (workers s)"
    using holder_not_unlocked [of s] worker_submit.prems(2) worker_submit.hyps(3) by simp
  have d: "drain_ok (task_queue s) ((workers s)[i := WRun t cs]) (shutdown_request s) (prog s)"
    using worker_submit by (simp add: drain_inv_def drain_ok_move)
  have "WRun t cs \<in> set ((workers s)[i := WRun t cs])"
    using worker_submit.hyps(1) by (simp add: set_update_memI)
  then have "\<exists>w\<in>set ((workers s)[i := WRun t cs]). rechecks w" by (rule bexI [rotated]) simp
  moreover have "WShut \<notin> set ((workers s)[i := WRun t cs])" using ns by (simp add: set_update_notin)
  ultimately have "drain_ok (task_queue s @ [c]) ((workers s)[i := WRun t cs]) (shutdown_request s) (prog s)"
    using d by (intro drain_ok_enqueue)
  then show ?case using worker_submit.hyps(4) by (simp add: drain_inv_def drain_ok_notify)
next
  case (worker_return i s t)
  then show ?case by (simp add: drain_inv_def drain_ok_move)
next
  case (worker_relock i s)
  then show ?case by (simp add: drain_inv_def drain_ok_move)
next
  case (worker_exit i s)
  then show ?case by (simp add: drain_inv_def drain_ok_leave)
next
  case (worker_stay i s)
  then show ?case by (simp add: drain_inv_def drain_ok_leave)
next
  case (worker_block i s)
  then show ?case by (simp add: drain_inv_def drain_ok_move)
next
  case (worker_spurious i s)
  then show ?case by (simp add: drain_inv_def drain_ok_move)
next
  case (worker_woken i s)
  then show ?case by (simp add: drain_inv_def drain_ok_move)
qed (auto simp: drain_inv_def intro: drain_ok_prog)

end
