(* ===== verification/SortPool.thy ===== *)
theory SortPool
  imports ThreadPool ParallelSort PoolDrain
begin

text \<open>
  \<open>mt::sort\<close> on the thread pool (src/sort.hpp, lines 70--95): the owner
  computes the threshold, builds a pool of \<open>threads_amount\<close> workers, pushes
  the first task and runs the pool's destructor; the tasks are the lambda
  \<open>quick_sort\<close>, which pushes its two subranges through the same pool.  The
  abstraction \<open>pend\<close> collects the ranges not yet executed: those the owner
  still has to push, those queued, the task a worker has popped, and the
  subranges a running task has still to push.  Every step of the pool either
  leaves the abstraction unchanged or is one step \<open>qs_step\<close> of the abstract
  process, so the properties of \<open>ParallelSort\<close> carry over to every
  interleaving of the pool.
\<close>

section \<open>The owner's program\<close>

definition mt_sort_prog :: "'a list \<Rightarrow> range mop list" where
  "mt_sort_prog xs = Push (0, length xs) # destructor_ops"

text \<open>The pool built by \<open>mt::sort\<close>, with its threshold; the division comes first (line 73).\<close>

definition mt_sort_pool :: "'a list \<Rightarrow> size_t \<Rightarrow> error + size_t \<times> (range, 'a list) pool" where
  "mt_sort_pool xs threads =
     (case chunk_size_of (word_of_nat (length xs)) threads of
        Inl err \<Rightarrow> Inl err
      | Inr chunk \<Rightarrow> Inr (chunk, pool_init (unat threads) (mt_sort_prog xs) xs))"

section \<open>Abstraction\<close>

fun outstanding :: "'task wpc \<Rightarrow> 'task multiset" where
  "outstanding (WCall t) = {#t#}"
| "outstanding (WRun t cs) = mset cs"
| "outstanding _ = {#}"

definition pend :: "('task, 'd) pool \<Rightarrow> 'task multiset" where
  "pend s = mset (pushes (prog s)) + mset (task_queue s) + sum_list (map outstanding (workers s))"

lemma outstanding_idle: "\<not> busy w \<Longrightarrow> outstanding w = {#}"
  by (cases w) simp_all

lemma pend_init: "pend (pool_init n (mt_sort_prog xs) xs) = {#(0, length xs)#}"
proof -
  have "map outstanding (replicate n (WStart :: range wpc)) = replicate n {#}" by simp
  moreover have "sum_list (replicate n ({#} :: range multiset)) = {#}" by (induction n) simp_all
  ultimately show ?thesis
    by (simp add: pend_def pool_init_def mt_sort_prog_def destructor_ops_def)
qed

lemma pool_step_prog: "pool_step exec sp s s' \<Longrightarrow> prog s' = prog s \<or> (\<exists>op. prog s = op # prog s')"
  by (induction rule: pool_step.induct) simp_all

lemma reachable_prog_suffix: "reachable exec sp n ops d s \<Longrightarrow> \<exists>pre. ops = pre @ prog s"
proof (induction rule: reachable.induct)
  case init
  then show ?case by (simp add: pool_init_def)
next
  case (step s s')
  then show ?case using pool_step_prog [OF step.hyps(2)] by (metis append.assoc append_Cons append_Nil)
qed

lemma mt_sort_prog_wait: "mt_sort_prog xs = pre @ Wait # ops \<Longrightarrow> pushes ops = []"
  by (auto simp: mt_sort_prog_def destructor_ops_def Cons_eq_append_conv append_eq_Cons_conv)

lemma outstanding_cv: "outstanding WSleep = outstanding WWoken"
  by simp

lemma mset_replace_sub:
  assumes "{#t#} \<subseteq># S" "S' = S - {#t#} + C"
  shows "A + S' = A + S - {#t#} + C"
proof -
  have "A + S - {#t#} = A + (S - {#t#})" by (rule multiset_diff_union_assoc [OF assms(1)])
  then show ?thesis using assms(2) by (simp only: add.assoc)
qed

lemma pend_eqI:
  "pushes (prog s') = pushes (prog s) \<Longrightarrow> task_queue s' = task_queue s \<Longrightarrow>
   map outstanding (workers s') = map outstanding (workers s) \<Longrightarrow> pend s' = pend s"
  by (simp add: pend_def)

lemma pool_step_sim:
  "pool_step (quick_sort_task cmp chunk) sp s s' \<Longrightarrow>
   (pend s' = pend s \<and> data s' = data s) \<or> qs_step cmp chunk (pend s, data s) (pend s', data s')"
proof (induction rule: pool_step.induct)
  case (main_push s t ops ws)
  then show ?case by (simp add: pend_def notify_one_map [where f = outstanding])
next
  case (main_notify_all s ops)
  then show ?case by (simp add: pend_def wake_all_map [where f = outstanding])
next
  case (worker_pop i s t q)
  then show ?case by (simp add: pend_def sum_list_map_update_mset)
next
  case (worker_run i s t d' cs)
  let ?S = "sum_list (map outstanding (workers s))"
  have t: "{#t#} \<subseteq># ?S"
    using mset_elem_le_sum_list_map [OF worker_run.hyps(1), of outstanding] worker_run.hyps(2) by simp
  let ?s' = "s\<lparr>data := d', workers := (workers s)[i := WRun t cs]\<rparr>"
  let ?A = "mset (pushes (prog s)) + mset (task_queue s)"
  have S': "sum_list (map outstanding (workers ?s')) = ?S - {#t#} + mset cs"
    using worker_run by (simp add: sum_list_map_update_mset)
  have "pend ?s' = ?A + sum_list (map outstanding (workers ?s'))"
    by (simp add: pend_def)
  also have "\<dots> = ?A + ?S - {#t#} + mset cs"
    by (rule mset_replace_sub [OF t S'])
  also have "\<dots> = pend s - {#t#} + mset cs"
    by (simp only: pend_def)
  finally have "pend ?s' = pend s - {#t#} + mset cs" .
  moreover have "t \<in># pend s"
    using t unfolding pend_def single_subset_iff union_iff by blast
  ultimately have "qs_step cmp chunk (pend s, data s) (pend ?s', data ?s')"
    using qs_step.run [of t "pend s" cmp chunk "data s" d' cs] worker_run by simp
  then show ?case ..
next
  case (worker_submit i s t c cs ws)
  let ?S = "sum_list (map outstanding (workers s))"
  let ?S' = "sum_list (map outstanding ((workers s)[i := WRun t cs]))"
  have "?S' + outstanding (workers s ! i) = ?S + mset cs"
    using sum_list_map_update [OF worker_submit.hyps(1), of outstanding "WRun t cs"] by simp
  then have "?S' + {#c#} = ?S"
    using worker_submit.hyps(2) by simp
  moreover have "map outstanding ws = map outstanding ((workers s)[i := WRun t cs])"
    using notify_one_map [OF worker_submit.hyps(4), of outstanding] by simp
  ultimately show ?case using worker_submit by (simp add: pend_def)
qed ((intro disjI1 conjI pend_eqI; simp add: map_update_same)+)


lemma idle_outstanding: "list_all (\<lambda>w. \<not> busy w) ws \<Longrightarrow> sum_list (map outstanding ws) = {#}"
  by (induction ws) (simp_all add: outstanding_idle)

lemma reachable_abs:
  "reachable (quick_sort_task cmp chunk) sp n (mt_sort_prog xs) xs s \<Longrightarrow>
   (qs_step cmp chunk)\<^sup>*\<^sup>* ({#(0, length xs)#}, xs) (pend s, data s)"
proof (induction rule: reachable.induct)
  case init
  have "data (pool_init n (mt_sort_prog xs) xs) = xs" by (simp add: pool_init_def)
  then show ?case using pend_init [of n xs] by (metis rtranclp.rtrancl_refl)
next
  case (step s s')
  from pool_step_sim [OF step.hyps(2)] step.IH show ?case
    by (auto intro: rtranclp.rtrancl_into_rtrancl)
qed

lemma reachable_qs_inv:
  "reachable (quick_sort_task cmp chunk) sp n (mt_sort_prog xs) xs s \<Longrightarrow> swo cmp \<Longrightarrow>
   qs_inv cmp xs (pend s) (data s)"
  using qs_steps_inv [OF reachable_abs, of cmp chunk sp n xs s xs] by (simp add: qs_inv_init)





text \<open>A run of \<open>mt::sort\<close> on \<open>[2, 1]\<close> with one worker up to the return of the destructor's \<open>wait()\<close>.\<close>

definition sort_run_as :: "actor list" where
  "sort_run_as = AMain # AMain # replicate 18 (AWorker 0)"

definition sort_run_state :: "(range, nat list) pool" where
  "sort_run_state =
     \<lparr>task_queue = [], active = 0, shutdown_request = False, lock = None, workers = [WSleep],
      prog = [Wait, SetShutdown, NotifyAll, DestroyMembers, JoinAll], mstate = MWoken,
      destroyed = False, data = [1, 2], submitted = [(0, 2), (0, 0), (1, 2)],
      finished = [(0, 2), (0, 0), (1, 2)]\<rparr>"

lemma sort_run_reachable:
  "reachable (quick_sort_task (<) 0) False 1 (mt_sort_prog [2, 1 :: nat]) [2, 1] sort_run_state"
proof (rule run_sched_init)
  show "run_sched (quick_sort_task (<) 0) False sort_run_as (pool_init 1 (mt_sort_prog [2, 1 :: nat]) [2, 1]) =
        Some sort_run_state"
    by (simp add: sort_run_as_def sort_run_state_def pool_init_def mt_sort_prog_def destructor_ops_def
        main_step_def worker_step_def notify_one_fn_def quick_sort_task_def std_partition_def
        partition_loop.simps numeral_eq_Suc)
qed

section \<open>Properties of \<open>mt::sort\<close> on the pool\<close>

text \<open>
  Claim C5: the pool refines the abstract task process.  In every reachable
  state of the pool running \<open>mt::sort\<close>, with or without spurious wake-ups,
  the ranges not yet executed and the vector form a state that the abstract
  process \<open>qs_step\<close> reaches from the first task on the whole vector.
\<close>

theorem pool_refines_tasks:
  "reachable (quick_sort_task cmp chunk) sp n (mt_sort_prog xs) xs s \<Longrightarrow>
   (qs_step cmp chunk)\<^sup>*\<^sup>* ({#(0, length xs)#}, xs) (pend s, data s)"
  by (rule reachable_abs)

theorem pool_refines_tasks_witness:
  "(qs_step (<) 0)\<^sup>*\<^sup>* ({#(0, length [2, 1 :: nat])#}, [2, 1]) (pend sort_run_state, data sort_run_state) \<and>
   pend sort_run_state = {#} \<and> data sort_run_state = [1, 2]"
  using pool_refines_tasks [OF sort_run_reachable]
  by (simp add: sort_run_state_def pend_def)

text \<open>
  Claim C6: tasks that may run at the same time never touch the same element.
  In every reachable state of the pool running \<open>mt::sort\<close> with a strict weak
  ordering, the ranges queued, popped or still to be pushed lie inside the
  vector and are pairwise disjoint, and the vector is a permutation of the input.
\<close>

theorem tasks_in_flight_disjoint:
  assumes "reachable (quick_sort_task cmp chunk) sp n (mt_sort_prog xs) xs s" "swo cmp"
  shows "ranges_ok (length xs) (pend s) \<and> mset (data s) = mset xs"
proof -
  have "qs_inv cmp xs (pend s) (data s)" using reachable_qs_inv [OF assms] .
  moreover have "length (data s) = length xs" if "mset (data s) = mset xs"
    using that by (metis size_mset)
  ultimately show ?thesis by (auto simp: qs_inv_def)
qed

theorem tasks_in_flight_disjoint_witness:
  "ranges_ok (length [2, 1 :: nat]) (pend sort_run_state) \<and> mset (data sort_run_state) = mset [2, 1 :: nat]"
  using tasks_in_flight_disjoint [OF sort_run_reachable swo_less] .

text \<open>
  Claim C2: \<open>mt::sort\<close> sorts under every interleaving.  When the
  destructor's \<open>wait()\<close> returns without a spurious wake-up, for any number of
  workers, any threshold and any interleaving of the workers, the vector is the
  sorted input.
\<close>

theorem sort_pool_wait_sorted:
  assumes "reachable (quick_sort_task (<) chunk) False n (mt_sort_prog xs) xs s"
    and "pool_step (quick_sort_task (<) chunk) False s s'"
    and "prog s = Wait # ops" and "prog s' = ops"
  shows "data s' = sort (xs :: 'a::linorder list)"
proof -
  have q: "task_queue s' = [] \<and> list_all (\<lambda>w. \<not> busy w) (workers s')"
    using quiescent_after_wait [OF assms] by simp
  obtain pre where "mt_sort_prog xs = pre @ Wait # ops"
    using reachable_prog_suffix [OF assms(1)] assms(3) by auto
  then have "pushes ops = []" by (rule mt_sort_prog_wait)
  then have "pend s' = {#}" using q assms(4) by (simp add: pend_def idle_outstanding)
  moreover have "qs_inv (<) xs (pend s') (data s')"
    using reachable_qs_inv [OF reachable.step [OF assms(1,2)] swo_less] .
  ultimately show ?thesis using qs_inv_done_less by simp
qed

theorem sort_pool_wait_sorted_witness:
  "pool_step (quick_sort_task (<) 0) False sort_run_state
     (sort_run_state\<lparr>mstate := MRun, prog := [SetShutdown, NotifyAll, DestroyMembers, JoinAll]\<rparr>) \<and>
   data (sort_run_state\<lparr>mstate := MRun, prog := [SetShutdown, NotifyAll, DestroyMembers, JoinAll]\<rparr>) =
     sort [2, 1 :: nat]"
proof -
  have st: "pool_step (quick_sort_task (<) 0) False sort_run_state
     (sort_run_state\<lparr>mstate := MRun, prog := [SetShutdown, NotifyAll, DestroyMembers, JoinAll]\<rparr>)"
    by (rule pool_step.main_woken_return) (simp_all add: sort_run_state_def)
  have "data (sort_run_state\<lparr>mstate := MRun, prog := [SetShutdown, NotifyAll, DestroyMembers, JoinAll]\<rparr>) =
        sort [2, 1 :: nat]"
    by (rule sort_pool_wait_sorted [OF sort_run_reachable st]) (simp_all add: sort_run_state_def)
  with st show ?thesis by simp
qed



end
