(* ===== verification/SortStatic.thy ===== *)
theory SortStatic
  imports ParallelSort
begin

text \<open>
  The function-local \<open>static\<close> \<open>std::function\<close> \<open>quick_sort\<close> of \<open>mt::sort\<close>
  (src/sort.hpp, line 76).  A \<open>static\<close> local is initialised once per
  template instantiation, by the first call that reaches its declaration;
  the lambda captures \<open>chunk_size\<close>, \<open>pool\<close> and \<open>cmp\<close> of that call by
  reference.  Later calls with the same iterator and comparator types skip
  the initialisation, so the tasks they push run the first call's lambda,
  whose references point into a stack frame that no longer exists.

  The state carried from call to call is the number of calls made so far
  and the call whose locals the closure captured.  A call first computes the
  threshold (line 73), whose division may fail before the \<open>static\<close> is reached.
  The call that initialises the closure runs as \<open>mt_sort_fifo\<close> of
  \<open>ParallelSort\<close>.  In a later call the root task returns at once when the
  range has at most one element (line 78 reads no capture); otherwise it reads
  \<open>chunk_size\<close> of a returned call (line 80), an error.
\<close>

record sort_static =
  qs_frame :: "nat option"
  sort_calls :: nat

definition sort_static_init :: sort_static where
  "sort_static_init = \<lparr>qs_frame = None, sort_calls = 0\<rparr>"

definition mt_sort_call :: "('a \<Rightarrow> 'a \<Rightarrow> bool) \<Rightarrow> 'a list \<Rightarrow> size_t \<Rightarrow> sort_static \<Rightarrow>
    (error + 'a list) option \<times> sort_static" where
  "mt_sort_call cmp xs threads st =
     (let k = sort_calls st in
      case chunk_size_of (word_of_nat (length xs)) threads of
        Inl err \<Rightarrow> (Some (Inl err), st\<lparr>sort_calls := Suc k\<rparr>)
      | Inr chunk \<Rightarrow>
          (let owner = (case qs_frame st of None \<Rightarrow> k | Some j \<Rightarrow> j);
               st' = st\<lparr>qs_frame := Some owner, sort_calls := Suc k\<rparr> in
           if owner = k then (map_option Inr (qs_run cmp chunk [(0, length xs)] xs), st')
           else if length xs \<le> 1 then (Some (Inr xs), st')
           else (Some (Inl DanglingReference), st')))"

text \<open>A sequence of calls of one instantiation, with their results.\<close>

fun mt_sort_calls :: "('a \<Rightarrow> 'a \<Rightarrow> bool) \<Rightarrow> ('a list \<times> size_t) list \<Rightarrow> sort_static \<Rightarrow>
    (error + 'a list) option list" where
  "mt_sort_calls cmp [] st = []"
| "mt_sort_calls cmp ((xs, t) # cs) st =
     (case mt_sort_call cmp xs t st of (r, st') \<Rightarrow> r # mt_sort_calls cmp cs st')"

fun sort_state_after :: "('a \<Rightarrow> 'a \<Rightarrow> bool) \<Rightarrow> ('a list \<times> size_t) list \<Rightarrow> sort_static \<Rightarrow> sort_static" where
  "sort_state_after cmp [] st = st"
| "sort_state_after cmp ((xs, t) # cs) st = sort_state_after cmp cs (snd (mt_sort_call cmp xs t st))"

section \<open>Lemmas\<close>

lemma mt_sort_call_calls [simp]:
  "sort_calls (snd (mt_sort_call cmp xs t st)) = Suc (sort_calls st)"
  by (simp add: mt_sort_call_def Let_def split: sum.splits)

lemma mt_sort_call_frame:
  "qs_frame (snd (mt_sort_call cmp xs t st)) =
     (if t * 8 = 0 then qs_frame st
      else Some (case qs_frame st of None \<Rightarrow> sort_calls st | Some j \<Rightarrow> j))"
  by (simp add: mt_sort_call_def chunk_size_of_def Let_def)

lemma sort_state_after_calls:
  "sort_calls (sort_state_after cmp cs st) = sort_calls st + length cs"
  by (induction cmp cs st rule: sort_state_after.induct) simp_all

lemma mt_sort_calls_nth:
  "j < length cs \<Longrightarrow>
   mt_sort_calls cmp cs st ! j =
     fst (mt_sort_call cmp (fst (cs ! j)) (snd (cs ! j)) (sort_state_after cmp (take j cs) st))"
proof (induction cmp cs st arbitrary: j rule: mt_sort_calls.induct)
  case (1 cmp st)
  then show ?case by simp
next
  case (2 cmp xs t cs st)
  then show ?case by (cases j) (simp_all split: prod.splits)
qed


definition frame_ok :: "sort_static \<Rightarrow> bool" where
  "frame_ok st \<longleftrightarrow> (case qs_frame st of None \<Rightarrow> True | Some f \<Rightarrow> f < sort_calls st)"

lemma frame_ok_after:
  "frame_ok st \<Longrightarrow> frame_ok (sort_state_after cmp cs st)"
proof (induction cmp cs st rule: sort_state_after.induct)
  case (1 cmp st)
  then show ?case by simp
next
  case (2 cmp xs t cs st)
  have "frame_ok (snd (mt_sort_call cmp xs t st))"
    using "2.prems" by (auto simp: frame_ok_def mt_sort_call_frame split: option.splits)
  with "2.IH" show ?case by simp
qed

lemma frame_stays:
  "qs_frame st \<noteq> None \<Longrightarrow> qs_frame (sort_state_after cmp cs st) \<noteq> None"
  by (induction cmp cs st rule: sort_state_after.induct) (simp_all add: mt_sort_call_frame)

lemma frame_set:
  "(xs, t) \<in> set cs \<Longrightarrow> t * 8 \<noteq> 0 \<Longrightarrow> qs_frame (sort_state_after cmp cs st) \<noteq> None"
proof (induction cmp cs st rule: sort_state_after.induct)
  case (1 cmp st)
  then show ?case by simp
next
  case (2 cmp xs' t' cs st)
  show ?case
  proof (cases "(xs, t) = (xs', t')")
    case True
    then have "qs_frame (snd (mt_sort_call cmp xs' t' st)) \<noteq> None"
      using "2.prems"(2) by (simp add: mt_sort_call_frame)
    then show ?thesis by (simp add: frame_stays)
  next
    case False
    then show ?thesis using "2.IH" "2.prems" by auto
  qed
qed

lemma frame_none:
  "\<forall>c \<in> set cs. snd c * 8 = 0 \<Longrightarrow> qs_frame st = None \<Longrightarrow>
   qs_frame (sort_state_after cmp cs st) = None"
  by (induction cmp cs st rule: sort_state_after.induct) (simp_all add: mt_sort_call_frame)

lemma first_sort_call:
  "qs_frame st = None \<Longrightarrow> fst (mt_sort_call cmp xs t st) = mt_sort_fifo cmp xs t"
  by (simp add: mt_sort_call_def mt_sort_fifo_def Let_def split: sum.splits)

text \<open>
  Claim C21: once a call of \<open>mt::sort\<close> has initialised the static closure,
  every later call of the same instantiation on a range of two or more
  elements runs a task that reads \<open>chunk_size\<close> of the earlier, returned call.
\<close>

theorem later_sort_calls_dangle:
  assumes "i < j" "j < length cs" "snd (cs ! i) * 8 \<noteq> 0" "snd (cs ! j) * 8 \<noteq> 0"
    "2 \<le> length (fst (cs ! j))"
  shows "mt_sort_calls cmp cs sort_static_init ! j = Some (Inl DanglingReference)"
proof -
  let ?st = "sort_state_after cmp (take j cs) sort_static_init"
  have calls: "sort_calls ?st = j"
    using assms(2) by (simp add: sort_state_after_calls sort_static_init_def)
  have "cs ! i \<in> set (take j cs)"
    using assms(1,2) by (simp add: in_set_conv_nth exI [of _ i])
  then have "qs_frame ?st \<noteq> None"
    using frame_set [of "fst (cs ! i)" "snd (cs ! i)"] assms(3) by simp
  moreover have "frame_ok ?st"
    by (rule frame_ok_after) (simp add: frame_ok_def sort_static_init_def)
  ultimately obtain f where f: "qs_frame ?st = Some f" "f < j"
    using calls by (auto simp: frame_ok_def)
  then show ?thesis
    using assms(2,4,5) calls
    by (simp add: mt_sort_calls_nth mt_sort_call_def chunk_size_of_def Let_def)
qed

theorem later_sort_calls_dangle_witness:
  "(0::nat) < 1 \<and> 1 < length [([2, 1 :: nat], 4 :: size_t), ([3, 1, 2], 4)] \<and>
   mt_sort_calls (<) [([2, 1 :: nat], 4 :: size_t), ([3, 1, 2], 4)] sort_static_init ! 1 =
     Some (Inl DanglingReference)"
proof -
  have "mt_sort_calls (<) [([2, 1 :: nat], 4 :: size_t), ([3, 1, 2], 4)] sort_static_init ! 1 =
        Some (Inl DanglingReference)"
    by (rule later_sort_calls_dangle [of 0]) simp_all
  then show ?thesis by simp
qed

end
