(* ===== verification/SortContract.thy ===== *)
theory SortContract
  imports ParallelSort
begin

text \<open>
  The documented contract of \<open>mt::sort\<close> (the comment of src/sort.hpp,
  lines 55--69, and of the overload, lines 98--111): the range is sorted
  \<^emph>\<open>such that \<open>cmp(*(i+1), *i)\<close> is false for every iterator \<open>i\<close> in
  \<open>[begin, end-1)\<close>\<close>, and the relative order of equivalent elements is not
  preserved.  The contract is stated on adjacent elements as the comment
  does; for a strict weak ordering it follows from the all-pairs order
  \<open>sorted_by\<close> that the sorting theorems establish.
\<close>

definition sort_postcondition :: "('a \<Rightarrow> 'a \<Rightarrow> bool) \<Rightarrow> 'a list \<Rightarrow> bool" where
  "sort_postcondition cmp xs \<longleftrightarrow> (\<forall>i < length xs - 1. \<not> cmp (xs ! (i + 1)) (xs ! i))"

lemma sorted_by_postcondition: "sorted_by cmp xs \<Longrightarrow> sort_postcondition cmp xs"
  by (auto simp: sort_postcondition_def sorted_wrt_iff_nth_less)

lemma swo_key: "swo (\<lambda>x y. f x < (f y :: 'b::linorder))"
  by (auto simp: swo_def)

text \<open>
  Claim C22: for every strict weak ordering \<open>cmp\<close> and every \<open>threads_amount\<close>
  whose product with 8 does not wrap to zero, \<open>mt::sort\<close> (run in FIFO order)
  returns a permutation of its input that meets the documented postcondition.
\<close>

theorem mt_sort_meets_contract:
  assumes "swo cmp" "threads * 8 \<noteq> 0"
  shows "\<exists>ys. mt_sort_fifo cmp xs threads = Some (Inr ys) \<and> sort_postcondition cmp ys \<and>
              mset ys = mset xs"
proof -
  obtain ys where "qs_run cmp (word_of_nat (length xs) div (threads * 8)) [(0, length xs)] xs = Some ys"
      "sorted_by cmp ys" "mset ys = mset xs"
    using qs_run_init [OF assms(1)] by blast
  with assms(2) show ?thesis
    by (simp add: mt_sort_fifo_def chunk_size_of_def sorted_by_postcondition)
qed

theorem mt_sort_meets_contract_witness:
  "\<exists>ys. mt_sort_fifo (\<lambda>x y. fst x < fst y) [(2, 0), (1, 1), (3, 2) :: nat \<times> nat] 1 = Some (Inr ys) \<and>
        sort_postcondition (\<lambda>x y. fst x < fst y) ys \<and> mset ys = mset [(2, 0), (1, 1), (3, 2) :: nat \<times> nat]"
proof -
  have "swo (\<lambda>x y :: nat \<times> nat. fst x < fst y)" by (rule swo_key)
  then show ?thesis by (rule mt_sort_meets_contract) simp
qed

end
