(* ===== verification/ParallelUnique.thy ===== *)
theory ParallelUnique
  imports StdAlgo
begin

text \<open>
  \<open>mt::unique(begin, end, p, threads_amount)\<close> (src/unique.hpp, lines 58--80)
  on a vector whose whole extent is the range: the range is cut into
  \<open>threads_amount\<close> chunks of \<open>part_size\<close> elements, the last one absorbing the
  remainder; \<open>std::unique\<close> runs on each chunk in its own \<open>std::async\<close>
  thread; the owner then stitches the chunks together from left to right with
  \<open>std::copy\<close>, skipping a chunk's first element when \<open>p\<close> finds it equal to
  the last element kept.  The chunks are disjoint, so the concurrent
  executions of the first phase are modelled in the order of the loop that
  launches them (\<open>launch\<close>); \<open>chunk_uniques_commute\<close> shows that any other
  order gives the same result.  Reads through iterators outside the range and a
  \<open>std::copy\<close> whose source end lies before its start are errors
  (\<open>OutOfRange\<close>); a zero \<open>threads_amount\<close> is a division by zero.
\<close>

section \<open>Chunks\<close>

text \<open>\<open>part_size = std::distance(begin, end) / threads_amount\<close> (line 62).\<close>

definition part_size_of :: "size_t \<Rightarrow> size_t \<Rightarrow> error + size_t" where
  "part_size_of len threads = (if threads = 0 then Inl DivisionByZero else Inr (len div threads))"

text \<open>The bounds \<open>_begin\<close>, \<open>_end\<close> of chunk \<open>i\<close> of \<open>t\<close> (lines 65--67).\<close>

definition chunk_begin :: "nat \<Rightarrow> nat \<Rightarrow> nat" where
  "chunk_begin part i = part * i"

definition chunk_end :: "nat \<Rightarrow> nat \<Rightarrow> nat \<Rightarrow> nat \<Rightarrow> nat" where
  "chunk_end n part t i = (if i = t - 1 then n else part * (i + 1))"

text \<open>
  The first loop (lines 64--69): chunk \<open>i\<close> and the following ones are
  launched; each returns the new end of its chunk.
\<close>

function launch :: "nat \<Rightarrow> nat \<Rightarrow> nat \<Rightarrow> nat \<Rightarrow> 'a list \<Rightarrow> 'a list \<times> nat list" where
  "launch n part t i xs =
     (if i < t then
        (case std_unique xs (chunk_begin part i) (chunk_end n part t i) of
           (xs', r) \<Rightarrow> (case launch n part t (Suc i) xs' of (xs'', rs) \<Rightarrow> (xs'', r # rs)))
      else (xs, []))"
  by pat_completeness auto
termination
  by (relation "measure (\<lambda>(n, part, t, i, xs). t - i)") auto

declare launch.simps [simp del]

text \<open>
  The second loop (lines 72--78) from chunk \<open>i\<close> on, with \<open>last\<close> the end of
  what has been kept so far and \<open>rs\<close> the results of the remaining chunks.
  \<open>*_begin\<close> must lie before \<open>end\<close> and \<open>*(last - 1)\<close> after \<open>begin\<close>;
  \<open>std::copy(_begin, _last, last)\<close> only stops if \<open>_begin \<le> _last\<close>.
\<close>

fun merge_loop ::
  "('a \<Rightarrow> 'a \<Rightarrow> bool) \<Rightarrow> nat \<Rightarrow> 'a list \<Rightarrow> nat \<Rightarrow> nat \<Rightarrow> nat list \<Rightarrow> error + 'a list \<times> nat" where
  "merge_loop p part xs lst i [] = Inr (xs, lst)"
| "merge_loop p part xs lst i (l # rs) =
     (let b = chunk_begin part i in
      if length xs \<le> b \<or> lst = 0 then Inl OutOfRange
      else
        let b' = (if p (xs ! b) (xs ! (lst - 1)) then Suc b else b) in
        if l < b' then Inl OutOfRange
        else merge_loop p part (copy_range xs b' l lst) (lst + (l - b')) (Suc i) rs)"

text \<open>The whole call; it returns the vector and the index of the new end.\<close>

definition mt_unique :: "('a \<Rightarrow> 'a \<Rightarrow> bool) \<Rightarrow> 'a list \<Rightarrow> size_t \<Rightarrow> error + 'a list \<times> nat" where
  "mt_unique p xs threads =
     (case part_size_of (word_of_nat (length xs)) threads of
        Inl err \<Rightarrow> Inl err
      | Inr part \<Rightarrow>
          (case launch (length xs) (unat part) (unat threads) 0 xs of
             (xs1, []) \<Rightarrow> Inl OutOfRange
           | (xs1, r0 # rs) \<Rightarrow> merge_loop p (unat part) xs1 r0 1 rs))"


text \<open>The overload without a predicate (lines 83--87) uses \<open>std::equal_to\<close>.\<close>

definition mt_unique_eq :: "'a list \<Rightarrow> size_t \<Rightarrow> error + 'a list \<times> nat" where
  "mt_unique_eq xs threads = mt_unique (=) xs threads"

section \<open>Lemmas\<close>

lemma remdups_adj_append_hd:
  "A \<noteq> [] \<Longrightarrow> B \<noteq> [] \<Longrightarrow>
   remdups_adj (A @ B) = remdups_adj A @ (if last A = hd B then tl (remdups_adj B) else remdups_adj B)"
proof -
  assume A: "A \<noteq> []" and B: "B \<noteq> []"
  then obtain x B' where B': "B = x # B'" by (cases B) auto
  show ?thesis
  proof (cases "last A = hd B")
    case True
    have "remdups_adj (A @ B) = remdups_adj A @ remdups_adj (dropWhile (\<lambda>y. y = last A) B)"
      using A by (rule remdups_adj_append'')
    moreover have "tl (remdups_adj (x # B')) = remdups_adj (dropWhile (\<lambda>y. y = x) B')"
      using remdups_adj_append_dropWhile [of "[]" x B'] by simp
    ultimately show ?thesis using True B' by simp
  next
    case False
    then show ?thesis by (simp add: remdups_adj_append')
  qed
qed

lemma chunk_end_next:
  "Suc i < t \<Longrightarrow> chunk_end n part t i = chunk_begin part (Suc i)"
  by (auto simp: chunk_end_def chunk_begin_def)

lemma chunk_nonempty:
  "0 < part \<Longrightarrow> part * t \<le> n \<Longrightarrow> i < t \<Longrightarrow> chunk_begin part i < chunk_end n part t i"
proof -
  assume p: "0 < part" and pt: "part * t \<le> n" and i: "i < t"
  have "part * i < part * Suc i" using p by simp
  moreover have "part * Suc i \<le> part * t" using i by (intro mult_le_mono2) simp
  ultimately show ?thesis using pt by (auto simp: chunk_begin_def chunk_end_def)
qed

lemma chunk_end_le:
  "part * t \<le> n \<Longrightarrow> i < t \<Longrightarrow> chunk_end n part t i \<le> n"
proof -
  assume pt: "part * t \<le> n" and i: "i < t"
  have "part * Suc i \<le> part * t" using i by (intro mult_le_mono2) simp
  then show ?thesis using pt by (simp add: chunk_end_def)
qed


text \<open>Chunk \<open>j\<close> of \<open>xs0\<close> has been made adjacent-duplicate free in \<open>xs\<close>, with new end \<open>r\<close>.\<close>

definition chunk_done :: "'a list \<Rightarrow> 'a list \<Rightarrow> nat \<Rightarrow> nat \<Rightarrow> nat \<Rightarrow> nat \<Rightarrow> nat \<Rightarrow> bool" where
  "chunk_done xs0 xs n part t j r \<longleftrightarrow>
     chunk_begin part j < r \<and> r \<le> chunk_end n part t j \<and>
     slice xs (chunk_begin part j) r = remdups_adj (slice xs0 (chunk_begin part j) (chunk_end n part t j))"

lemma chunk_done_frame:
  "chunk_done xs0 xs n part t j r \<Longrightarrow> same_outside b e xs xs' \<Longrightarrow> r \<le> b \<or> e \<le> chunk_begin part j \<Longrightarrow>
   r \<le> length xs \<Longrightarrow> chunk_done xs0 xs' n part t j r"
proof -
  assume d: "chunk_done xs0 xs n part t j r" and so: "same_outside b e xs xs'"
    and h: "r \<le> b \<or> e \<le> chunk_begin part j" and lr: "r \<le> length xs"
  have "slice xs' (chunk_begin part j) r = slice xs (chunk_begin part j) r"
    using same_outside_slice [OF so, of "chunk_begin part j" r] d h lr by (simp add: chunk_done_def)
  with d show ?thesis by (simp add: chunk_done_def)
qed

lemma chunk_done_source:
  "chunk_done xs0 xs n part t j r \<Longrightarrow> same_outside b e xs0 xs0' \<Longrightarrow>
   e \<le> chunk_begin part j \<Longrightarrow> chunk_end n part t j \<le> length xs0 \<Longrightarrow> chunk_done xs0' xs n part t j r"
proof -
  assume d: "chunk_done xs0 xs n part t j r" and so: "same_outside b e xs0 xs0'"
    and h: "e \<le> chunk_begin part j" and le: "chunk_end n part t j \<le> length xs0"
  have "slice xs0' (chunk_begin part j) (chunk_end n part t j) =
        slice xs0 (chunk_begin part j) (chunk_end n part t j)"
    using same_outside_slice [OF so, of "chunk_begin part j" "chunk_end n part t j"] d h le
    by (simp add: chunk_done_def)
  with d show ?thesis by (simp add: chunk_done_def)
qed


lemma launch_last:
  "\<not> Suc i < t \<Longrightarrow> launch n part t (Suc i) xs = (xs, [])"
  by (subst launch.simps) simp

lemma launch_correct:
  "n = length xs \<Longrightarrow> 0 < part \<Longrightarrow> part * t \<le> n \<Longrightarrow> launch n part t i xs = (ys, rs) \<Longrightarrow>
   length rs = t - i \<and> length ys = n \<and> (\<forall>k < chunk_begin part i. ys ! k = xs ! k) \<and>
   (\<forall>j < t - i. chunk_done xs ys n part t (i + j) (rs ! j))"
proof (induction n part t i xs arbitrary: ys rs rule: launch.induct)
  case (1 n part t i xs)
  show ?case
  proof (cases "i < t")
    case False
    with "1.prems" show ?thesis by (simp add: launch.simps)
  next
    case True
    let ?b = "chunk_begin part i" and ?e = "chunk_end n part t i"
    obtain xs' r where u: "std_unique xs ?b ?e = (xs', r)" by (metis surj_pair)
    obtain xs'' rs' where l: "launch n part t (Suc i) xs' = (xs'', rs')" by (metis surj_pair)
    have eq: "ys = xs''" "rs = r # rs'"
      using "1.prems"(4) True u l by (subst (asm) launch.simps, simp)+
    have be: "?b < ?e" "?e \<le> length xs"
      using chunk_nonempty [of part t n i] chunk_end_le [of part t n i] "1.prems" True by simp_all
    then have uc: "slice xs' ?b r = remdups_adj (slice xs ?b ?e) \<and> same_outside ?b ?e xs xs' \<and>
                   ?b \<le> r \<and> r \<le> ?e \<and> (?b < ?e \<longrightarrow> ?b < r)"
      using std_unique_correct [OF _ _ u] by simp
    then have len': "length xs' = n" using "1.prems"(1) by (simp add: same_outside_def)
    have ih: "length rs' = t - Suc i \<and> length xs'' = n \<and>
              (\<forall>k < chunk_begin part (Suc i). xs'' ! k = xs' ! k) \<and>
              (\<forall>j < t - Suc i. chunk_done xs' xs'' n part t (Suc i + j) (rs' ! j))"
      using "1.IH" [OF True u [symmetric] len' [symmetric] "1.prems"(2,3) l] by simp
    have done_i: "chunk_done xs xs'' n part t i r"
    proof (cases "Suc i < t")
      case True
      have d: "chunk_done xs xs' n part t i r" using uc be by (simp add: chunk_done_def)
      have so: "same_outside (chunk_begin part (Suc i)) n xs' xs''"
        using ih len' by (simp add: same_outside_def)
      have "r \<le> chunk_begin part (Suc i)" using uc chunk_end_next [OF True, of n part] by simp
      moreover have "r \<le> length xs'" using uc be len' "1.prems"(1) by simp
      ultimately show ?thesis using chunk_done_frame [OF d so] by simp
    next
      case False
      then have "xs'' = xs'" using l launch_last [of i t n part xs'] by simp
      then show ?thesis using uc be by (simp add: chunk_done_def)
    qed
    have done_j: "chunk_done xs xs'' n part t (Suc i + j) (rs' ! j)" if j: "j < t - Suc i" for j
    proof (rule chunk_done_source)
      show "chunk_done xs' xs'' n part t (Suc i + j) (rs' ! j)" using ih j by simp
      show "same_outside ?b ?e xs' xs" using uc by (simp add: same_outside_def)
      have "?e = chunk_begin part (Suc i)" using j by (intro chunk_end_next) simp
      then show "?e \<le> chunk_begin part (Suc i + j)" by (simp add: chunk_begin_def)
      show "chunk_end n part t (Suc i + j) \<le> length xs'"
        using chunk_end_le [of part t n "Suc i + j"] "1.prems"(3) j len' by simp
    qed
    have "\<forall>j < t - i. chunk_done xs ys n part t (i + j) (rs ! j)"
    proof (intro allI impI)
      fix j assume "j < t - i"
      then show "chunk_done xs ys n part t (i + j) (rs ! j)"
        using done_i done_j [of "j - 1"] eq by (cases j) simp_all
    qed
    moreover have "\<forall>k < ?b. ys ! k = xs ! k"
    proof (intro allI impI)
      fix k assume k: "k < ?b"
      have "?b \<le> chunk_begin part (Suc i)" by (simp add: chunk_begin_def)
      then have "xs'' ! k = xs' ! k" using ih k by simp
      moreover have "xs' ! k = xs ! k" using uc k be unfolding same_outside_def by simp
      ultimately show "ys ! k = xs ! k" using eq by simp
    qed
    ultimately show ?thesis using ih eq True by simp
  qed
qed


lemma take_add_slice: "take (a + k) xs = take a xs @ slice xs a (a + k)"
  by (simp add: slice_def take_add)

lemma take_slice_append: "b \<le> e \<Longrightarrow> take e xs = take b xs @ slice xs b e"
  using take_add_slice [of b "e - b" xs] by simp

text \<open>One iteration of the stitching loop appends chunk \<open>i\<close> to the kept prefix.\<close>

lemma merge_step:
  assumes ch: "chunk_done xs0 xs n part t i l" and i: "0 < i" "i < t"
    and part: "0 < part" "part * t \<le> n" and len: "length xs = n" "length xs0 = n"
    and lst: "0 < lst" "lst \<le> chunk_begin part i"
    and pre: "take lst xs = remdups_adj (take (chunk_begin part i) xs0)"
  shows "\<exists>ys lst'. merge_loop (=) part xs lst i (l # rs) = merge_loop (=) part ys lst' (Suc i) rs \<and>
           take lst' ys = remdups_adj (take (chunk_end n part t i) xs0) \<and>
           same_outside lst lst' xs ys \<and> 0 < lst' \<and> lst' \<le> l"
proof -
  let ?b = "chunk_begin part i" and ?e = "chunk_end n part t i"
  have bl: "?b < l" "l \<le> ?e" and sl: "slice xs ?b l = remdups_adj (slice xs0 ?b ?e)"
    using ch by (simp_all add: chunk_done_def)
  have en: "?e \<le> n" using chunk_end_le [OF part(2) i(2)] .
  let ?A = "take ?b xs0" and ?B = "slice xs0 ?b ?e"
  have A: "?A \<noteq> []" using lst len en bl by auto
  have B: "?B \<noteq> []" using bl en len by (simp add: slice_def)
  have front: "slice xs ?b l = xs ! ?b # slice xs (Suc ?b) l"
    using bl en len by (intro slice_Cons_front) simp_all
  have hdB: "xs ! ?b = hd ?B"
  proof -
    have "xs ! ?b = hd (remdups_adj ?B)" using front sl by (metis list.sel(1))
    then show ?thesis by (simp only: hd_remdups_adj)
  qed
  have lastA: "xs ! (lst - 1) = last ?A"
  proof -
    have lt: "lst \<le> length xs" using lst bl en len by simp
    have "take lst xs \<noteq> []" using lst lt by (cases xs) auto
    then have "last (take lst xs) = take lst xs ! (lst - 1)"
      using lt by (simp add: last_conv_nth min_absorb1)
    then have "last (take lst xs) = xs ! (lst - 1)" using lst by simp
    then show ?thesis using pre last_remdups_adj by metis
  qed
  have whole: "take ?e xs0 = ?A @ ?B"
    using bl by (intro take_slice_append) simp
  define b' where "b' = (if xs ! ?b = xs ! (lst - 1) then Suc ?b else ?b)"
  have b'l: "?b \<le> b'" "b' \<le> l" using bl by (simp_all add: b'_def)
  have src: "slice xs b' l = (if last ?A = hd ?B then tl (remdups_adj ?B) else remdups_adj ?B)"
  proof -
    have "slice xs (Suc ?b) l = tl (remdups_adj ?B)" using front sl by (metis list.sel(3))
    then show ?thesis using sl hdB lastA by (simp add: b'_def)
  qed
  let ?ys = "copy_range xs b' l lst"
  let ?lst' = "lst + (l - b')"
  have cp: "slice ?ys lst ?lst' = slice xs b' l \<and> same_outside lst ?lst' xs ?ys"
    using copy_range_correct [of lst b' l xs] lst b'l bl en len by simp
  have "take lst ?ys = take lst xs"
    using same_outside_slice [of lst ?lst' xs ?ys 0 lst] cp lst bl en len by (simp add: slice_def)
  then have "take ?lst' ?ys = remdups_adj ?A @ slice xs b' l"
    using cp pre take_add_slice [of lst "l - b'" ?ys] by simp
  also have "\<dots> = remdups_adj (take ?e xs0)"
    using src whole remdups_adj_append_hd [OF A B] by simp
  finally have "take ?lst' ?ys = remdups_adj (take ?e xs0)" .
  moreover have "merge_loop (=) part xs lst i (l # rs) = merge_loop (=) part ?ys ?lst' (Suc i) rs"
    using lst bl b'l en len by (simp add: Let_def b'_def)
  moreover have "0 < ?lst'" "?lst' \<le> l" using lst b'l by simp_all
  ultimately show ?thesis using cp by blast
qed

lemma merge_loop_correct:
  assumes part: "0 < part" "part * t \<le> n" and len0: "length xs0 = n"
  shows "length xs = n \<Longrightarrow> 0 < i \<Longrightarrow> i + length rs = t \<Longrightarrow> 0 < lst \<Longrightarrow>
    lst \<le> chunk_end n part t (i - 1) \<Longrightarrow>
    take lst xs = remdups_adj (take (chunk_end n part t (i - 1)) xs0) \<Longrightarrow>
    \<forall>j < length rs. chunk_done xs0 xs n part t (i + j) (rs ! j) \<Longrightarrow>
    \<exists>ys m. merge_loop (=) part xs lst i rs = Inr (ys, m) \<and> take m ys = remdups_adj xs0"
proof (induction rs arbitrary: xs lst i)
  case Nil
  then have "chunk_end n part t (i - 1) = n" by (simp add: chunk_end_def)
  with Nil len0 show ?case by simp
next
  case (Cons l rs)
  have i: "i < t" using Cons.prems(3) by simp
  have ce: "chunk_end n part t (i - 1) = chunk_begin part i"
    using chunk_end_next [of "i - 1" t n part] i Cons.prems(2) by simp
  have ch: "chunk_done xs0 xs n part t i l" using Cons.prems(7) by (metis add_0_right length_Cons nth_Cons_0 zero_less_Suc)
  have lst_b: "lst \<le> chunk_begin part i" using Cons.prems(5) ce by simp
  have pre: "take lst xs = remdups_adj (take (chunk_begin part i) xs0)" using Cons.prems(6) ce by simp
  obtain ys lst' where st: "merge_loop (=) part xs lst i (l # rs) = merge_loop (=) part ys lst' (Suc i) rs"
    and pre': "take lst' ys = remdups_adj (take (chunk_end n part t i) xs0)"
    and so: "same_outside lst lst' xs ys" and l': "0 < lst'" "lst' \<le> l"
    using merge_step [OF ch Cons.prems(2) i part Cons.prems(1) len0 Cons.prems(4) lst_b pre, of rs]
    by blast
  have lenys: "length ys = n" using so Cons.prems(1) by (simp add: same_outside_def)
  have le: "l \<le> chunk_end n part t i" using ch by (simp add: chunk_done_def)
  have rest: "\<forall>j < length rs. chunk_done xs0 ys n part t (Suc i + j) (rs ! j)"
  proof (intro allI impI)
    fix j assume j: "j < length rs"
    have d: "chunk_done xs0 xs n part t (Suc i + j) (rs ! j)"
      using Cons.prems(7) j by (metis Suc_less_eq add_Suc_right length_Cons nth_Cons_Suc add_Suc)
    have "Suc i < t" using Cons.prems(3) j by simp
    then have "chunk_end n part t i \<le> chunk_begin part (Suc i + j)"
      using chunk_end_next [of i t n part] by (simp add: chunk_begin_def)
    moreover have "rs ! j \<le> length xs"
      using d chunk_end_le [of part t n "Suc i + j"] part Cons.prems(1,3) j
      by (simp add: chunk_done_def)
    ultimately show "chunk_done xs0 ys n part t (Suc i + j) (rs ! j)"
      using chunk_done_frame [OF d so] l' le by simp
  qed
  have "\<exists>zs m. merge_loop (=) part ys lst' (Suc i) rs = Inr (zs, m) \<and> take m zs = remdups_adj xs0"
    using Cons.IH [OF lenys _ _ l'(1)] Cons.prems(3) pre' l' le rest by simp
  then show ?case using st by simp
qed

lemma unat_part_size:
  "length xs < 2 ^ 64 \<Longrightarrow> unat (word_of_nat (length xs) div (threads :: size_t)) = length xs div unat threads"
  by (simp add: unat_div unat_of_nat)

lemma mt_unique_chunks:
  assumes "0 < unat threads" "unat threads \<le> length xs" "length xs < 2 ^ 64"
  shows "\<exists>part. part_size_of (word_of_nat (length xs)) threads = Inr part \<and> 0 < unat part \<and>
           unat part * unat threads \<le> length xs"
proof -
  have "threads \<noteq> 0" using assms(1) by auto
  moreover have "0 < length xs div unat threads" using assms(1,2) by (simp add: div_greater_zero_iff)
  moreover have "length xs div unat threads * unat threads \<le> length xs"
    by (rule div_times_less_eq_dividend)
  ultimately show ?thesis using unat_part_size [OF assms(3)] by (simp add: part_size_of_def)
qed

lemma mt_unique_correct:
  assumes "0 < unat threads" "unat threads \<le> length xs" "length xs < 2 ^ 64"
  shows "\<exists>ys m. mt_unique (=) xs threads = Inr (ys, m) \<and> take m ys = remdups_adj xs"
proof -
  obtain part where ps: "part_size_of (word_of_nat (length xs)) threads = Inr part"
    and p0: "0 < unat part" and pt: "unat part * unat threads \<le> length xs"
    using mt_unique_chunks [OF assms] by blast
  let ?n = "length xs" and ?p = "unat part" and ?t = "unat threads"
  obtain xs1 rs where l: "launch ?n ?p ?t 0 xs = (xs1, rs)" by (metis surj_pair)
  have lc: "length rs = ?t \<and> length xs1 = ?n \<and> (\<forall>j < ?t. chunk_done xs xs1 ?n ?p ?t j (rs ! j))"
    using launch_correct [OF refl p0 pt l] by simp
  then obtain r0 rs' where rs: "rs = r0 # rs'" using assms(1) by (cases rs) auto
  have c0: "chunk_done xs xs1 ?n ?p ?t 0 r0" using lc rs assms(1) by (metis nth_Cons_0)
  then have r0: "0 < r0" "r0 \<le> chunk_end ?n ?p ?t 0"
    and s0: "slice xs1 0 r0 = remdups_adj (slice xs 0 (chunk_end ?n ?p ?t 0))"
    by (simp_all add: chunk_done_def chunk_begin_def)
  have "take r0 xs1 = remdups_adj (take (chunk_end ?n ?p ?t 0) xs)"
    using s0 by (simp add: slice_def)
  moreover have "\<forall>j < length rs'. chunk_done xs xs1 ?n ?p ?t (1 + j) (rs' ! j)"
  proof (intro allI impI)
    fix j assume "j < length rs'"
    then have "Suc j < ?t" using lc rs by simp
    then have "chunk_done xs xs1 ?n ?p ?t (Suc j) (rs ! Suc j)" using lc by blast
    then show "chunk_done xs xs1 ?n ?p ?t (1 + j) (rs' ! j)" using rs by simp
  qed
  ultimately have "\<exists>ys m. merge_loop (=) ?p xs1 r0 1 rs' = Inr (ys, m) \<and> take m ys = remdups_adj xs"
    using merge_loop_correct [OF p0 pt refl, of xs1 1 rs' r0] lc rs r0 by simp
  then show ?thesis using ps l rs by (simp add: mt_unique_def)
qed

lemma distinct_remdups_adj_sorted: "sorted xs \<Longrightarrow> distinct (remdups_adj xs)"
proof (induction xs rule: remdups_adj.induct)
  case (3 x y xs)
  then show ?case by (auto intro: antisym)
qed simp_all

lemma remdups_adj_sorted: "sorted xs \<Longrightarrow> remdups_adj xs = remdups xs"
  by (intro sorted_distinct_set_unique) (simp_all add: sorted_remdups_adj distinct_remdups_adj_sorted)

lemma launch_length: "length (snd (launch n part t i xs)) = t - i"
proof (induction n part t i xs rule: launch.induct)
  case (1 n part t i xs)
  then show ?case
    by (subst launch.simps) (auto split: prod.splits simp: Suc_diff_Suc)
qed

lemma launch_first_empty:
  "2 \<le> t \<Longrightarrow> \<exists>xs' rs. launch n 0 t 0 xs = (xs', 0 # rs) \<and> rs \<noteq> []"
proof -
  assume t: "2 \<le> t"
  obtain xs' rs where l: "launch n 0 t 1 xs = (xs', rs)" by (metis surj_pair)
  have "length rs = t - 1" using launch_length [of n 0 t 1 xs] l by simp
  moreover have "chunk_end n 0 t 0 = 0" using t by (simp add: chunk_end_def)
  moreover have "rs \<noteq> []" using calculation(1) t by auto
  ultimately show ?thesis
    using t l by (subst launch.simps) (simp add: std_unique_def chunk_begin_def)
qed

section \<open>Properties of \<open>mt::unique\<close>\<close>

text \<open>
  Claim C29: with \<open>operator==\<close> as the predicate and \<open>1 \<le> threads_amount \<le>\<close> the
  length of the range, \<open>mt::unique\<close> returns, and the elements before the
  returned end are those of the input with adjacent duplicates removed, the
  result of a sequential \<open>std::unique\<close>, whatever the input.
\<close>

theorem mt_unique_removes_adjacent_duplicates:
  "0 < unat threads \<Longrightarrow> unat threads \<le> length xs \<Longrightarrow> length xs < 2 ^ 64 \<Longrightarrow>
   \<exists>ys m. mt_unique_eq xs threads = Inr (ys, m) \<and> take m ys = remdups_adj xs"
  unfolding mt_unique_eq_def by (rule mt_unique_correct)

theorem mt_unique_removes_adjacent_duplicates_witness:
  "\<exists>ys m. mt_unique_eq [0, 0, 1, 1, 1, 2, 3, 3, 0 :: nat] 4 = Inr (ys, m) \<and> take m ys = [0, 1, 2, 3, 0]"
  using mt_unique_removes_adjacent_duplicates [of 4 "[0, 0, 1, 1, 1, 2, 3, 3, 0 :: nat]"] by simp

text \<open>
  Claim C30: more threads than elements make \<open>mt::unique\<close> read outside the
  range.  With \<open>threads_amount \<ge> 2\<close> and a shorter range, \<open>part_size\<close> is 0,
  chunk 0 is empty, \<open>last\<close> is \<open>begin\<close> and the loop dereferences
  \<open>last - 1\<close>; in particular an empty range with two threads fails instead of
  returning an empty result.
\<close>

theorem mt_unique_too_many_threads:
  assumes "2 \<le> unat threads" "length xs < unat threads" "length xs < 2 ^ 64"
  shows "mt_unique p xs threads = Inl OutOfRange"
proof -
  have t0: "threads \<noteq> 0" using assms(1) by auto
  have "unat (word_of_nat (length xs) div threads) = 0"
    using unat_part_size [OF assms(3)] assms(2) by simp
  then have ps: "part_size_of (word_of_nat (length xs)) threads = Inr (word_of_nat (length xs) div threads)"
    and p0: "unat (word_of_nat (length xs) div threads) = 0"
    using t0 by (simp_all add: part_size_of_def)
  obtain xs' rs where l: "launch (length xs) 0 (unat threads) 0 xs = (xs', 0 # rs)" and "rs \<noteq> []"
    using launch_first_empty [OF assms(1)] by blast
  then obtain r rs' where "rs = r # rs'" by (cases rs) auto
  with ps p0 l show ?thesis by (simp add: mt_unique_def)
qed

theorem mt_unique_too_many_threads_witness:
  "mt_unique (=) ([] :: nat list) 2 = Inl OutOfRange"
  using mt_unique_too_many_threads [of 2 "[] :: nat list"] by simp

text \<open>
  Claim C32: the chunks ignore the predicate.  Each chunk is compacted with
  \<open>std::unique(_begin, _end)\<close>, that is with \<open>operator==\<close>, whatever \<open>p\<close> is:
  with one thread and a predicate that identifies 1 and 2, nothing is removed.
\<close>

theorem mt_unique_ignores_predicate:
  "(\<lambda>a b. a div 10 = b div 10) (1 :: nat) 2 \<and>
   mt_unique (\<lambda>a b. a div 10 = b div 10) [1, 2 :: nat] 1 = Inr ([1, 2], 2)"
  by code_simp


text \<open>
  Claim C31: the chunks exactly cover the range.  With \<open>part_size = n div t\<close>
  and \<open>1 \<le> t \<le> n\<close>, the chunks are non-empty, each starts where the previous
  one ends, the first starts at \<open>begin\<close> and the last ends at \<open>end\<close>; so the
  concurrent \<open>std::unique\<close> calls work on disjoint ranges.
\<close>

theorem chunks_cover_range:
  assumes "0 < t" "t \<le> n"
  shows "chunk_begin (n div t) 0 = 0 \<and> chunk_end n (n div t) t (t - 1) = n \<and>
         (\<forall>i < t. chunk_begin (n div t) i < chunk_end n (n div t) t i) \<and>
         (\<forall>i. Suc i < t \<longrightarrow> chunk_end n (n div t) t i = chunk_begin (n div t) (Suc i))"
proof -
  have p: "0 < n div t" using assms by (simp add: div_greater_zero_iff)
  have pt: "n div t * t \<le> n" by (rule div_times_less_eq_dividend)
  show ?thesis
    using chunk_nonempty [OF p pt] chunk_end_next [of _ t n "n div t"]
    by (simp add: chunk_begin_def chunk_end_def)
qed

theorem chunks_cover_range_witness:
  "chunk_begin (7 div 3) 0 = 0 \<and> chunk_end 7 (7 div 3) 3 2 = 7 \<and> chunk_end 7 (7 div 3) 3 0 = 2"
  using chunks_cover_range [of 3 7] by (simp add: chunk_end_def)

text \<open>
  The concurrent phase does not depend on the schedule.  The
  \<open>std::unique\<close> calls of two different chunks give the same vector and the
  same chunk ends whichever runs first, so the model's loop order stands for
  every interleaving of the \<open>std::async\<close> threads.
\<close>

lemma chunk_uniques_commute:
  assumes "0 < part" "part * t \<le> length xs" "i < j" "j < t"
  shows "std_unique (fst (std_unique xs (chunk_begin part i) (chunk_end (length xs) part t i)))
            (chunk_begin part j) (chunk_end (length xs) part t j) =
         (fst (std_unique (fst (std_unique xs (chunk_begin part j) (chunk_end (length xs) part t j)))
            (chunk_begin part i) (chunk_end (length xs) part t i)),
          snd (std_unique xs (chunk_begin part j) (chunk_end (length xs) part t j))) \<and>
         snd (std_unique (fst (std_unique xs (chunk_begin part j) (chunk_end (length xs) part t j)))
            (chunk_begin part i) (chunk_end (length xs) part t i)) =
         snd (std_unique xs (chunk_begin part i) (chunk_end (length xs) part t i))"
proof (rule std_unique_commute)
  show "chunk_begin part i \<le> chunk_end (length xs) part t i"
    using chunk_nonempty [OF assms(1,2)] assms(3,4) by (simp add: less_imp_le)
  have "chunk_end (length xs) part t i = part * Suc i" using assms(3,4) by (auto simp: chunk_end_def)
  also have "\<dots> \<le> part * j" using assms(3) by (intro mult_le_mono2) simp
  finally show "chunk_end (length xs) part t i \<le> chunk_begin part j" by (simp add: chunk_begin_def)
  show "chunk_begin part j \<le> chunk_end (length xs) part t j"
    using chunk_nonempty [OF assms(1,2) assms(4)] by simp
  show "chunk_end (length xs) part t j \<le> length xs"
    using chunk_end_le [OF assms(2,4)] .
qed

end
