(* ===== verification/PoolProgress.thy ===== *)
theory PoolProgress
  imports ThreadPool
begin

text \<open>
  Progress of the pool of src/thread_pool.hpp while its owner is blocked in
  \<open>wait()\<close>: some thread can always take a step, so the blocked \<open>wait()\<close> is
  not a deadlock (the only deadlock of the pool is the destructor's, after
  \<open>shutdown_request\<close> is raised).  A worker is \<^emph>\<open>parked\<close> when it sleeps in
  \<open>queue_cv.wait\<close> or has returned; every other worker, or the owner of
  \<open>queue_mutex\<close>, can always move.  The invariant \<open>progress_inv\<close> says that a
  worker holding the lock at the shutdown test or the wait saw an empty queue,
  that only a raised flag lets a worker return, that a non-empty queue has an
  unparked worker (when no shutdown was requested and the pool has workers),
  and that a blocked owner is waiting for queued or running tasks.
\<close>

fun parked :: "'task wpc \<Rightarrow> bool" where
  "parked WSleep = True"
| "parked WExit = True"
| "parked _ = False"

definition shut_sees_empty :: "('task, 'd) pool \<Rightarrow> bool" where
  "shut_sees_empty s \<longleftrightarrow> (WShut \<in> set (workers s) \<or> WWaitCall \<in> set (workers s) \<longrightarrow> task_queue s = [])"

definition exit_after_shutdown :: "('task, 'd) pool \<Rightarrow> bool" where
  "exit_after_shutdown s \<longleftrightarrow> (WExit \<in> set (workers s) \<longrightarrow> shutdown_request s)"

definition queue_has_worker :: "('task, 'd) pool \<Rightarrow> bool" where
  "queue_has_worker s \<longleftrightarrow>
     (task_queue s \<noteq> [] \<and> \<not> shutdown_request s \<and> workers s \<noteq> [] \<longrightarrow> \<not> list_all parked (workers s))"

definition blocked_has_work :: "('task, 'd) pool \<Rightarrow> bool" where
  "blocked_has_work s \<longleftrightarrow> (mstate s = MBlocked \<longrightarrow> task_queue s \<noteq> [] \<or> 0 < active s)"

definition progress_inv :: "('task, 'd) pool \<Rightarrow> bool" where
  "progress_inv s \<longleftrightarrow> shut_sees_empty s \<and> exit_after_shutdown s \<and> queue_has_worker s \<and>
     blocked_has_work s"

section \<open>The progress invariant\<close>

lemma notify_one_set:
  assumes "notify_one ws ws'" "w \<noteq> WWoken" "w \<noteq> WSleep"
  shows "w \<in> set ws' \<longleftrightarrow> w \<in> set ws"
proof -
  have m: "map (\<lambda>x. x = w) ws' = map (\<lambda>x. x = w) ws"
    by (rule notify_one_map [OF assms(1)]) (use assms(2,3) in simp)
  show ?thesis by (subst (1 2) mem_iff_map_eq) (simp only: m)
qed

lemma wake_all_set:
  "w \<noteq> WWoken \<Longrightarrow> w \<noteq> WSleep \<Longrightarrow> w \<in> set (wake_all ws) \<longleftrightarrow> w \<in> set ws"
  by (auto simp: wake_all_def split: wpc.splits)

lemma exit_after_shutdown_step:
  "pool_step exec sp s s' \<Longrightarrow> exit_after_shutdown s \<Longrightarrow> exit_after_shutdown s'"
proof (induction rule: pool_step.induct)
  case (main_push s t ops ws)
  then show ?case by (simp add: exit_after_shutdown_def notify_one_set)
next
  case (main_notify_all s ops)
  then show ?case by (simp add: exit_after_shutdown_def wake_all_set)
next
  case (worker_submit i s t c cs ws)
  then have "WExit \<in> set ws \<longleftrightarrow> WExit \<in> set ((workers s)[i := WRun t cs])"
    by (simp add: notify_one_set)
  with worker_submit show ?case by (simp add: exit_after_shutdown_def set_update_other)
next
  case (worker_exit i s)
  then show ?case by (simp add: exit_after_shutdown_def)
qed (simp_all add: exit_after_shutdown_def set_update_other)

lemma unlocked_no_holder:
  "lock_inv s \<Longrightarrow> lock s = None \<Longrightarrow> WShut \<notin> set (workers s) \<and> WWaitCall \<notin> set (workers s)"
  by (auto simp: lock_inv_def in_set_conv_nth)

lemma shut_sees_empty_step:
  "pool_step exec sp s s' \<Longrightarrow> lock_inv s \<Longrightarrow> shut_sees_empty s \<Longrightarrow> shut_sees_empty s'"
proof (induction rule: pool_step.induct)
  case (main_push s t ops ws)
  then show ?case using unlocked_no_holder [of s] by (simp add: shut_sees_empty_def notify_one_set)
next
  case (main_notify_all s ops)
  then show ?case by (simp add: shut_sees_empty_def wake_all_set)
next
  case (worker_submit i s t c cs ws)
  then have "WShut \<notin> set ws \<and> WWaitCall \<notin> set ws"
    using unlocked_no_holder [of s] by (simp add: notify_one_set set_update_other)
  then show ?case by (simp add: shut_sees_empty_def)
next
  case (worker_pop i s t q)
  then show ?case by (simp add: shut_sees_empty_def set_update_other)
next
  case (worker_stay i s)
  then have "WShut \<in> set (workers s)" by (metis nth_mem)
  with worker_stay show ?case by (auto simp: shut_sees_empty_def dest: set_update_subset_insert [THEN subsetD])
qed (auto simp: shut_sees_empty_def set_update_other dest: set_update_subset_insert [THEN subsetD])

lemma wake_main_not_blocked: "wake_main m \<noteq> MBlocked"
  by (cases m) simp_all

lemma blocked_has_work_step:
  "pool_step exec False s s' \<Longrightarrow> active_inv s \<Longrightarrow> blocked_has_work s \<Longrightarrow> blocked_has_work s'"
proof (induction rule: pool_step.induct)
  case (worker_pop i s t q)
  then have "draining (workers s ! i) \<le> active s"
    using elem_le_sum_list_map [of i "workers s" draining] by (simp add: active_inv_def)
  with worker_pop show ?case by (simp add: blocked_has_work_def)
next
  case (worker_idle i s)
  then show ?case by (auto simp: blocked_has_work_def wake_main_not_blocked)
qed (auto simp: blocked_has_work_def)

lemma unparked_update:
  "i < length ws \<Longrightarrow> \<not> parked w \<Longrightarrow> \<not> list_all parked (ws[i := w])"
  by (auto simp: list_all_length nth_list_update)

lemma notify_one_unparked:
  assumes "notify_one ws ws'" "WExit \<notin> set ws" "ws \<noteq> []"
  shows "\<not> list_all parked ws'"
  using assms
proof (induction rule: notify_one.induct)
  case (wake j ws)
  then show ?case by (simp add: unparked_update)
next
  case (none ws)
  then obtain w where "w \<in> set ws" by (meson list.set_sel(1))
  moreover have "\<not> parked w" if "w \<in> set ws" for w
  proof -
    have "w \<noteq> WSleep" "w \<noteq> WExit" using that none.hyps none.prems(1) by auto
    then show ?thesis by (cases w) simp_all
  qed
  ultimately show ?case by (auto simp: list_all_iff)
qed

lemma wake_all_unparked:
  "\<not> list_all parked ws \<Longrightarrow> \<not> list_all parked (wake_all ws)"
  by (induction ws) (auto simp: wake_all_def split: wpc.splits)

lemma queue_has_worker_step:
  assumes "pool_step exec False s s'" "shut_sees_empty s" "exit_after_shutdown s"
    "queue_has_worker s"
  shows "queue_has_worker s'"
  using assms
proof (induction rule: pool_step.induct)
  case (main_push s t ops ws)
  then have "workers s \<noteq> [] \<longleftrightarrow> ws \<noteq> []" by (metis notify_one_length length_0_conv)
  with main_push show ?case
    by (auto simp: queue_has_worker_def exit_after_shutdown_def dest: notify_one_unparked)
next
  case (worker_submit i s t c cs ws)
  then have "WExit \<notin> set ((workers s)[i := WRun t cs])" if "\<not> shutdown_request s"
    using that by (auto simp: exit_after_shutdown_def set_update_other)
  moreover have "ws \<noteq> []" using worker_submit.hyps(1,4) by (metis notify_one_length length_0_conv length_list_update less_zeroE list.size(3))
  ultimately show ?case using worker_submit
    by (auto simp: queue_has_worker_def dest: notify_one_unparked)
next
  case (main_notify_all s ops)
  have "workers s \<noteq> [] \<longleftrightarrow> wake_all (workers s) \<noteq> []" by (simp add: wake_all_def)
  with main_notify_all show ?case by (auto simp: queue_has_worker_def dest: wake_all_unparked)
next
  case (worker_block i s)
  then have "WWaitCall \<in> set (workers s)" by (metis nth_mem)
  with worker_block show ?case by (simp add: queue_has_worker_def shut_sees_empty_def)
qed (auto simp: queue_has_worker_def unparked_update)

lemma progress_inv_init: "progress_inv (pool_init n ops d)"
  by (simp add: progress_inv_def pool_init_def shut_sees_empty_def exit_after_shutdown_def
      queue_has_worker_def blocked_has_work_def)

lemma reachable_progress_inv:
  "reachable exec False n ops d s \<Longrightarrow> progress_inv s"
proof (induction rule: reachable.induct)
  case init
  then show ?case by (rule progress_inv_init)
next
  case (step s s')
  have inv: "lock_inv s" "active_inv s" using reachable_invs [OF step.hyps(1)] by simp_all
  from step.IH show ?case unfolding progress_inv_def
    using shut_sees_empty_step [OF step.hyps(2) inv(1)]
      exit_after_shutdown_step [OF step.hyps(2)]
      queue_has_worker_step [OF step.hyps(2)]
      blocked_has_work_step [OF step.hyps(2) inv(2)] by blast
qed

lemma draining_unparked: "0 < draining w \<Longrightarrow> \<not> parked w"
  by (cases w) simp_all

lemma some_unparked:
  assumes "\<not> list_all parked (workers s)"
  obtains i where "i < length (workers s)" "\<not> parked (workers s ! i)"
  using assms by (auto simp: list_all_length)

lemma active_unparked:
  assumes "active_inv s" "0 < active s"
  shows "\<not> list_all parked (workers s)"
proof
  assume "list_all parked (workers s)"
  then have "\<forall>w \<in> set (workers s). draining w = 0"
    using draining_unparked by (fastforce simp: list_all_iff)
  then have "sum_list (map draining (workers s)) = 0" by (simp add: sum_list_eq_0_iff)
  with assms show False by (simp add: active_inv_def)
qed

section \<open>Who can move\<close>

lemma worker_at_holder: "holds_lock w \<Longrightarrow> worker_at exec i w s \<noteq> None"
  by (cases w) (simp_all split: list.splits)

lemma worker_at_unlocked: "lock s = None \<Longrightarrow> \<not> parked w \<Longrightarrow> worker_at exec i w s \<noteq> None"
  by (cases "(exec, i, w, s)" rule: worker_at.cases) (simp_all split: list.splits prod.splits)

lemma some_worker_moves:
  assumes "lock_inv s" "\<not> list_all parked (workers s)"
  shows "\<exists>i s'. worker_step exec i s = Some s'"
proof (cases "lock s")
  case (Some j)
  then have "j < length (workers s)" "holds_lock (workers s ! j)"
    using assms(1) by (auto simp: lock_inv_def)
  then show ?thesis
    using worker_at_holder [of "workers s ! j" exec j s] by (auto simp: worker_step_def)
next
  case None
  obtain i where "i < length (workers s)" "\<not> parked (workers s ! i)"
    using assms(2) by (rule some_unparked)
  then show ?thesis
    using worker_at_unlocked [OF None, of "workers s ! i" exec i] by (auto simp: worker_step_def)
qed

lemma pending_work_unparked:
  assumes "reachable exec False n ops d s" "0 < n" "\<not> shutdown_request s"
    "task_queue s \<noteq> [] \<or> 0 < active s"
  shows "\<not> list_all parked (workers s)"
proof -
  have inv: "progress_inv s" "active_inv s"
    using reachable_progress_inv [OF assms(1)] reachable_invs [OF assms(1)] by simp_all
  have "workers s \<noteq> []" using reachable_length_workers [OF assms(1)] assms(2) by auto
  then show ?thesis
    using inv assms(3,4) active_unparked [OF inv(2)]
    by (auto simp: progress_inv_def queue_has_worker_def)
qed

text \<open>
  Claim C16: while the owner of a pool with at least one worker is blocked in
  \<open>wait()\<close> and no shutdown was requested, some thread can always take a step.
\<close>

theorem pool_progress_while_waiting:
  assumes "reachable exec False n ops d s" "0 < n" "\<not> shutdown_request s"
    "mstate s = MBlocked"
  shows "\<exists>s'. pool_step exec False s s'"
proof -
  have "task_queue s \<noteq> [] \<or> 0 < active s"
    using reachable_progress_inv [OF assms(1)] assms(4)
    by (simp add: progress_inv_def blocked_has_work_def)
  then have "\<not> list_all parked (workers s)" by (rule pending_work_unparked [OF assms(1-3)])
  then obtain i s' where "worker_step exec i s = Some s'"
    using some_worker_moves reachable_invs [OF assms(1)] by blast
  then show ?thesis by (blast intro: worker_step_sound)
qed

theorem pool_progress_while_waiting_witness:
  "reachable f_without_arg False 1 [Push (), Wait] (0 :: nat)
     (pool_init 1 [Push (), Wait] 0\<lparr>task_queue := [()], prog := [Wait], submitted := [()],
                                      mstate := MBlocked\<rparr>) \<and>
   (\<exists>s'. pool_step f_without_arg False (pool_init 1 [Push (), Wait] (0 :: nat)\<lparr>task_queue := [()],
        prog := [Wait], submitted := [()], mstate := MBlocked\<rparr>) s')"
proof -
  have r: "reachable f_without_arg False 1 [Push (), Wait] (0 :: nat)
     (pool_init 1 [Push (), Wait] 0\<lparr>task_queue := [()], prog := [Wait], submitted := [()],
                                      mstate := MBlocked\<rparr>)"
    by (rule run_sched_init [where as = "[AMain, AMain]"])
       (simp add: pool_init_def main_step_def notify_one_fn_def)
  show ?thesis using r pool_progress_while_waiting [OF r] by (simp add: pool_init_def)
qed

end
