(* ===== verification/RetPush.thy ===== *)
theory RetPush
  imports PoolProgress
begin

text \<open>
  The result-returning \<open>push\<close> of src/thread_pool.hpp, compiled under
  \<open>MT_POOL_RET_SUPPORT\<close> (lines 78--88), and its tests in src/mt_test.cpp
  (\<open>f_with_ret\<close>, lines 53--63; \<open>test_a_few_calls_with_ret\<close>, lines 154--174).
  \<open>push(func, args...)\<close> binds the arguments into a
  \<open>std::packaged_task<R()>\<close>, takes its future and queues a task that calls
  it.  Calling a packaged task runs the bound function and stores its return
  value, or the exception it threw, in the shared state of the future; the
  exception never reaches the worker.  \<open>future.get()\<close> blocks until the shared
  state is ready and then returns the value or rethrows the exception.

  The pool of \<open>ThreadPool\<close> runs the packaged tasks: a task is the bound
  argument with the index of its shared state, and the shared data of the
  tasks is paired with the list of shared states (\<open>None\<close> while not ready).
  The shared states of all the caller's pushes are allocated when the pool is
  built rather than one by one inside \<open>push\<close>; a state is read only through
  the future its \<open>push\<close> returned, so the order of allocation is not
  observable.  Running the function and storing its outcome is one step.
\<close>

datatype 'r outcome = Value 'r | Thrown

datatype exn = TaskException

type_synonym ('a, 'd, 'r) func = "'a \<Rightarrow> 'd \<Rightarrow> 'd \<times> 'r outcome"

type_synonym ('d, 'r) store = "'d \<times> 'r outcome option list"

text \<open>The queued \<open>std::packaged_task<void()>\<close> (lines 82 and 86): call the bound function,
  store its outcome in shared state \<open>k\<close>; it submits nothing.\<close>

fun run_packaged :: "('a, 'd, 'r) func \<Rightarrow> ('a \<times> nat, ('d, 'r) store) exec" where
  "run_packaged f (a, k) (d, fs) = (case f a d of (d', r) \<Rightarrow> ((d', fs[k := Some r]), []))"

text \<open>The caller's pushes: the \<open>k\<close>-th returns the future of shared state \<open>k\<close>.\<close>

definition ret_prog :: "'a list \<Rightarrow> ('a \<times> nat) mop list" where
  "ret_prog as = map Push (zip as [0..<length as])"

text \<open>The program of \<open>test_a_few_calls_with_ret\<close>: the pushes, the calls of
  \<open>get()\<close> (which block the caller and change nothing), the destructor.\<close>

definition ret_test_prog :: "'a list \<Rightarrow> ('a \<times> nat) mop list" where
  "ret_test_prog as = ret_prog as @ destructor_ops"

definition ret_init :: "'a list \<Rightarrow> 'd \<Rightarrow> ('d, 'r) store" where
  "ret_init as d = (d, replicate (length as) None)"

text \<open>\<open>std::future<R>::get()\<close>: \<open>None\<close> while it blocks.\<close>

fun future_get :: "'r outcome option \<Rightarrow> (exn + 'r) option" where
  "future_get None = None"
| "future_get (Some (Value r)) = Some (Inr r)"
| "future_get (Some Thrown) = Some (Inl TaskException)"

text \<open>\<open>f_with_ret\<close> (mt_test.cpp, lines 53--63): it records its arguments in two
  atomics, increments a call counter and returns \<open>arg0 + arg1\<close> in \<open>size_t\<close>
  (the diagnostic print is not modelled).  The shared data is the triple
  (call count, last \<open>arg0\<close>, last \<open>arg1\<close>).  The three atomic stores are
  one step here: the theorems below read only the returned values and the
  counter, whose atomic increments give the same count in every
  interleaving; the recorded arguments, which do depend on the interleaving
  of the stores, are studied with the stores as separate steps in
  \<open>PoolTests\<close>.\<close>

fun f_with_ret :: "(size_t \<times> size_t, size_t \<times> size_t \<times> size_t, size_t) func" where
  "f_with_ret (a0, a1) (c, x0, x1) = ((c + 1, a0, a1), Value (a0 + a1))"

text \<open>The four calls of \<open>test_a_few_calls_with_ret\<close> (lines 163--166).\<close>

definition ret_test_args :: "(size_t \<times> size_t) list" where
  "ret_test_args = [(123, 456), (1234, 4567), (12345, 45678), (111, 222)]"

abbreviation futures :: "('a \<times> nat, ('d, 'r) store) pool \<Rightarrow> 'r outcome option list" where
  "futures s \<equiv> snd (data s)"

section \<open>Invariants of the shared states\<close>

fun ran_tasks :: "'task wpc \<Rightarrow> 'task list" where
  "ran_tasks (WRun t cs) = [t]"
| "ran_tasks _ = []"

text \<open>A shared state holds nothing or the outcome of its function on some data;
  the task of a state that has been run or finished has made it ready.\<close>

definition store_inv :: "('a, 'd, 'r) func \<Rightarrow> 'a list \<Rightarrow> ('a \<times> nat, ('d, 'r) store) pool \<Rightarrow> bool" where
  "store_inv f as s \<longleftrightarrow>
     length (futures s) = length as \<and>
     (\<forall>k < length as. futures s ! k = None \<or> (\<exists>d. futures s ! k = Some (snd (f (as ! k) d)))) \<and>
     (\<forall>t \<in> set (finished s) \<union> set (concat (map ran_tasks (workers s))). futures s ! snd t \<noteq> None)"


lemma set_concat_map_update:
  "set (concat (map g (xs[i := x]))) \<subseteq> set (g x) \<union> set (concat (map g xs))"
  by (induction xs arbitrary: i) (auto split: nat.splits)

lemma set_concat_map_nth:
  "i < length xs \<Longrightarrow> set (g (xs ! i)) \<subseteq> set (concat (map g xs))"
  by (auto intro!: bexI [of _ "xs ! i"])

lemma ran_update_map:
  "notify_one ws ws' \<Longrightarrow> map ran_tasks ws' = map ran_tasks ws"
  using notify_one_map [of ws ws' ran_tasks] by simp

lemma store_inv_ready:
  "store_inv f as s \<Longrightarrow> t \<in> set (finished s) \<union> set (concat (map ran_tasks (workers s))) \<Longrightarrow>
   futures s ! snd t \<noteq> None"
  unfolding store_inv_def by blast

lemma store_inv_value:
  "store_inv f as s \<Longrightarrow> k < length as \<Longrightarrow> futures s ! k \<noteq> None \<Longrightarrow>
   \<exists>d. futures s ! k = Some (snd (f (as ! k) d))"
  unfolding store_inv_def by (elim conjE allE [of _ k]) auto

lemma store_inv_mono:
  assumes "store_inv f as s" "futures s' = futures s"
    "set (finished s') \<union> set (concat (map ran_tasks (workers s'))) \<subseteq>
     set (finished s) \<union> set (concat (map ran_tasks (workers s)))"
  shows "store_inv f as s'"
proof -
  have "\<forall>u \<in> set (finished s) \<union> set (concat (map ran_tasks (workers s))). futures s ! snd u \<noteq> None"
    using assms(1) unfolding store_inv_def by (elim conjE)
  with assms(3) have "\<forall>u \<in> set (finished s') \<union> set (concat (map ran_tasks (workers s'))).
      futures s' ! snd u \<noteq> None" unfolding assms(2) by blast
  with assms(1,2) show ?thesis unfolding store_inv_def by simp
qed

lemma store_inv_step:
  assumes "pool_step (run_packaged f) sp s s'" "store_inv f as s" "task_inv s"
    "set (submitted s) \<subseteq> set (zip as [0..<length as])"
  shows "store_inv f as s'"
  using assms
proof (induction rule: pool_step.induct)
  case (main_push s t ops ws)
  then show ?case by (simp add: store_inv_def ran_update_map)
next
  case (main_notify_all s ops)
  then show ?case by (simp add: store_inv_def wake_all_map [where f = ran_tasks])
next
  case (worker_submit i s t c cs ws)
  then show ?case by (simp add: store_inv_def ran_update_map map_update_same)
next
  case (worker_run i s t d' cs)
  obtain a k where t: "t = (a, k)" by (cases t)
  obtain d fs where ds: "data s = (d, fs)" by (cases "data s")
  obtain d1 r where fr: "f a d = (d1, r)" by (cases "f a d")
  have "t \<in> set (zip as [0..<length as])"
    using running_submitted [of s i t] worker_run by auto
  then have k: "k < length as" "a = as ! k" using t by (auto simp: set_zip)
  have new: "d' = (d1, fs[k := Some r])"
    using worker_run.hyps(3) t ds fr by simp
  have old: "length fs = length as"
    "\<And>j. j < length as \<Longrightarrow> fs ! j = None \<or> (\<exists>d. fs ! j = Some (snd (f (as ! j) d)))"
    "\<And>u. u \<in> set (finished s) \<union> set (concat (map ran_tasks (workers s))) \<Longrightarrow> fs ! snd u \<noteq> None"
    using worker_run.prems(1) ds by (simp_all add: store_inv_def)
  have sound: "r = snd (f (as ! k) d)" using fr k by simp
  have sub: "set (concat (map ran_tasks ((workers s)[i := WRun t cs]))) \<subseteq>
        insert t (set (concat (map ran_tasks (workers s))))"
    using set_concat_map_update [of ran_tasks "workers s" i "WRun t cs"] by simp
  have vals: "\<forall>j < length as. fs[k := Some r] ! j = None \<or>
                (\<exists>d. fs[k := Some r] ! j = Some (snd (f (as ! j) d)))"
  proof (intro allI impI)
    fix j
    assume j: "j < length as"
    show "fs[k := Some r] ! j = None \<or> (\<exists>d. fs[k := Some r] ! j = Some (snd (f (as ! j) d)))"
    proof (cases "j = k")
      case True
      then show ?thesis using sound old(1) j by auto
    next
      case False
      then show ?thesis using old(2) [OF j] by simp
    qed
  qed
  have ready: "\<forall>u \<in> set (finished s) \<union> set (concat (map ran_tasks ((workers s)[i := WRun t cs]))).
                 fs[k := Some r] ! snd u \<noteq> None"
  proof
    fix u
    assume u: "u \<in> set (finished s) \<union> set (concat (map ran_tasks ((workers s)[i := WRun t cs])))"
    show "fs[k := Some r] ! snd u \<noteq> None"
    proof (cases "snd u = k")
      case True
      then show ?thesis using k(1) old(1) by simp
    next
      case False
      then have "u \<in> set (finished s) \<union> set (concat (map ran_tasks (workers s)))"
        using u sub t by auto
      with False show ?thesis using old(3) by simp
    qed
  qed
  show ?case unfolding store_inv_def using vals ready old(1) by (simp add: new)
next
  case (worker_return i s t)
  have "t \<in> set (concat (map ran_tasks (workers s)))"
    using set_concat_map_nth [of i "workers s" ran_tasks] worker_return.hyps by simp
  moreover have "set (concat (map ran_tasks ((workers s)[i := WRelock]))) \<subseteq>
        set (concat (map ran_tasks (workers s)))"
    using set_concat_map_update [of ran_tasks "workers s" i WRelock] by simp
  ultimately show ?case
    by (intro store_inv_mono [OF worker_return.prems(1)]) auto
qed (simp_all add: store_inv_def map_update_same)


lemma map_eq_all_nil:
  "map g ws' = map g ws \<Longrightarrow> \<forall>w \<in> set ws. g w = [] \<Longrightarrow> \<forall>w \<in> set ws'. g w = []"
  by (metis (mono_tags, lifting) imageE image_eqI list.set_map)

lemma no_pending_step:
  assumes "pool_step exec sp s s'" "\<And>t d. snd (exec t d) = []"
    "\<forall>w \<in> set (workers s). pending w = []"
  shows "\<forall>w \<in> set (workers s'). pending w = []"
  using assms
proof (induction rule: pool_step.induct)
  case (main_push s t ops ws)
  then show ?case using notify_one_map [of "workers s" ws pending] map_eq_all_nil by simp
next
  case (main_notify_all s ops)
  then show ?case using wake_all_map [of pending "workers s"] map_eq_all_nil by simp
next
  case (worker_submit i s t c cs ws)
  then show ?case by (metis list.distinct(1) nth_mem pending.simps(1))
next
  case (worker_run i s t d' cs)
  then have "cs = []" by (metis snd_conv)
  with worker_run show ?case by (auto dest: set_update_subset_insert [THEN subsetD])
qed (auto dest: set_update_subset_insert [THEN subsetD])

lemma pushes_ret_prog: "pushes (ret_prog as) = zip as [0..<length as]"
proof -
  have "pushes (map Push xs) = xs" for xs :: "('a \<times> nat) list" by (induction xs) simp_all
  then show ?thesis by (simp add: ret_prog_def)
qed

lemma pushes_destructor_ops: "pushes destructor_ops = []"
  by (simp add: destructor_ops_def)

lemma pushes_ret_test_prog: "pushes (ret_test_prog as) = zip as [0..<length as]"
  by (simp add: ret_test_prog_def pushes_ret_prog pushes_destructor_ops)

lemma prog_inv_submitted:
  assumes "prog_inv (ret_test_prog as) s"
  shows "set (submitted s) \<subseteq> set (zip as [0..<length as])"
proof -
  obtain pre where "ret_test_prog as = pre @ prog s" "submitted s = pushes pre"
    using assms by (auto simp: prog_inv_def)
  then have "set (submitted s) \<subseteq> set (pushes (ret_test_prog as))" by simp
  then show ?thesis by (simp add: pushes_ret_test_prog)
qed

lemma run_packaged_submits_nothing: "snd (run_packaged f t d) = []"
  by (cases t; cases d) (simp split: prod.splits)

lemma reachable_store_inv:
  assumes "reachable (run_packaged f) sp n (ret_test_prog as) (ret_init as d) s"
  shows "prog_inv (ret_test_prog as) s \<and> (\<forall>w \<in> set (workers s). pending w = []) \<and>
         store_inv f as s"
  using assms
proof (induction rule: reachable.induct)
  case init
  have "prog_inv (ret_test_prog as) (pool_init n (ret_test_prog as) (ret_init as d))"
    unfolding prog_inv_def pool_init_def by (rule exI [of _ "[]"]) simp
  then show ?case by (simp add: pool_init_def store_inv_def ret_init_def)
next
  case (step s s')
  have np: "\<And>t d. snd (run_packaged f t d) = []" by (rule run_packaged_submits_nothing)
  from step.IH have "concat (map pending (workers s)) = []" by simp
  with step.hyps(2) step.IH have "prog_inv (ret_test_prog as) s'" by (simp add: prog_inv_step)
  moreover have "\<forall>w \<in> set (workers s'). pending w = []"
    using no_pending_step [OF step.hyps(2) np] step.IH by simp
  moreover have "store_inv f as s'"
    using store_inv_step [OF step.hyps(2)] step.IH reachable_invs [OF step.hyps(1)]
      prog_inv_submitted by blast
  ultimately show ?case by simp
qed


lemma ret_prog_no_wait: "Wait \<notin> set (ret_prog as)"
  by (auto simp: ret_prog_def)

lemma pushes_before_wait:
  assumes "ret_test_prog as = pre @ Wait # ops"
  shows "pushes pre = zip as [0..<length as]"
proof -
  have "pushes ops = []"
  proof -
    from assms obtain us where
      "ret_prog as = pre @ us \<and> us @ destructor_ops = Wait # ops \<or>
       ret_prog as @ us = pre \<and> destructor_ops = us @ Wait # ops"
      unfolding ret_test_prog_def by (auto simp: append_eq_append_conv2)
    then show ?thesis
    proof
      assume a: "ret_prog as = pre @ us \<and> us @ destructor_ops = Wait # ops"
      then have "us = []" using ret_prog_no_wait [of as] by (cases us) auto
      with a have "ops = [SetShutdown, NotifyAll, DestroyMembers, JoinAll]"
        by (simp add: destructor_ops_def)
      then show ?thesis by simp
    next
      assume "ret_prog as @ us = pre \<and> destructor_ops = us @ Wait # ops"
      then have "pushes (us @ Wait # ops) = []" by (metis pushes_destructor_ops)
      then show ?thesis by simp
    qed
  qed
  then have "pushes (ret_test_prog as) = pushes pre" using assms by simp
  then show ?thesis by (simp add: pushes_ret_test_prog)
qed


lemma running_not_ran: "t \<in># running w \<Longrightarrow> t \<notin> set (ran_tasks w) \<Longrightarrow> w = WCall t"
  by (cases w) auto

lemma mem_sum_list_map:
  "x \<in># sum_list (map g xs) \<Longrightarrow> \<exists>y \<in> set xs. x \<in># g y"
  by (induction xs) auto

lemma ret_submitted_all:
  assumes "reachable (run_packaged f) sp n (ret_test_prog as) (ret_init as d) s"
    "prog s = Wait # ops"
  shows "submitted s = zip as [0..<length as]"
proof -
  obtain pre where "ret_test_prog as = pre @ prog s" "submitted s = pushes pre"
    using reachable_store_inv [OF assms(1)] by (auto simp: prog_inv_def)
  with assms(2) show ?thesis using pushes_before_wait by simp
qed

text \<open>A pushed task whose future is not ready is queued or about to be called.\<close>

lemma unready_pending:
  assumes "reachable (run_packaged f) sp n (ret_test_prog as) (ret_init as d) s"
    "t \<in> set (submitted s)" "futures s ! snd t = None"
  shows "task_queue s \<noteq> [] \<or> 0 < active s"
proof -
  have inv: "store_inv f as s" "task_inv s" "active_inv s"
    using reachable_store_inv [OF assms(1)] reachable_invs [OF assms(1)] by simp_all
  have fin: "t \<notin> set (finished s)" "t \<notin> set (concat (map ran_tasks (workers s)))"
    using store_inv_ready [OF inv(1)] assms(3) by blast+
  have "t \<in># mset (task_queue s) + sum_list (map running (workers s)) + mset (finished s)"
    using inv(2) assms(2) by (simp add: task_inv_def flip: set_mset_mset)
  with fin(1) consider "t \<in> set (task_queue s)" | "t \<in># sum_list (map running (workers s))"
    by auto
  then show ?thesis
  proof cases
    case 1
    then show ?thesis by auto
  next
    case 2
    then obtain w where w: "w \<in> set (workers s)" "t \<in># running w" by (blast dest: mem_sum_list_map)
    moreover have "t \<notin> set (ran_tasks w)" using fin(2) w(1) by auto
    ultimately have "w = WCall t" using w(2) by (simp add: running_not_ran)
    have "draining w \<le> active s"
      using member_le_sum_list_map [OF w(1), of draining] inv(3) by (simp add: active_inv_def)
    with \<open>w = WCall t\<close> show ?thesis by simp
  qed
qed


lemma f_with_ret_outcome: "snd (f_with_ret a d) = Value (fst a + snd a)"
  by (cases a; cases d) simp

lemma destructor_wait_submitted:
  assumes "reachable (run_packaged f) False n (ret_test_prog as) (ret_init as d) s"
    "pool_step (run_packaged f) False s s'" "prog s = Wait # ops" "prog s' = ops"
  shows "mset (finished s') = mset (zip as [0..<length as])"
proof -
  have q: "task_queue s' = []" "list_all (\<lambda>w. \<not> busy w) (workers s')" "task_inv s'"
    using quiescent_after_wait [OF assms] by simp_all
  have "submitted s' = submitted s" using wait_step_disj [OF assms(2-4)] by auto
  then have "submitted s' = zip as [0..<length as]" using ret_submitted_all [OF assms(1,3)] by simp
  with q show ?thesis by (simp add: task_inv_def idle_workers_run_nothing)
qed

lemma set_concat_map_update_sup:
  assumes "i < length xs"
  shows "set (concat (map g xs)) \<subseteq> set (g (xs ! i)) \<union> set (concat (map g (xs[i := x])))"
proof
  fix z
  assume "z \<in> set (concat (map g xs))"
  then obtain y where "y \<in> set xs" "z \<in> set (g y)" by auto
  then obtain j where j: "j < length xs" "z \<in> set (g (xs ! j))" by (metis in_set_conv_nth)
  show "z \<in> set (g (xs ! i)) \<union> set (concat (map g (xs[i := x])))"
  proof (cases "j = i")
    case True
    with j show ?thesis by simp
  next
    case False
    then have "xs[i := x] ! j = xs ! j" by simp
    moreover have "xs[i := x] ! j \<in> set (xs[i := x])" using j(1) by (simp add: nth_mem)
    ultimately show ?thesis using j(2) by auto
  qed
qed

text \<open>The tasks that have run or finished only accumulate.\<close>

lemma done_mono:
  assumes "pool_step exec sp s s'"
  shows "set (finished s) \<union> set (concat (map ran_tasks (workers s))) \<subseteq>
         set (finished s') \<union> set (concat (map ran_tasks (workers s')))"
  using assms
proof (induction rule: pool_step.induct)
  case (main_push s t ops ws)
  then show ?case by (simp add: ran_update_map)
next
  case (main_notify_all s ops)
  then show ?case by (simp add: wake_all_map [where f = ran_tasks])
next
  case (worker_submit i s t c cs ws)
  then show ?case by (simp add: ran_update_map map_update_same)
next
  case (worker_run i s t d' cs)
  then show ?case
    using set_concat_map_update_sup [of i "workers s" ran_tasks "WRun t cs"] by auto
next
  case (worker_return i s t)
  then show ?case
    using set_concat_map_update_sup [of i "workers s" ran_tasks WRelock] by auto
qed (simp_all add: map_update_same)


text \<open>A ready shared state belongs to a task that has run.\<close>

definition ready_ran :: "'a list \<Rightarrow> ('a \<times> nat, ('d, 'r) store) pool \<Rightarrow> bool" where
  "ready_ran as s \<longleftrightarrow>
     (\<forall>k < length as. futures s ! k \<noteq> None \<longrightarrow>
        (as ! k, k) \<in> set (finished s) \<union> set (concat (map ran_tasks (workers s))))"

lemma ready_ran_mono:
  "ready_ran as s \<Longrightarrow> futures s' = futures s \<Longrightarrow>
   set (finished s) \<union> set (concat (map ran_tasks (workers s))) \<subseteq>
   set (finished s') \<union> set (concat (map ran_tasks (workers s'))) \<Longrightarrow> ready_ran as s'"
  unfolding ready_ran_def by (metis (no_types, lifting) subsetD)

lemma ready_ran_step:
  assumes "pool_step (run_packaged f) sp s s'" "ready_ran as s" "task_inv s"
    "set (submitted s) \<subseteq> set (zip as [0..<length as])"
  shows "ready_ran as s'"
proof -
  have mono: "set (finished s) \<union> set (concat (map ran_tasks (workers s))) \<subseteq>
      set (finished s') \<union> set (concat (map ran_tasks (workers s')))"
    by (rule done_mono [OF assms(1)])
  show ?thesis
    using assms(1) assms(2-4) mono
  proof (induction rule: pool_step.induct)
    case (worker_run i s t d' cs)
    obtain a k where t: "t = (a, k)" by (cases t)
    obtain d fs where ds: "data s = (d, fs)" by (cases "data s")
    obtain d1 r where fr: "f a d = (d1, r)" by (cases "f a d")
    have "t \<in> set (zip as [0..<length as])"
      using running_submitted [of s i t] worker_run by auto
    then have k: "k < length as" "a = as ! k" using t by (auto simp: set_zip)
    have new: "d' = (d1, fs[k := Some r])" using worker_run.hyps(3) t ds fr by simp
    have tin: "t \<in> set (concat (map ran_tasks ((workers s)[i := WRun t cs])))"
      using set_concat_map_nth [of i "(workers s)[i := WRun t cs]" ran_tasks] worker_run.hyps(1)
      by simp
    show ?case
      unfolding ready_ran_def
    proof (intro allI impI)
      fix j
      assume j: "j < length as" and rd: "futures (s\<lparr>data := d', workers := (workers s)[i := WRun t cs]\<rparr>) ! j \<noteq> None"
      show "(as ! j, j) \<in> set (finished (s\<lparr>data := d', workers := (workers s)[i := WRun t cs]\<rparr>)) \<union>
             set (concat (map ran_tasks (workers (s\<lparr>data := d', workers := (workers s)[i := WRun t cs]\<rparr>))))"
      proof (cases "j = k")
        case True
        then show ?thesis using tin t k(2) by simp
      next
        case False
        then have "futures s ! j \<noteq> None" using rd new ds by simp
        then show ?thesis using worker_run.prems(1) worker_run.prems(4) j
          unfolding ready_ran_def by blast
      qed
    qed
  qed (rule ready_ran_mono, assumption, simp, assumption)+
qed


text \<open>With \<open>f_with_ret\<close>, the call counter counts the tasks that have run.\<close>

definition ret_count_inv :: "size_t \<Rightarrow>
    ((size_t \<times> size_t) \<times> nat, (size_t \<times> size_t \<times> size_t, size_t) store) pool \<Rightarrow> bool" where
  "ret_count_inv c s \<longleftrightarrow>
     fst (fst (data s)) = c + word_of_nat (length (finished s) + sum_list (map in_task (workers s)))"

lemma ret_count_inv_step:
  assumes "pool_step (run_packaged f_with_ret) sp s s'" "ret_count_inv c s"
  shows "ret_count_inv c s'"
  using assms
proof (induction rule: pool_step.induct)
  case (main_push s t ops ws)
  then show ?case by (simp add: ret_count_inv_def notify_one_map [where f = in_task])
next
  case (main_notify_all s ops)
  then show ?case by (simp add: ret_count_inv_def wake_all_map [where f = in_task])
next
  case (worker_submit i s t c' cs ws)
  then show ?case by (simp add: ret_count_inv_def notify_one_map [where f = in_task] map_update_same)
next
  case (worker_run i s t d' cs)
  obtain a0 a1 k where t: "t = ((a0, a1), k)" by (metis surj_pair)
  obtain c0 x0 x1 fs where ds: "data s = ((c0, x0, x1), fs)" by (metis surj_pair)
  have "fst d' = (c0 + 1, a0, a1)" using worker_run.hyps(3) t ds by auto
  with worker_run ds show ?case
    by (simp add: ret_count_inv_def map_update_same sum_list_map_update_nat)
next
  case (worker_return i s t)
  then have "in_task (workers s ! i) \<le> sum_list (map in_task (workers s))"
    by (intro elem_le_sum_list_map)
  with worker_return show ?case
    by (simp add: ret_count_inv_def map_update_same sum_list_map_update_nat)
qed (simp_all add: ret_count_inv_def map_update_same)

lemma in_task_le_running: "sum_list (map in_task ws) \<le> size (sum_list (map running ws))"
proof (induction ws)
  case Nil
  then show ?case by simp
next
  case (Cons w ws)
  have "in_task w \<le> size (running w)" by (cases w) simp_all
  with Cons show ?case by simp
qed

lemma length_ran_tasks: "length (concat (map ran_tasks ws)) = sum_list (map in_task ws)"
proof (induction ws)
  case Nil
  then show ?case by simp
next
  case (Cons w ws)
  have "length (ran_tasks w) = in_task w" by (cases w) simp_all
  with Cons show ?case by simp
qed

lemma started_le_submitted:
  "task_inv s \<Longrightarrow> length (finished s) + sum_list (map in_task (workers s)) \<le> length (submitted s)"
  using in_task_le_running [of "workers s"] size_mset [of "submitted s"]
  by (simp add: task_inv_def flip: size_mset)

lemma all_ready_started:
  assumes "ready_ran as s" "length (futures s) = length as" "list_all (\<lambda>x. x \<noteq> None) (futures s)"
  shows "length as \<le> length (finished s) + sum_list (map in_task (workers s))"
proof -
  have "set (zip as [0..<length as]) \<subseteq> set (finished s) \<union> set (concat (map ran_tasks (workers s)))"
    using assms unfolding ready_ran_def by (auto simp: set_zip list_all_length)
  then have "card (set (zip as [0..<length as])) \<le>
             card (set (finished s) \<union> set (concat (map ran_tasks (workers s))))"
    by (intro card_mono) simp_all
  also have "\<dots> \<le> card (set (finished s)) + card (set (concat (map ran_tasks (workers s))))"
    by (rule card_Un_le)
  also have "\<dots> \<le> length (finished s) + length (concat (map ran_tasks (workers s)))"
    by (intro add_mono card_length)
  finally show ?thesis
    by (simp add: length_ran_tasks distinct_card distinct_zipI2)
qed


lemma reachable_ready_ran:
  "reachable (run_packaged f) sp n (ret_test_prog as) (ret_init as d) s \<Longrightarrow> ready_ran as s"
proof (induction rule: reachable.induct)
  case init
  then show ?case by (simp add: ready_ran_def pool_init_def ret_init_def)
next
  case (step s s')
  show ?case
    using ready_ran_step [OF step.hyps(2) step.IH] reachable_invs [OF step.hyps(1)]
      prog_inv_submitted reachable_store_inv [OF step.hyps(1)] by blast
qed

lemma reachable_ret_count:
  "reachable (run_packaged f_with_ret) sp n ops (ret_init as (c, x0, x1)) s \<Longrightarrow> ret_count_inv c s"
proof (induction rule: reachable.induct)
  case init
  have "map in_task (replicate n (WStart :: ((size_t \<times> size_t) \<times> nat) wpc)) = replicate n 0" by simp
  then show ?case by (simp add: ret_count_inv_def pool_init_def ret_init_def sum_list_replicate)
next
  case (step s s')
  from step.hyps(2) step.IH show ?case by (rule ret_count_inv_step)
qed

lemma ret_submitted_le:
  assumes "reachable (run_packaged f) sp n (ret_test_prog as) (ret_init as d) s"
  shows "length (submitted s) \<le> length as"
proof -
  obtain pre where "ret_test_prog as = pre @ prog s" "submitted s = pushes pre"
    using reachable_store_inv [OF assms] by (auto simp: prog_inv_def)
  then have "length (pushes (ret_test_prog as)) = length (submitted s) + length (pushes (prog s))"
    by (metis length_append pushes_append)
  then show ?thesis by (simp add: pushes_ret_test_prog)
qed


section \<open>Properties of the result-returning push\<close>

text \<open>
  Claim C17: round trip of \<open>push\<close> and \<open>get()\<close>.  For a function whose outcome
  depends only on its arguments, whenever the future of the \<open>k\<close>-th push is
  ready (so \<open>get()\<close> returns), \<open>get()\<close> returns the function's value on the
  \<open>k\<close>-th arguments, or rethrows the exception it threw; this holds in every
  interleaving, with or without spurious wake-ups.
\<close>

theorem push_get_roundtrip:
  assumes "reachable (run_packaged f) sp n (ret_test_prog as) (ret_init as d) s"
    "k < length as" "futures s ! k \<noteq> None" "\<And>a d. snd (f a d) = out a"
  shows "future_get (futures s ! k) = future_get (Some (out (as ! k)))"
proof -
  obtain d' where "futures s ! k = Some (snd (f (as ! k) d'))"
    using store_inv_value reachable_store_inv [OF assms(1)] assms(2,3) by blast
  with assms(4) show ?thesis by simp
qed

theorem push_get_roundtrip_witness:
  "\<exists>s. reachable (run_packaged f_with_ret) False 1 (ret_test_prog [(123, 456)])
         (ret_init [(123, 456)] (0, 0, 0)) s \<and>
       future_get (futures s ! 0) = Some (Inr (579 :: size_t))"
proof -
  let ?s = "\<lparr>task_queue = [], active = 1, shutdown_request = False, lock = None,
     workers = [WRun ((123, 456), 0) []], prog = destructor_ops, mstate = MRun,
     destroyed = False, data = ((1, 123, 456), [Some (Value 579)]),
     submitted = [((123, 456), 0)], finished = []\<rparr> ::
     ((size_t \<times> size_t) \<times> nat, (size_t \<times> size_t \<times> size_t, size_t) store) pool"
  have r: "reachable (run_packaged f_with_ret) False 1 (ret_test_prog [(123, 456)])
             (ret_init [(123, 456)] (0, 0, 0)) ?s"
    by (rule run_sched_init [where as = "[AMain, AWorker 0, AWorker 0, AWorker 0]"])
       (simp add: pool_init_def main_step_def worker_step_def notify_one_fn_def ret_test_prog_def
         ret_prog_def ret_init_def destructor_ops_def)
  have "future_get (futures ?s ! 0) =
        future_get (Some ((\<lambda>a. Value (fst a + snd a)) ([(123, 456)] ! 0)))"
    by (rule push_get_roundtrip [OF r]) (simp_all add: f_with_ret_outcome)
  with r show ?thesis by auto
qed

text \<open>
  Claim C18: after the destructor's \<open>wait()\<close> returns (without spurious
  wake-ups), every future returned by the caller's pushes is ready, so its
  \<open>get()\<close> does not block.
\<close>

theorem destructor_wait_futures_ready:
  assumes "reachable (run_packaged f) False n (ret_test_prog as) (ret_init as d) s"
    "pool_step (run_packaged f) False s s'" "prog s = Wait # ops" "prog s' = ops"
    "k < length as"
  shows "futures s' ! k \<noteq> None"
proof -
  have "(as ! k, k) \<in> set (zip as [0..<length as])"
    using assms(5) by (auto simp: set_zip intro!: exI [of _ k])
  then have "(as ! k, k) \<in> set (finished s')"
    using destructor_wait_submitted [OF assms(1-4)] by (metis set_mset_mset)
  moreover have "store_inv f as s'"
    using reachable_store_inv [OF reachable.step [OF assms(1,2)]] by simp
  ultimately show ?thesis using store_inv_ready by fastforce
qed

theorem destructor_wait_futures_ready_witness:
  "\<exists>s s'. reachable (run_packaged f_with_ret) False 1 (ret_test_prog [(123, 456)])
            (ret_init [(123, 456)] (0, 0, 0)) s \<and>
          pool_step (run_packaged f_with_ret) False s s' \<and>
          prog s = Wait # tl destructor_ops \<and> prog s' = tl destructor_ops \<and>
          futures s' ! 0 \<noteq> None \<and> future_get (futures s' ! 0) = Some (Inr (579 :: size_t))"
proof -
  let ?s = "\<lparr>task_queue = [], active = 0, shutdown_request = False, lock = None,
     workers = [WSleep], prog = destructor_ops, mstate = MRun,
     destroyed = False, data = ((1, 123, 456), [Some (Value 579)]),
     submitted = [((123, 456), 0)], finished = [((123, 456), 0)]\<rparr> ::
     ((size_t \<times> size_t) \<times> nat, (size_t \<times> size_t \<times> size_t, size_t) store) pool"
  let ?s' = "?s\<lparr>prog := tl destructor_ops\<rparr>"
  have r: "reachable (run_packaged f_with_ret) False 1 (ret_test_prog [(123, 456)])
             (ret_init [(123, 456)] (0, 0, 0)) ?s"
    by (rule run_sched_init [where as = "[AMain, AWorker 0, AWorker 0, AWorker 0, AWorker 0,
          AWorker 0, AWorker 0, AWorker 0, AWorker 0]"])
       (simp add: pool_init_def main_step_def worker_step_def notify_one_fn_def ret_test_prog_def
         ret_prog_def ret_init_def destructor_ops_def)
  have st: "pool_step (run_packaged f_with_ret) False ?s ?s'"
    by (rule pool_step.main_wait_return) (simp_all add: destructor_ops_def)
  have p: "prog ?s = Wait # tl destructor_ops" by (simp add: destructor_ops_def)
  have "futures ?s' ! 0 \<noteq> None"
    by (rule destructor_wait_futures_ready [OF r st p]) simp_all
  with r st p show ?thesis by (intro exI [of _ ?s] exI [of _ ?s']) simp
qed

text \<open>
  Claim C19: a caller blocked in \<open>get()\<close> is never deadlocked.  If the task of
  a pushed future has not stored its outcome yet, a pool with at least one
  worker and no shutdown request always has a worker thread that can take a
  step (without relying on spurious wake-ups).
\<close>

theorem get_blocked_worker_moves:
  assumes "reachable (run_packaged f) False n (ret_test_prog as) (ret_init as d) s" "0 < n"
    "\<not> shutdown_request s" "t \<in> set (submitted s)" "futures s ! snd t = None"
  shows "\<exists>i s'. worker_step (run_packaged f) i s = Some s'"
  using unready_pending [OF assms(1,4,5)] pending_work_unparked [OF assms(1-3)]
    some_worker_moves reachable_invs [OF assms(1)] by blast

theorem get_blocked_worker_moves_witness:
  "\<exists>s. reachable (run_packaged f_with_ret) False 1 (ret_test_prog [(123, 456)])
         (ret_init [(123, 456)] (0, 0, 0)) s \<and>
       ((123, 456), 0) \<in> set (submitted s) \<and> futures s ! 0 = (None :: size_t outcome option) \<and>
       (\<exists>i s'. worker_step (run_packaged f_with_ret) i s = Some s')"
proof -
  let ?s = "\<lparr>task_queue = [((123, 456), 0)], active = 0, shutdown_request = False, lock = None,
     workers = [WStart], prog = destructor_ops, mstate = MRun,
     destroyed = False, data = ((0, 0, 0), [None]),
     submitted = [((123, 456), 0)], finished = []\<rparr> ::
     ((size_t \<times> size_t) \<times> nat, (size_t \<times> size_t \<times> size_t, size_t) store) pool"
  have r: "reachable (run_packaged f_with_ret) False 1 (ret_test_prog [(123, 456)])
             (ret_init [(123, 456)] (0, 0, 0)) ?s"
    by (rule run_sched_init [where as = "[AMain]"])
       (simp add: pool_init_def main_step_def notify_one_fn_def ret_test_prog_def
         ret_prog_def ret_init_def destructor_ops_def)
  have "\<exists>i s'. worker_step (run_packaged f_with_ret) i ?s = Some s'"
    by (rule get_blocked_worker_moves [OF r, of "((123, 456), 0)"]) simp_all
  with r show ?thesis by (intro exI [of _ ?s]) simp
qed

text \<open>
  Claim C25: the test \<open>test_a_few_calls_with_ret\<close> (mt_test.cpp, lines
  154--174), for any number of workers and any interleaving, with or without
  spurious wake-ups: once the four futures are ready, their \<open>get()\<close> calls
  return the four sums and \<open>f_with_ret\<close> has been called exactly four times.
\<close>

theorem ret_test_gets:
  assumes "reachable (run_packaged f_with_ret) sp n (ret_test_prog ret_test_args)
             (ret_init ret_test_args (c, x0, x1)) s"
    "list_all (\<lambda>x. x \<noteq> None) (futures s)"
  shows "map future_get (futures s) = [Some (Inr 579), Some (Inr 5801), Some (Inr 58023), Some (Inr 333)] \<and>
         fst (fst (data s)) = c + 4"
proof -
  have inv: "store_inv f_with_ret ret_test_args s" "ready_ran ret_test_args s" "ret_count_inv c s"
    "task_inv s"
    using reachable_store_inv [OF assms(1)] reachable_ready_ran [OF assms(1)]
      reachable_ret_count [OF assms(1)] reachable_invs [OF assms(1)] by simp_all
  have len: "length (futures s) = length ret_test_args" using inv(1) by (simp add: store_inv_def)
  have "futures s ! k = Some (Value (fst (ret_test_args ! k) + snd (ret_test_args ! k)))"
    if k: "k < length ret_test_args" for k
  proof -
    have "futures s ! k \<noteq> None" using assms(2) k len by (simp add: list_all_length)
    then obtain d where "futures s ! k = Some (snd (f_with_ret (ret_test_args ! k) d))"
      using store_inv_value [OF inv(1) k] by blast
    then show ?thesis by (simp add: f_with_ret_outcome)
  qed
  then have fs: "futures s = map (\<lambda>a. Some (Value (fst a + snd a))) ret_test_args"
    using len by (intro nth_equalityI) simp_all
  have "length ret_test_args \<le> length (finished s) + sum_list (map in_task (workers s))"
    using all_ready_started [OF inv(2) len assms(2)] .
  moreover have "length (finished s) + sum_list (map in_task (workers s)) \<le> length ret_test_args"
    using started_le_submitted [OF inv(4)] ret_submitted_le [OF assms(1)] by simp
  ultimately have "length (finished s) + sum_list (map in_task (workers s)) = 4"
    by (simp add: ret_test_args_def)
  with inv(3) have "fst (fst (data s)) = c + 4" by (simp add: ret_count_inv_def)
  with fs show ?thesis by (simp add: ret_test_args_def)
qed

theorem ret_test_gets_witness:
  "\<exists>s. reachable (run_packaged f_with_ret) False 1 (ret_test_prog ret_test_args)
         (ret_init ret_test_args (0, 0, 0)) s \<and> list_all (\<lambda>x. x \<noteq> None) (futures s) \<and>
       map future_get (futures s) = [Some (Inr 579), Some (Inr 5801), Some (Inr 58023), Some (Inr 333)] \<and>
       fst (fst (data s)) = 4"
proof -
  let ?s = "\<lparr>task_queue = [], active = 1, shutdown_request = False, lock = None,
     workers = [WRelock], prog = destructor_ops, mstate = MRun, destroyed = False,
     data = ((4, 111, 222), [Some (Value 579), Some (Value 5801), Some (Value 58023), Some (Value 333)]),
     submitted = [((123, 456), 0), ((1234, 4567), 1), ((12345, 45678), 2), ((111, 222), 3)],
     finished = [((123, 456), 0), ((1234, 4567), 1), ((12345, 45678), 2), ((111, 222), 3)]\<rparr> ::
     ((size_t \<times> size_t) \<times> nat, (size_t \<times> size_t \<times> size_t, size_t) store) pool"
  have r: "reachable (run_packaged f_with_ret) False 1 (ret_test_prog ret_test_args)
             (ret_init ret_test_args (0, 0, 0)) ?s"
    by (rule run_sched_init [where as = "[AMain, AMain, AMain, AMain, AWorker 0, AWorker 0,
          AWorker 0, AWorker 0, AWorker 0, AWorker 0, AWorker 0, AWorker 0, AWorker 0, AWorker 0,
          AWorker 0, AWorker 0, AWorker 0, AWorker 0, AWorker 0, AWorker 0]"])
       (simp add: pool_init_def main_step_def worker_step_def notify_one_fn_def ret_test_prog_def
         ret_prog_def ret_init_def destructor_ops_def ret_test_args_def)
  have "list_all (\<lambda>x. x \<noteq> None) (futures ?s)" by simp
  with ret_test_gets [OF r this] r show ?thesis by (intro exI [of _ ?s]) simp
qed

end
