(* ===== verification/TaskFailure.thy ===== *)
theory TaskFailure
  imports PoolProgress
begin

text \<open>
  A task that throws, in the fire-and-forget mode of src/thread_pool.hpp.
  \<open>worker()\<close> calls \<open>task()\<close> (line 137) with no \<open>try\<close>: an exception leaves
  \<open>worker()\<close> between \<open>active++\<close> (line 129) and \<open>active--\<close> (line 140), so the
  counter keeps the dead worker's increment for ever.  Unwinding destroys the
  \<open>unique_lock\<close> of line 125, which still believes it owns \<open>queue_mutex\<close>
  (the mutex was released directly at line 136), so its destructor unlocks a
  mutex the thread does not hold, which is undefined behaviour.  The exception
  is stored in the worker's \<open>std::future\<close> in \<open>threads\<close>, which nobody reads.

  A step of the pool with failures is a step of \<open>pool_step\<close> in which no
  throwing task returns normally, or the exceptional exit of a worker that is
  calling a throwing task.  The counter paired with the pool state is the
  number of such exits, each of which also unlocked \<open>queue_mutex\<close> without
  owning it; the effects of a task before it throws are not modelled.
\<close>

definition runs_throwing :: "('task \<Rightarrow> bool) \<Rightarrow> ('task, 'd) pool \<Rightarrow> ('task, 'd) pool \<Rightarrow> bool" where
  "runs_throwing throws s s' \<longleftrightarrow>
     (\<exists>i < length (workers s).
        case workers s ! i of WCall t \<Rightarrow> throws t \<and> workers s' ! i \<noteq> WCall t | _ \<Rightarrow> False)"

inductive fail_step :: "('task, 'd) exec \<Rightarrow> ('task \<Rightarrow> bool) \<Rightarrow> bool \<Rightarrow>
    ('task, 'd) pool \<times> nat \<Rightarrow> ('task, 'd) pool \<times> nat \<Rightarrow> bool"
  for exec :: "('task, 'd) exec" and throws :: "'task \<Rightarrow> bool" and spurious :: bool where
  run: "pool_step exec spurious s s' \<Longrightarrow> \<not> runs_throwing throws s s' \<Longrightarrow>
        fail_step exec throws spurious (s, u) (s', u)"
| throw: "i < length (workers s) \<Longrightarrow> workers s ! i = WCall t \<Longrightarrow> throws t \<Longrightarrow>
        fail_step exec throws spurious (s, u) (s\<lparr>workers := (workers s)[i := WExit]\<rparr>, Suc u)"

inductive fail_reachable :: "('task, 'd) exec \<Rightarrow> ('task \<Rightarrow> bool) \<Rightarrow> bool \<Rightarrow> nat \<Rightarrow>
    'task mop list \<Rightarrow> 'd \<Rightarrow> ('task, 'd) pool \<times> nat \<Rightarrow> bool"
  for exec :: "('task, 'd) exec" and throws :: "'task \<Rightarrow> bool" and spurious :: bool
    and n :: nat and ops :: "'task mop list" and d :: 'd where
  init: "fail_reachable exec throws spurious n ops d (pool_init n ops d, 0)"
| step: "fail_reachable exec throws spurious n ops d su \<Longrightarrow> fail_step exec throws spurious su su' \<Longrightarrow>
         fail_reachable exec throws spurious n ops d su'"

text \<open>The only task of a caller that pushes one task and waits; no other task exists.\<close>

fun calls_only :: "'task \<Rightarrow> 'task wpc \<Rightarrow> bool" where
  "calls_only t (WCall x) = (x = t)"
| "calls_only t (WRun x cs) = False"
| "calls_only t _ = True"

text \<open>While the pushed task has not run, the caller is before or inside \<open>wait()\<close>
  and the task is queued, being called, or has killed its worker.\<close>

definition hang_inv :: "'task \<Rightarrow> nat \<Rightarrow> ('task, 'd) pool \<Rightarrow> bool" where
  "hang_inv t u s \<longleftrightarrow>
     set (task_queue s) \<subseteq> {t} \<and> list_all (calls_only t) (workers s) \<and> mstate s \<noteq> MWoken \<and>
     (prog s = [Push t, Wait] \<and> mstate s = MRun \<or>
      prog s = [Wait] \<and> (t \<in> set (task_queue s) \<or> WCall t \<in> set (workers s) \<or> 0 < u))"

section \<open>The leaked increments of \<open>active\<close>\<close>

lemma fail_active_pair:
  "fail_reachable exec throws sp n ops d su \<Longrightarrow>
   active (fst su) = sum_list (map draining (workers (fst su))) + snd su"
proof (induction rule: fail_reachable.induct)
  case init
  then show ?case by (simp add: pool_init_def)
next
  case (step su su')
  from step.hyps(2) step.IH show ?case
  proof (cases rule: fail_step.cases)
    case (run s s' u)
    then show ?thesis using step.IH active_offset_step [of exec sp s s' u] by simp
  next
    case (throw i s t u)
    then have "draining (workers s ! i) \<le> sum_list (map draining (workers s))"
      by (intro elem_le_sum_list_map)
    with throw step.IH show ?thesis by (simp add: sum_list_map_update_nat)
  qed
qed

section \<open>A caller waiting for a task that throws\<close>

lemma calls_only_nth:
  "list_all (calls_only t) ws \<Longrightarrow> i < length ws \<Longrightarrow> calls_only t (ws ! i)"
  by (simp add: list_all_length)

lemma hang_inv_worker_move:
  assumes "hang_inv t u s" "i < length (workers s)" "calls_only t v"
    "\<And>x. workers s ! i \<noteq> WCall x" "\<And>x. v \<noteq> WCall x"
    "task_queue s' = task_queue s" "prog s' = prog s" "mstate s' = mstate s"
    "workers s' = (workers s)[i := v]"
  shows "hang_inv t u s'"
proof -
  have "WCall t \<in> set (workers s') \<longleftrightarrow> WCall t \<in> set (workers s)"
    using assms(2,9) assms(4) [of t] assms(5) [of t] by (simp add: set_update_other)
  moreover have "list_all (calls_only t) (workers s')"
    using assms(1,3,9) by (simp add: hang_inv_def list_all_update_keep)
  ultimately show ?thesis using assms(1,6-8) unfolding hang_inv_def by simp
qed

lemma hang_inv_push:
  assumes "hang_inv t u s" "notify_one (workers s) ws" "prog s = Push t' # ops"
  shows "hang_inv t u (s\<lparr>task_queue := task_queue s @ [t'], workers := ws, prog := ops,
          submitted := submitted s @ [t']\<rparr>)"
proof -
  have "list_all (calls_only t) ws = list_all (calls_only t) (workers s)"
    by (intro list_all_map_eq notify_one_map [OF assms(2)]) simp
  with assms(1,3) show ?thesis by (auto simp: hang_inv_def)
qed

lemma hang_inv_no_return:
  assumes "hang_inv t u s" "prog s = Wait # ops" "task_queue s = []" "active s = 0"
    "active s = sum_list (map draining (workers s)) + u"
  shows False
proof -
  have disj: "t \<in> set (task_queue s) \<or> WCall t \<in> set (workers s) \<or> 0 < u"
    using assms(1,2) unfolding hang_inv_def by (elim conjE disjE) simp_all
  have z: "sum_list (map draining (workers s)) = 0" "u = 0"
    using assms(4,5) by simp_all
  then have "WCall t \<notin> set (workers s)"
    using member_le_sum_list_map [of "WCall t" "workers s" draining]
    by (metis draining.simps(2) not_one_le_zero)
  with disj z(2) assms(3) show False by simp
qed

lemma hang_inv_pop:
  assumes "hang_inv t u s" "i < length (workers s)" "workers s ! i = WCheck" "task_queue s = t' # q"
  shows "hang_inv t u (s\<lparr>task_queue := q, lock := None, workers := (workers s)[i := WCall t']\<rparr>)"
proof -
  have "t' = t" "set q \<subseteq> {t}" "list_all (calls_only t) (workers s)"
    using assms(1,4) by (auto simp: hang_inv_def)
  moreover have "WCall t' \<in> set ((workers s)[i := WCall t'])"
    using assms(2) by (simp add: set_update_memI)
  ultimately show ?thesis using assms(1)
    by (auto simp: hang_inv_def list_all_update_keep)
qed


lemma hang_inv_idle_mstate:
  assumes "hang_inv t u s" "i < length (workers s)" "workers s ! i = WCheck" "task_queue s = []"
    "active s = sum_list (map draining (workers s)) + u"
  shows "(if active s - 1 = 0 then wake_main (mstate s) else mstate s) = mstate s"
proof (cases "mstate s = MBlocked")
  case True
  then have "WCall t \<in> set (workers s) \<or> 0 < u"
    using assms(1,4) unfolding hang_inv_def by (elim conjE disjE) simp_all
  then have "2 \<le> active s"
  proof
    assume "WCall t \<in> set (workers s)"
    then obtain j where j: "j < length (workers s)" "workers s ! j = WCall t"
      by (auto simp: in_set_conv_nth)
    then have "j \<noteq> i" using assms(3) by auto
    then have "draining (workers s ! i) + draining (workers s ! j) \<le> sum_list (map draining (workers s))"
      using two_le_sum_list_map [OF assms(2) j(1)] by simp
    with j(2) assms(3,5) show ?thesis by simp
  next
    assume "0 < u"
    moreover have "draining (workers s ! i) \<le> sum_list (map draining (workers s))"
      using assms(2) by (rule elem_le_sum_list_map)
    ultimately show ?thesis using assms(3,5) by simp
  qed
  then show ?thesis by simp
next
  case False
  then show ?thesis by (cases "mstate s") simp_all
qed


lemma hang_inv_pool_step:
  assumes "pool_step exec False s s'" "\<not> runs_throwing throws s s'" "throws t"
    "hang_inv t u s" "active s = sum_list (map draining (workers s)) + u"
  shows "hang_inv t u s'"
  using assms
proof (induction rule: pool_step.induct)
  case (main_push s t' ops ws)
  show ?case by (rule hang_inv_push [OF main_push.prems(3) main_push.hyps(4,2)])
next
  case (main_wait_return s ops)
  show ?case
    using hang_inv_no_return [OF main_wait_return.prems(3) main_wait_return.hyps(2,4,5)
        main_wait_return.prems(4)] by blast
next
  case (main_wait_block s ops)
  show ?case using main_wait_block.prems(3) main_wait_block.hyps(2)
    unfolding hang_inv_def by auto
next
  case (main_woken_return s ops)
  show ?case using main_woken_return.prems(3) main_woken_return.hyps(1)
    unfolding hang_inv_def by simp
next
  case (main_set_shutdown s ops)
  show ?case using main_set_shutdown.prems(3) main_set_shutdown.hyps(2)
    unfolding hang_inv_def by auto
next
  case (main_notify_all s ops)
  show ?case using main_notify_all.prems(3) main_notify_all.hyps(2)
    unfolding hang_inv_def by auto
next
  case (main_destroy s ops)
  show ?case using main_destroy.prems(3) main_destroy.hyps(2)
    unfolding hang_inv_def by auto
next
  case (main_join s ops)
  show ?case using main_join.prems(3) main_join.hyps(2)
    unfolding hang_inv_def by auto
next
  case (worker_start i s)
  show ?case
    by (rule hang_inv_worker_move [OF worker_start.prems(3) worker_start.hyps(1), of WCheck])
       (simp_all add: worker_start.hyps)
next
  case (worker_relock i s)
  show ?case
    by (rule hang_inv_worker_move [OF worker_relock.prems(3) worker_relock.hyps(1), of WCheck])
       (simp_all add: worker_relock.hyps)
next
  case (worker_exit i s)
  show ?case
    by (rule hang_inv_worker_move [OF worker_exit.prems(3) worker_exit.hyps(1), of WExit])
       (simp_all add: worker_exit.hyps)
next
  case (worker_stay i s)
  show ?case
    by (rule hang_inv_worker_move [OF worker_stay.prems(3) worker_stay.hyps(1), of WWaitCall])
       (simp_all add: worker_stay.hyps)
next
  case (worker_block i s)
  show ?case
    by (rule hang_inv_worker_move [OF worker_block.prems(3) worker_block.hyps(1), of WSleep])
       (simp_all add: worker_block.hyps)
next
  case (worker_woken i s)
  show ?case
    by (rule hang_inv_worker_move [OF worker_woken.prems(3) worker_woken.hyps(1), of WCheck])
       (simp_all add: worker_woken.hyps)
next
  case (worker_pop i s t' q)
  show ?case by (rule hang_inv_pop [OF worker_pop.prems(3) worker_pop.hyps])
next
  case (worker_idle i s)
  have m: "(if active s - 1 = 0 then wake_main (mstate s) else mstate s) = mstate s"
    by (rule hang_inv_idle_mstate [OF worker_idle.prems(3) worker_idle.hyps worker_idle.prems(4)])
  show ?case
    by (rule hang_inv_worker_move [OF worker_idle.prems(3) worker_idle.hyps(1), of WShut])
       (use m in \<open>simp_all add: worker_idle.hyps\<close>)
next
  case (worker_run i s t' d' cs)
  have "t' = t"
    using calls_only_nth [of t "workers s" i] worker_run.prems(3) worker_run.hyps(1,2)
    by (simp add: hang_inv_def)
  then have "runs_throwing throws s (s\<lparr>data := d', workers := (workers s)[i := WRun t' cs]\<rparr>)"
    unfolding runs_throwing_def using worker_run.hyps(1,2) worker_run.prems(2)
    by (intro exI [of _ i]) simp
  with worker_run.prems(1) show ?case by blast
next
  case (worker_submit i s t' c cs ws)
  show ?case
    using calls_only_nth [of t "workers s" i] worker_submit.prems(3) worker_submit.hyps(1,2)
    by (simp add: hang_inv_def)
next
  case (worker_return i s t')
  show ?case
    using calls_only_nth [of t "workers s" i] worker_return.prems(3) worker_return.hyps(1,2)
    by (simp add: hang_inv_def)
qed simp_all


lemma hang_inv_throw:
  assumes "hang_inv t u s" "i < length (workers s)"
  shows "hang_inv t (Suc u) (s\<lparr>workers := (workers s)[i := WExit]\<rparr>)"
proof -
  have "list_all (calls_only t) ((workers s)[i := WExit])"
    using assms(1) by (simp add: hang_inv_def list_all_update_keep)
  with assms(1) show ?thesis unfolding hang_inv_def by auto
qed

lemma fail_hang_inv:
  assumes "fail_reachable exec throws False n [Push t, Wait] d su" "throws t"
  shows "hang_inv t (snd su) (fst su)"
  using assms(1)
proof (induction rule: fail_reachable.induct)
  case init
  then show ?case by (simp add: hang_inv_def pool_init_def list_all_iff)
next
  case (step su su')
  have act: "active (fst su) = sum_list (map draining (workers (fst su))) + snd su"
    using fail_active_pair [OF step.hyps(1)] .
  from step.hyps(2) show ?case
  proof (cases rule: fail_step.cases)
    case (run s s' u)
    then show ?thesis
      using hang_inv_pool_step [of exec s s' throws t u] assms(2) step.IH act by simp
  next
    case (throw i s x u)
    then show ?thesis using hang_inv_throw step.IH by simp
  qed
qed

lemma fail_sched_step:
  "fail_reachable exec throws sp n ops d (s, u) \<Longrightarrow> sched_step exec sp a s = Some s' \<Longrightarrow>
   \<not> runs_throwing throws s s' \<Longrightarrow> fail_reachable exec throws sp n ops d (s', u)"
  by (blast intro: fail_reachable.step fail_step.run sched_step_sound)

text \<open>
  Claim C20: in fire-and-forget mode, when the one task a caller pushes throws,
  \<open>wait()\<close> never returns (without spurious wake-ups): the dead worker's
  increment of \<open>active\<close> is never undone, so the test of \<open>wait()\<close> stays true
  and \<open>wait_cv\<close> is never notified.
\<close>

theorem throwing_task_wait_hangs:
  assumes "fail_reachable exec throws False n [Push t, Wait] d (s, u)" "throws t"
  shows "prog s \<noteq> []"
  using fail_hang_inv [OF assms] by (auto simp: hang_inv_def)

theorem throwing_task_wait_hangs_witness:
  "\<exists>s. fail_reachable f_without_arg (\<lambda>_. True) False 1 [Push (), Wait] (0::nat) (s, 1) \<and>
       mstate s = MBlocked \<and> active s = 1 \<and> prog s \<noteq> []"
proof -
  let ?s1 = "(pool_init 1 [Push (), Wait] (0::nat))\<lparr>task_queue := [()], prog := [Wait],
               submitted := [()]\<rparr>"
  let ?s2 = "?s1\<lparr>lock := Some 0, active := 1, workers := [WCheck]\<rparr>"
  let ?s3 = "?s2\<lparr>task_queue := [], lock := None, workers := [WCall ()]\<rparr>"
  let ?s4 = "?s3\<lparr>workers := [WExit]\<rparr>"
  let ?s5 = "?s4\<lparr>mstate := MBlocked\<rparr>"
  have r1: "fail_reachable f_without_arg (\<lambda>_. True) False 1 [Push (), Wait] 0 (?s1, 0)"
    by (rule fail_sched_step [OF fail_reachable.init, where a = AMain])
       (simp_all add: pool_init_def main_step_def notify_one_fn_def runs_throwing_def)
  have r2: "fail_reachable f_without_arg (\<lambda>_. True) False 1 [Push (), Wait] 0 (?s2, 0)"
    by (rule fail_sched_step [OF r1, where a = "AWorker 0"])
       (simp_all add: pool_init_def worker_step_def runs_throwing_def)
  have r3: "fail_reachable f_without_arg (\<lambda>_. True) False 1 [Push (), Wait] 0 (?s3, 0)"
    by (rule fail_sched_step [OF r2, where a = "AWorker 0"])
       (simp_all add: pool_init_def worker_step_def runs_throwing_def)
  have "fail_step f_without_arg (\<lambda>_. True) False (?s3, 0) (?s3\<lparr>workers := [WCall ()][0 := WExit]\<rparr>, Suc 0)"
    using fail_step.throw [of 0 ?s3 "()" "\<lambda>_. True" f_without_arg False 0] by simp
  then have r4: "fail_reachable f_without_arg (\<lambda>_. True) False 1 [Push (), Wait] 0 (?s4, 1)"
    using fail_reachable.step [OF r3] by simp
  have r5: "fail_reachable f_without_arg (\<lambda>_. True) False 1 [Push (), Wait] 0 (?s5, 1)"
    by (rule fail_sched_step [OF r4, where a = AMain])
       (simp_all add: pool_init_def main_step_def runs_throwing_def)
  then show ?thesis using throwing_task_wait_hangs [OF r5] by (intro exI [of _ ?s5]) (simp add: pool_init_def)
qed

end
