(* ===== verification/Macros.thy ===== *)
theory Macros
  imports Prelude
begin

text \<open>
  The preprocessor macro \<open>CONSTEXPR\<close> that both algorithm headers put in
  front of their function templates (src/sort.hpp lines 45--51, src/unique.hpp
  lines 48--54, then \<open>CONSTEXPR inline void sort(...)\<close> and
  \<open>CONSTEXPR inline ForwardIt unique(...)\<close>).  Unless the user has defined it,
  it expands to the token \<open>contexpr\<close> when \<open>__cplusplus >= 201703L\<close> and to
  nothing otherwise; the header included first defines it, the other's
  \<open>#ifndef\<close> keeps that definition.  A token in front of \<open>inline\<close> in a function
  declaration must be a declaration specifier of C++; the list below is the
  keywords among them (from the C++17 grammar, not code of the repository).
\<close>

definition CONSTEXPR :: "string option \<Rightarrow> int \<Rightarrow> string" where
  "CONSTEXPR predefined cplusplus =
     (case predefined of
        Some m \<Rightarrow> m
      | None \<Rightarrow> if 201703 \<le> cplusplus then ''contexpr'' else '''')"

definition CONSTEXPR_unique :: "string option \<Rightarrow> int \<Rightarrow> string" where
  "CONSTEXPR_unique predefined cplusplus =
     (case predefined of
        Some m \<Rightarrow> m
      | None \<Rightarrow> if 201703 \<le> cplusplus then ''contexpr'' else '''')"

text \<open>src/mt_test.cpp includes sort.hpp before unique.hpp (lines 29--30).\<close>

definition CONSTEXPR_in_test :: "string option \<Rightarrow> int \<Rightarrow> string" where
  "CONSTEXPR_in_test predefined cplusplus =
     CONSTEXPR_unique (Some (CONSTEXPR predefined cplusplus)) cplusplus"

definition cxx_decl_specifier_keywords :: "string list" where
  "cxx_decl_specifier_keywords =
     [''constexpr'', ''inline'', ''static'', ''extern'', ''thread_local'', ''friend'',
      ''typedef'', ''virtual'', ''explicit'', ''mutable'', ''const'', ''volatile'']"

definition specifier_ok :: "string \<Rightarrow> bool" where
  "specifier_ok tok \<longleftrightarrow> tok = '''' \<or> tok \<in> set cxx_decl_specifier_keywords"

end
