(* ===== verification/PoolTests.thy ===== *)
theory PoolTests
  imports ThreadPool
begin

text \<open>
  The tests of src/mt_test.cpp that push a function with arguments:
  \<open>f_with_args\<close> (lines 41--50) stores its two arguments in the atomics
  \<open>f_with_args_arg0\<close> and \<open>f_with_args_arg1\<close> and increments the atomic
  \<open>f_with_args_call_count\<close>, three separate atomic operations (the diagnostic
  print is not modelled); \<open>test_one_call_with_args\<close> and
  \<open>test_a_few_calls_with_args\<close> (lines 97--132) push it with argument pairs
  and call \<open>wait()\<close>.  The calls run concurrently on the workers, so their
  statements interleave: the pool of \<open>ThreadPool\<close> runs each pushed call as a
  task whose entry into \<open>task()\<close> changes no data (\<open>call_enter\<close>), and
  \<open>args_step\<close> adds the statements of the calls being executed as steps of
  their own, one per atomic operation, in any interleaving with each other and
  with the pool.  \<open>task()\<close> returns only after the three statements of its
  call.  A pushed call is named by its position \<open>k\<close> among the pushes and
  carries its bound arguments; \<open>stmt\<close> records, per call, the statements it
  has executed.
\<close>

type_synonym args_call = "nat \<times> size_t \<times> size_t"

record args_data =
  call_count :: size_t
  arg0 :: size_t
  arg1 :: size_t
  stmt :: "nat list"

definition call_enter :: "(args_call, unit) exec" where
  "call_enter t u = ((), [])"

text \<open>The next statement of call \<open>k\<close>: line 47, 48 or 49.\<close>

fun f_with_args :: "args_call \<Rightarrow> args_data \<Rightarrow> args_data" where
  "f_with_args (k, a0, a1) g =
     (case stmt g ! k of
        0 \<Rightarrow> g\<lparr>arg0 := a0, stmt := (stmt g)[k := 1]\<rparr>
      | Suc 0 \<Rightarrow> g\<lparr>arg1 := a1, stmt := (stmt g)[k := 2]\<rparr>
      | Suc (Suc _) \<Rightarrow> g\<lparr>call_count := call_count g + 1, stmt := (stmt g)[k := 3]\<rparr>)"

definition args_init :: "size_t \<Rightarrow> size_t \<Rightarrow> size_t \<Rightarrow> nat \<Rightarrow> args_data" where
  "args_init c x0 x1 k = \<lparr>call_count = c, arg0 = x0, arg1 = x1, stmt = replicate k 0\<rparr>"

text \<open>
  A step of the pool, in which a returning \<open>task()\<close> (a call appended to
  \<open>finished\<close>) must have executed its three statements, or a statement of a
  call that a worker is executing.
\<close>

inductive args_step :: "bool \<Rightarrow> (args_call, unit) pool \<times> args_data \<Rightarrow>
    (args_call, unit) pool \<times> args_data \<Rightarrow> bool"
  for spurious :: bool where
  pool: "pool_step call_enter spurious s s' \<Longrightarrow>
     list_all (\<lambda>t. stmt g ! fst t = 3) (drop (length (finished s)) (finished s')) \<Longrightarrow>
     args_step spurious (s, g) (s', g)"
| body: "i < length (workers s) \<Longrightarrow> workers s ! i = WRun t [] \<Longrightarrow> stmt g ! fst t < 3 \<Longrightarrow>
     args_step spurious (s, g) (s, f_with_args t g)"

inductive args_reach :: "bool \<Rightarrow> nat \<Rightarrow> args_call mop list \<Rightarrow> args_data \<Rightarrow>
    (args_call, unit) pool \<times> args_data \<Rightarrow> bool"
  for spurious :: bool and n :: nat and ops :: "args_call mop list" and g0 :: args_data where
  init: "args_reach spurious n ops g0 (pool_init n ops (), g0)"
| step: "args_reach spurious n ops g0 c \<Longrightarrow> args_step spurious c c' \<Longrightarrow> args_reach spurious n ops g0 c'"

text \<open>An executable scheduler: \<open>APool a\<close> is a step of the pool's actor \<open>a\<close>,
  \<open>ABody i\<close> the next statement of the call worker \<open>i\<close> is executing.\<close>

datatype args_actor = APool actor | ABody nat

fun args_sched :: "bool \<Rightarrow> args_actor \<Rightarrow> (args_call, unit) pool \<times> args_data \<Rightarrow>
    ((args_call, unit) pool \<times> args_data) option" where
  "args_sched sp (APool a) (s, g) =
     (case sched_step call_enter sp a s of
        None \<Rightarrow> None
      | Some s' \<Rightarrow>
          if list_all (\<lambda>t. stmt g ! fst t = 3) (drop (length (finished s)) (finished s'))
          then Some (s', g) else None)"
| "args_sched sp (ABody i) (s, g) =
     (if i < length (workers s) then
        (case workers s ! i of
           WRun t [] \<Rightarrow> if stmt g ! fst t < 3 then Some (s, f_with_args t g) else None
         | _ \<Rightarrow> None)
      else None)"

fun args_run :: "bool \<Rightarrow> args_actor list \<Rightarrow> (args_call, unit) pool \<times> args_data \<Rightarrow>
    ((args_call, unit) pool \<times> args_data) option" where
  "args_run sp [] c = Some c"
| "args_run sp (a # as) c = (case args_sched sp a c of None \<Rightarrow> None | Some c' \<Rightarrow> args_run sp as c')"

section \<open>Soundness of the scheduler\<close>

lemma args_sched_sound: "args_sched sp a c = Some c' \<Longrightarrow> args_step sp c c'"
proof (cases c)
  case (Pair s g)
  assume h: "args_sched sp a c = Some c'"
  show ?thesis
  proof (cases a)
    case (APool x)
    with h Pair show ?thesis
      by (auto split: option.splits if_splits intro: args_step.pool sched_step_sound)
  next
    case (ABody i)
    with h Pair show ?thesis
      by (auto split: if_splits wpc.splits list.splits intro: args_step.body)
  qed
qed

lemma args_run_reach:
  "args_run sp as c = Some c' \<Longrightarrow> args_reach sp n ops g0 c \<Longrightarrow> args_reach sp n ops g0 c'"
proof (induction as arbitrary: c)
  case Nil
  then show ?case by simp
next
  case (Cons a as)
  then obtain c1 where "args_sched sp a c = Some c1" and "args_run sp as c1 = Some c'"
    by (auto split: option.splits)
  with Cons show ?case by (blast intro: args_reach.step args_sched_sound)
qed

section \<open>The pool underneath\<close>

lemma args_reach_pool:
  "args_reach sp n ops g0 c \<Longrightarrow> reachable call_enter sp n ops () (fst c)"
proof (induction rule: args_reach.induct)
  case init
  then show ?case by (simp add: reachable.init)
next
  case (step c c')
  from step.hyps(2) step.IH show ?case
    by (cases rule: args_step.cases) (auto intro: reachable.step)
qed

lemma pending_nil_step:
  "pool_step call_enter sp s s' \<Longrightarrow> concat (map pending (workers s)) = [] \<Longrightarrow>
   concat (map pending (workers s')) = []"
proof (induction rule: pool_step.induct)
  case (main_push s t ops ws)
  then show ?case by (simp add: notify_one_map [where f = pending])
next
  case (main_notify_all s ops)
  then show ?case by (simp add: wake_all_map [where f = pending])
next
  case (worker_run i s t d' cs)
  then have "cs = []" by (simp add: call_enter_def)
  with worker_run show ?case by (simp add: map_update_same)
next
  case (worker_submit i s t c cs ws)
  then have "pending (workers s ! i) = []" by (intro no_pending_nth)
  with worker_submit show ?case by simp
qed (simp_all add: map_update_same)

lemma submitted_grows: "pool_step exec sp s s' \<Longrightarrow> set (submitted s) \<subseteq> set (submitted s')"
  by (induction rule: pool_step.induct) auto

lemma finished_grows:
  "pool_step exec sp s s' \<Longrightarrow> finished s' = finished s @ drop (length (finished s)) (finished s')"
  by (induction rule: pool_step.induct) simp_all

lemma prog_inv_pushes: "prog_inv ops s \<Longrightarrow> set (submitted s) \<subseteq> set (pushes ops)"
  by (auto simp: prog_inv_def)

section \<open>The invariant of the calls\<close>

lemma count_list_update_keep:
  "k < length xs \<Longrightarrow> xs ! k \<noteq> a \<Longrightarrow> v \<noteq> a \<Longrightarrow> count_list (xs[k := v]) a = count_list xs a"
  by (induction xs arbitrary: k) (auto split: nat.splits)

lemma count_list_update_hit:
  "k < length xs \<Longrightarrow> xs ! k \<noteq> a \<Longrightarrow> count_list (xs[k := a]) a = Suc (count_list xs a)"
  by (induction xs arbitrary: k) (auto split: nat.splits)

lemma list_ex_update: "list_ex P (xs[k := v]) \<Longrightarrow> \<not> P v \<Longrightarrow> list_ex P xs"
  using set_update_subset_insert [of xs k v] by (auto simp: list_ex_iff)

lemma list_ex_nth: "k < length xs \<Longrightarrow> P (xs ! k) \<Longrightarrow> list_ex P xs"
  by (auto simp: list_ex_iff)

lemma done_calls_update:
  assumes "list_all (\<lambda>t. xs ! fst t = (3 :: nat)) ts" and "xs ! k < 3"
  shows "list_all (\<lambda>t. xs[k := v] ! fst t = 3) ts"
  unfolding list_all_iff
proof
  fix t
  assume "t \<in> set ts"
  with assms(1) have d: "xs ! fst t = 3" by (simp add: list_all_iff)
  with assms(2) have "fst t \<noteq> k" by auto
  with d show "xs[k := v] ! fst t = 3" by simp
qed

text \<open>
  The counter is the initial value plus the calls that have executed their
  increment; a call has returned from \<open>task()\<close> only after its three
  statements; once some call has executed line 47 (line 48), \<open>arg0\<close>
  (\<open>arg1\<close>) holds the argument of a submitted call.
\<close>

definition args_inv :: "args_call mop list \<Rightarrow> size_t \<Rightarrow> nat \<Rightarrow>
    (args_call, unit) pool \<times> args_data \<Rightarrow> bool" where
  "args_inv ops c K sg \<longleftrightarrow> (case sg of (s, g) \<Rightarrow>
     prog_inv ops s \<and> concat (map pending (workers s)) = [] \<and> length (stmt g) = K \<and>
     call_count g = c + word_of_nat (count_list (stmt g) 3) \<and>
     list_all (\<lambda>t. stmt g ! fst t = 3) (finished s) \<and>
     (list_ex (\<lambda>p. 1 \<le> p) (stmt g) \<longrightarrow> arg0 g \<in> (\<lambda>t. fst (snd t)) ` set (submitted s)) \<and>
     (list_ex (\<lambda>p. 2 \<le> p) (stmt g) \<longrightarrow> arg1 g \<in> (\<lambda>t. snd (snd t)) ` set (submitted s)))"

lemma args_inv_pool:
  assumes "pool_step call_enter sp s s'"
    and "list_all (\<lambda>t. stmt g ! fst t = 3) (drop (length (finished s)) (finished s'))"
    and "args_inv ops c K (s, g)"
  shows "args_inv ops c K (s', g)"
proof -
  have fin: "list_all (\<lambda>t. stmt g ! fst t = 3) (finished s')"
    using assms(2,3) by (subst finished_grows [OF assms(1)]) (simp add: args_inv_def)
  have sub: "set (submitted s) \<subseteq> set (submitted s')" by (rule submitted_grows [OF assms(1)])
  have p: "prog_inv ops s'" "concat (map pending (workers s')) = []"
    using prog_inv_step [OF assms(1)] pending_nil_step [OF assms(1)] assms(3)
    by (simp_all add: args_inv_def)
  have g: "length (stmt g) = K" "call_count g = c + word_of_nat (count_list (stmt g) 3)"
    "list_ex (\<lambda>p. 1 \<le> p) (stmt g) \<longrightarrow> arg0 g \<in> (\<lambda>t. fst (snd t)) ` set (submitted s)"
    "list_ex (\<lambda>p. 2 \<le> p) (stmt g) \<longrightarrow> arg1 g \<in> (\<lambda>t. snd (snd t)) ` set (submitted s)"
    using assms(3) by (simp_all add: args_inv_def)
  have "(\<lambda>t. fst (snd t)) ` set (submitted s) \<subseteq> (\<lambda>t. fst (snd t)) ` set (submitted s')"
    "(\<lambda>t. snd (snd t)) ` set (submitted s) \<subseteq> (\<lambda>t. snd (snd t)) ` set (submitted s')"
    using sub by (rule image_mono)+
  with g(3,4) have "list_ex (\<lambda>p. 1 \<le> p) (stmt g) \<longrightarrow> arg0 g \<in> (\<lambda>t. fst (snd t)) ` set (submitted s')"
    "list_ex (\<lambda>p. 2 \<le> p) (stmt g) \<longrightarrow> arg1 g \<in> (\<lambda>t. snd (snd t)) ` set (submitted s')"
    by (meson subsetD)+
  with fin p g(1,2) show ?thesis by (simp only: args_inv_def prod.case simp_thms)
qed

lemma args_inv_body:
  assumes "i < length (workers s)" "workers s ! i = WRun t []" "stmt g ! fst t < 3"
    and "task_inv s" "list_all (\<lambda>t. fst t < K) (pushes ops)" "args_inv ops c K (s, g)"
  shows "args_inv ops c K (s, f_with_args t g)"
proof -
  obtain k a0 a1 where t: "t = (k, a0, a1)" by (cases t) auto
  have tsub: "t \<in> set (submitted s)"
    using running_submitted [OF assms(4,1)] assms(2) by simp
  moreover have "set (submitted s) \<subseteq> set (pushes ops)"
    using assms(6) by (intro prog_inv_pushes) (simp add: args_inv_def)
  ultimately have "fst t < K" using assms(5) by (auto simp: list_all_iff)
  with assms(6) t have kK: "k < length (stmt g)" by (simp add: args_inv_def)
  have lt: "stmt g ! k < 3" using assms(3) t by simp
  have fin: "list_all (\<lambda>t. (stmt g)[k := v] ! fst t = 3) (finished s)" for v
    using assms(6) lt by (intro done_calls_update) (simp_all add: args_inv_def)
  have new: "a0 \<in> (\<lambda>t. fst (snd t)) ` set (submitted s)" "a1 \<in> (\<lambda>t. snd (snd t)) ` set (submitted s)"
    by (rule rev_image_eqI [OF tsub], simp add: t)+
  have g: "prog_inv ops s" "concat (map pending (workers s)) = []" "length (stmt g) = K"
    "call_count g = c + word_of_nat (count_list (stmt g) 3)"
    "list_ex (\<lambda>p. 1 \<le> p) (stmt g) \<longrightarrow> arg0 g \<in> (\<lambda>t. fst (snd t)) ` set (submitted s)"
    "list_ex (\<lambda>p. 2 \<le> p) (stmt g) \<longrightarrow> arg1 g \<in> (\<lambda>t. snd (snd t)) ` set (submitted s)"
    using assms(6) by (simp_all add: args_inv_def)
  consider "stmt g ! k = 0" | "stmt g ! k = 1" | "stmt g ! k = 2" using lt by linarith
  then show ?thesis
  proof cases
    case 1
    have "count_list ((stmt g)[k := 1]) 3 = count_list (stmt g) 3"
      using 1 kK by (intro count_list_update_keep) simp_all
    moreover have "list_ex (\<lambda>p. 2 \<le> p) ((stmt g)[k := 1]) \<longrightarrow> list_ex (\<lambda>p. 2 \<le> p) (stmt g)"
      by (auto dest: list_ex_update)
    ultimately show ?thesis using 1 g new fin unfolding args_inv_def t by simp
  next
    case 2
    have "count_list ((stmt g)[k := 2]) 3 = count_list (stmt g) 3"
      using 2 kK by (intro count_list_update_keep) simp_all
    moreover have "list_ex (\<lambda>p. 1 \<le> p) (stmt g)" using 2 kK by (intro list_ex_nth [of k]) simp_all
    ultimately show ?thesis using 2 g new fin unfolding args_inv_def t by simp
  next
    case 3
    have "count_list ((stmt g)[k := 3]) 3 = Suc (count_list (stmt g) 3)"
      using 3 kK by (intro count_list_update_hit) simp_all
    moreover have "list_ex (\<lambda>p. 1 \<le> p) (stmt g)" "list_ex (\<lambda>p. 2 \<le> p) (stmt g)"
      using 3 kK by (intro list_ex_nth [of k], simp_all)+
    ultimately show ?thesis using 3 g fin unfolding args_inv_def t by simp
  qed
qed

lemma reachable_args_inv:
  assumes "args_reach sp n ops (args_init c x0 x1 K) sg" and "list_all (\<lambda>t. fst t < K) (pushes ops)"
  shows "args_inv ops c K sg"
  using assms(1)
proof (induction rule: args_reach.induct)
  case init
  have "prog_inv ops (pool_init n ops ())"
    unfolding prog_inv_def pool_init_def by (rule exI [of _ "[]"]) simp
  moreover have "count_list (replicate K (0::nat)) 3 = 0" by (induction K) simp_all
  ultimately show ?case by (simp add: args_inv_def args_init_def pool_init_def list_ex_iff)
next
  case (step sg sg')
  from step.hyps(2) show ?case
  proof cases
    case (pool s s' g)
    then show ?thesis using step.IH by (blast intro: args_inv_pool)
  next
    case (body i s t g)
    have "task_inv s"
      using reachable_invs [OF args_reach_pool [OF step.hyps(1)]] body(1) by simp
    with body step.IH assms(2) show ?thesis by (blast intro: args_inv_body)
  qed
qed

lemma pushes_map_Push [simp]: "pushes (map Push xs) = xs"
  by (induction xs) simp_all

lemma count_list_replicate_same: "count_list (replicate k x) x = k"
  by (induction k) simp_all

lemma image_snd_enumerate: "(\<lambda>t. f (snd t)) ` set (enumerate n xs) = f ` set xs"
proof -
  have "snd ` set (enumerate n xs) = set xs"
    by (simp flip: set_map add: map_snd_enumerate)
  moreover have "(\<lambda>t. f (snd t)) ` set (enumerate n xs) = f ` (snd ` set (enumerate n xs))"
    by (simp add: image_image)
  ultimately show ?thesis by simp
qed

lemma all_calls_done:
  assumes "length xs = K" and "\<forall>k < K. xs ! k = 3"
  shows "xs = replicate K 3"
  using assms by (intro nth_equalityI) simp_all

text \<open>
  Claim C23: the tests \<open>test_one_call_with_args\<close> and
  \<open>test_a_few_calls_with_args\<close>, for any number of workers, any argument
  pairs and any interleaving of the statements of the concurrent calls: when
  the test's \<open>wait()\<close> returns (without a spurious wake-up), every call has
  executed all its statements, so \<open>f_with_args_call_count\<close> has grown by the
  number of pushes, and \<open>f_with_args_arg0\<close> and \<open>f_with_args_arg1\<close> each hold
  the corresponding argument of some pushed call (with one push, exactly its
  arguments, as \<open>test_one_call_with_args\<close> asserts).
\<close>

theorem push_wait_args_count:
  assumes r: "args_reach False n (map Push (enumerate 0 args) @ Wait # destructor_ops)
      (args_init c x0 x1 (length args)) (s, g)"
    and st: "args_step False (s, g) (s', g')"
    and w: "prog s = Wait # destructor_ops" "prog s' = destructor_ops"
  shows "call_count g' = c + word_of_nat (length args) \<and>
    (args \<noteq> [] \<longrightarrow> arg0 g' \<in> fst ` set args \<and> arg1 g' \<in> snd ` set args)"
proof -
  let ?ops = "map Push (enumerate 0 args) @ Wait # destructor_ops"
  have bound: "list_all (\<lambda>t. fst t < length args) (pushes ?ops)"
    by (simp add: destructor_ops_def list_all_iff in_set_enumerate_eq)
  from st have "g' = g \<and> pool_step call_enter False s s'"
  proof cases
    case (body i t)
    with w show ?thesis by simp
  qed simp
  then have g': "g' = g" and ps: "pool_step call_enter False s s'" by simp_all
  have inv: "args_inv ?ops c (length args) (s, g)" "args_inv ?ops c (length args) (s', g)"
    using reachable_args_inv [OF r bound] reachable_args_inv [OF args_reach.step [OF r st] bound] g'
    by simp_all
  have q: "task_queue s' = [] \<and> list_all (\<lambda>w. \<not> busy w) (workers s') \<and> task_inv s'"
    using quiescent_after_wait [OF _ ps w] args_reach_pool [OF r] by simp
  obtain pre where "?ops = pre @ Wait # destructor_ops" and sub: "submitted s = pushes pre"
    using inv(1) w(1) by (auto simp: args_inv_def prog_inv_def)
  then have "pre = map Push (enumerate 0 args)" by simp
  with sub have "submitted s = enumerate 0 args" by simp
  moreover have "submitted s' = submitted s"
    using wait_step_disj [OF ps w] by auto
  ultimately have sub': "submitted s' = enumerate 0 args" by simp
  have "mset (finished s') = mset (submitted s')"
    using q idle_workers_run_nothing [of "workers s'"] by (simp add: task_inv_def)
  then have fs: "set (finished s') = set (enumerate 0 args)"
    using sub' by (metis set_mset_mset)
  have len: "length (stmt g) = length args" and alld: "list_all (\<lambda>t. stmt g ! fst t = 3) (finished s')"
    using inv(2) by (simp_all add: args_inv_def)
  have "\<forall>k < length args. stmt g ! k = 3"
  proof (intro allI impI)
    fix k
    assume "k < length args"
    then have "(k, args ! k) \<in> set (finished s')" by (simp add: fs in_set_enumerate_eq)
    with alld show "stmt g ! k = 3" by (auto simp: list_all_iff)
  qed
  with len have stmt3: "stmt g = replicate (length args) 3" by (rule all_calls_done)
  have cnt: "call_count g = c + word_of_nat (length args)"
    using inv(2) stmt3 by (simp add: args_inv_def count_list_replicate_same)
  have "args \<noteq> [] \<Longrightarrow> arg0 g \<in> fst ` set args \<and> arg1 g \<in> snd ` set args"
  proof -
    assume "args \<noteq> []"
    then have "list_ex (\<lambda>p. 1 \<le> p) (stmt g)" "list_ex (\<lambda>p. 2 \<le> p) (stmt g)"
      using stmt3 by (simp_all add: list_ex_iff)
    then show ?thesis
      using inv(2) sub' by (simp add: args_inv_def image_snd_enumerate)
  qed
  with cnt g' show ?thesis by simp
qed

theorem push_wait_args_count_witness:
  "\<exists>s g s'. args_reach False 1 (map Push (enumerate 0 [(123, 456)]) @ Wait # destructor_ops)
      (args_init 0 0 0 1) (s, g) \<and>
    args_step False (s, g) (s', g) \<and> prog s = Wait # destructor_ops \<and> prog s' = destructor_ops \<and>
    call_count g = 1 \<and> arg0 g = 123 \<and> arg1 g = 456"
proof -
  let ?ops = "map Push (enumerate 0 [(123 :: size_t, 456 :: size_t)]) @ Wait # destructor_ops"
  obtain s g where run: "args_run False [APool AMain, APool AMain, APool (AWorker 0), APool (AWorker 0),
      APool (AWorker 0), ABody 0, ABody 0, ABody 0, APool (AWorker 0), APool (AWorker 0),
      APool (AWorker 0), APool (AWorker 0), APool (AWorker 0)]
      (pool_init 1 ?ops (), args_init 0 0 0 1) = Some (s, g)"
    and sg: "prog s = Wait # destructor_ops" "mstate s = MWoken" "lock s = None"
      "call_count g = 1" "arg0 g = 123" "arg1 g = 456"
    by (simp add: args_init_def pool_init_def destructor_ops_def main_step_def worker_step_def
        notify_one_fn_def call_enter_def)
  have r: "args_reach False 1 ?ops (args_init 0 0 0 (length [(123 :: size_t, 456 :: size_t)])) (s, g)"
    using args_run_reach [OF run args_reach.init] by simp
  have st: "args_step False (s, g) (s\<lparr>mstate := MRun, prog := destructor_ops\<rparr>, g)"
    by (rule args_step.pool) (use sg in \<open>simp_all add: pool_step.main_woken_return\<close>)
  have "call_count g = 0 + word_of_nat (length [(123 :: size_t, 456 :: size_t)]) \<and>
    ([(123 :: size_t, 456 :: size_t)] \<noteq> [] \<longrightarrow> arg0 g \<in> fst ` set [(123 :: size_t, 456 :: size_t)] \<and>
      arg1 g \<in> snd ` set [(123 :: size_t, 456 :: size_t)])"
    by (rule push_wait_args_count [OF r st]) (simp_all add: sg)
  with r st sg show ?thesis by (intro exI [of _ s] exI [of _ g] exI [of _ "s\<lparr>mstate := MRun, prog := destructor_ops\<rparr>"]) simp
qed

text \<open>
  Claim C24: the recorded arguments need not form a pushed pair.  With two
  workers and the first two pushes of \<open>test_a_few_calls_with_args\<close>, the
  statements of the two calls can interleave so that, when the test's
  \<open>wait()\<close> returns, \<open>f_with_args_arg0\<close> holds the second call's first
  argument and \<open>f_with_args_arg1\<close> the first call's second argument: the pair
  (1234, 456), which no call was given.  The test therefore asserts only the
  count after several pushes.
\<close>

theorem args_stores_interleave:
  "\<exists>s g s'. args_reach False 2 (map Push (enumerate 0 [(123, 456), (1234, 4567)]) @ Wait # destructor_ops)
      (args_init 0 0 0 2) (s, g) \<and>
    args_step False (s, g) (s', g) \<and> prog s = Wait # destructor_ops \<and> prog s' = destructor_ops \<and>
    call_count g = 2 \<and> (arg0 g, arg1 g) \<notin> set [(123, 456), (1234, 4567)]"
proof -
  let ?ops = "map Push (enumerate 0 [(123 :: size_t, 456 :: size_t), (1234, 4567)]) @ Wait # destructor_ops"
  obtain s g where run: "args_run False [APool AMain, APool AMain, APool AMain,
      APool (AWorker 0), APool (AWorker 0), APool (AWorker 1), APool (AWorker 1),
      APool (AWorker 0), APool (AWorker 1),
      ABody 0, ABody 1, ABody 1, ABody 0, ABody 0, ABody 1,
      APool (AWorker 0), APool (AWorker 0), APool (AWorker 0), APool (AWorker 0), APool (AWorker 0),
      APool (AWorker 1), APool (AWorker 1), APool (AWorker 1), APool (AWorker 1), APool (AWorker 1)]
      (pool_init 2 ?ops (), args_init 0 0 0 2) = Some (s, g)"
    and sg: "prog s = Wait # destructor_ops" "mstate s = MWoken" "lock s = None"
      "call_count g = 2" "arg0 g = 1234" "arg1 g = 456"
    by (simp add: args_init_def pool_init_def destructor_ops_def main_step_def worker_step_def
        notify_one_fn_def call_enter_def numeral_2_eq_2)
  have r: "args_reach False 2 ?ops (args_init 0 0 0 2) (s, g)"
    by (rule args_run_reach [OF run args_reach.init])
  have st: "args_step False (s, g) (s\<lparr>mstate := MRun, prog := destructor_ops\<rparr>, g)"
    by (rule args_step.pool) (use sg in \<open>simp_all add: pool_step.main_woken_return\<close>)
  show ?thesis
    using r st sg by (intro exI [of _ s] exI [of _ g] exI [of _ "s\<lparr>mstate := MRun, prog := destructor_ops\<rparr>"]) simp
qed

end
