(* ===== verification/SortTests.thy ===== *)
theory SortTests
  imports SortStatic ParallelUnique
begin

text \<open>
  The sorting and unique tests of src/mt_test.cpp (lines 177--323) and the
  order in which \<open>main()\<close> runs them (lines 325--347).  Every test fills a
  vector with random values, computes the expected result with the standard
  algorithm and compares it with the result of \<open>mt::sort\<close> or \<open>mt::unique\<close>;
  the random contents are an arbitrary input here, and timing and printing
  are left out.  All the tests call \<open>mt::sort\<close> on \<open>vector<uint32_t>\<close> with
  \<open>std::less\<close>, one template instantiation, so they share the state of its
  \<open>static\<close> closure, which each test takes and returns.  The result of a test
  is whether its assertions hold, or the error met on the way; \<open>None\<close> is a
  sort that does not return.  \<open>threads\<close> is the default argument
  \<open>hardware_concurrency()\<close> of both algorithms.
\<close>

type_synonym test_result = "(error + bool) option"

definition check_sorted :: "'a::linorder list \<Rightarrow> (error + 'a list) option \<Rightarrow> test_result" where
  "check_sorted expected r = map_option (map_sum id (\<lambda>actual. actual = expected)) r"

text \<open>\<open>test_sort_rand\<close> (lines 177--203).\<close>

definition test_sort_rand :: "size_t \<Rightarrow> 'a::linorder list \<Rightarrow> sort_static \<Rightarrow> test_result \<times> sort_static" where
  "test_sort_rand threads actual st =
     (let expected = std_sort (<) actual 0 (length actual) in
      case mt_sort_call (<) actual threads st of (r, st') \<Rightarrow> (check_sorted expected r, st'))"

text \<open>\<open>test_sort_sorted\<close> (lines 205--232): the vector is sorted by \<open>mt::sort\<close>
  first, then sorted again and compared with \<open>std::sort\<close> of the sorted vector.\<close>

definition test_sort_sorted :: "size_t \<Rightarrow> 'a::linorder list \<Rightarrow> sort_static \<Rightarrow> test_result \<times> sort_static" where
  "test_sort_sorted threads actual st =
     (case mt_sort_call (<) actual threads st of
        (Some (Inr sv), st1) \<Rightarrow>
          (let expected = std_sort (<) sv 0 (length sv) in
           case mt_sort_call (<) sv threads st1 of (r, st2) \<Rightarrow> (check_sorted expected r, st2))
      | (Some (Inl e), st1) \<Rightarrow> (Some (Inl e), st1)
      | (None, st1) \<Rightarrow> (None, st1))"

text \<open>\<open>test_sort_a_lot_of_duplicates\<close> (lines 234--260): the body of
  \<open>test_sort_rand\<close> on values below 255.\<close>

definition test_sort_a_lot_of_duplicates ::
    "size_t \<Rightarrow> 'a::linorder list \<Rightarrow> sort_static \<Rightarrow> test_result \<times> sort_static" where
  "test_sort_a_lot_of_duplicates threads actual st =
     (let expected = std_sort (<) actual 0 (length actual) in
      case mt_sort_call (<) actual threads st of (r, st') \<Rightarrow> (check_sorted expected r, st'))"

text \<open>The comparison of \<open>test_unique\<close>: \<open>std::unique\<close> and \<open>mt::unique\<close> on the
  sorted vector, each result cut at its new end by \<open>resize\<close>, then both
  assertions (equal sizes, equal vectors).\<close>

definition check_unique :: "size_t \<Rightarrow> 'a list \<Rightarrow> error + bool" where
  "check_unique threads sv =
     (case std_unique sv 0 (length sv) of
        (exp, stl_last) \<Rightarrow>
          (let expected = take stl_last exp in
           case mt_unique_eq sv threads of
             Inl e \<Rightarrow> Inl e
           | Inr (act, mt_last) \<Rightarrow>
               (let actual = take mt_last act in
                Inr (length actual = length expected \<and> actual = expected))))"

text \<open>\<open>test_unique\<close> (lines 262--292).\<close>

definition test_unique :: "size_t \<Rightarrow> 'a::linorder list \<Rightarrow> sort_static \<Rightarrow> test_result \<times> sort_static" where
  "test_unique threads actual st =
     (case mt_sort_call (<) actual threads st of
        (Some (Inr sv), st1) \<Rightarrow> (Some (check_unique threads sv), st1)
      | (Some (Inl e), st1) \<Rightarrow> (Some (Inl e), st1)
      | (None, st1) \<Rightarrow> (None, st1))"

text \<open>\<open>test_unique_a_lot_of_duplicates\<close> (lines 293--323): the body of
  \<open>test_unique\<close> on values below 255.\<close>

definition test_unique_a_lot_of_duplicates ::
    "size_t \<Rightarrow> 'a::linorder list \<Rightarrow> sort_static \<Rightarrow> test_result \<times> sort_static" where
  "test_unique_a_lot_of_duplicates threads actual st =
     (case mt_sort_call (<) actual threads st of
        (Some (Inr sv), st1) \<Rightarrow> (Some (check_unique threads sv), st1)
      | (Some (Inl e), st1) \<Rightarrow> (Some (Inl e), st1)
      | (None, st1) \<Rightarrow> (None, st1))"

text \<open>The sorting and unique tests of \<open>main()\<close>, in order, on five inputs.\<close>

definition main_sort_tests :: "size_t \<Rightarrow> 'a::linorder list \<Rightarrow> 'a list \<Rightarrow> 'a list \<Rightarrow> 'a list \<Rightarrow>
    'a list \<Rightarrow> test_result list" where
  "main_sort_tests threads x1 x2 x3 x4 x5 =
     (case test_sort_rand threads x1 sort_static_init of (r1, s1) \<Rightarrow>
      case test_sort_sorted threads x2 s1 of (r2, s2) \<Rightarrow>
      case test_sort_a_lot_of_duplicates threads x3 s2 of (r3, s3) \<Rightarrow>
      case test_unique threads x4 s3 of (r4, s4) \<Rightarrow>
      case test_unique_a_lot_of_duplicates threads x5 s4 of (r5, s5) \<Rightarrow>
      [r1, r2, r3, r4, r5])"

section \<open>Lemmas\<close>

lemma std_sort_whole: "std_sort (<) xs 0 (length xs) = sort (xs :: 'a::linorder list)"
proof -
  have "slice (std_sort (<) xs 0 (length xs)) 0 (length xs) = sort xs"
    "same_outside 0 (length xs) xs (std_sort (<) xs 0 (length xs))"
    using std_sort_less [of 0 "length xs" xs] by simp_all
  then show ?thesis by (simp add: same_outside_def slice_def)
qed

lemma first_call_sorts:
  "qs_frame st = None \<Longrightarrow> threads * 8 \<noteq> 0 \<Longrightarrow>
   mt_sort_call (<) xs threads st =
     (Some (Inr (sort (xs :: 'a::linorder list))), st\<lparr>qs_frame := Some (sort_calls st), sort_calls := Suc (sort_calls st)\<rparr>)"
  using mt_sort_fifo_sort [of threads xs]
  by (simp add: mt_sort_call_def mt_sort_fifo_def chunk_size_of_def Let_def)

lemma later_call_dangles:
  "(case qs_frame st of None \<Rightarrow> False | Some f \<Rightarrow> f < sort_calls st) \<Longrightarrow>
   threads * 8 \<noteq> 0 \<Longrightarrow> 2 \<le> length xs \<Longrightarrow>
   mt_sort_call cmp xs threads st = (Some (Inl DanglingReference), st\<lparr>sort_calls := Suc (sort_calls st)\<rparr>)"
  by (cases "qs_frame st") (auto simp: mt_sort_call_def chunk_size_of_def Let_def)

lemma check_unique_sorted:
  assumes "0 < unat threads" "unat threads \<le> length xs" "length xs < 2 ^ 64"
  shows "check_unique threads xs = Inr True"
proof -
  obtain exp m where u: "std_unique xs 0 (length xs) = (exp, m)" by (cases "std_unique xs 0 (length xs)")
  then have "slice exp 0 m = remdups_adj xs" "m \<le> length xs" "same_outside 0 (length xs) xs exp"
    using std_unique_correct [of 0 "length xs" xs exp m] by simp_all
  then have e: "take m exp = remdups_adj xs" by (simp add: slice_def)
  obtain act l where mt: "mt_unique (=) xs threads = Inr (act, l)" and "take l act = remdups_adj xs"
    using mt_unique_correct [OF assms] by blast
  with e have eq: "take l act = take m exp" by simp
  have "check_unique threads xs = Inr (length (take l act) = length (take m exp) \<and> take l act = take m exp)"
    unfolding check_unique_def mt_unique_eq_def u mt by (simp only: Let_def prod.case sum.case)
  then show ?thesis by (simp only: eq simp_thms)
qed

text \<open>Claim C27: the first sorting test of the program, \<open>test_sort_rand\<close>, passes
  on every input: the first call of the instantiation sorts the vector exactly
  as \<open>std::sort\<close> does.\<close>

theorem test_sort_rand_passes:
  "qs_frame st = None \<Longrightarrow> threads * 8 \<noteq> 0 \<Longrightarrow>
   fst (test_sort_rand threads (xs :: 'a::linorder list) st) = Some (Inr True)"
  by (simp add: test_sort_rand_def first_call_sorts std_sort_whole check_sorted_def)

lemma test_sort_rand_passes_witness:
  "fst (test_sort_rand 1 [3, 1, 2 :: nat] sort_static_init) = Some (Inr True)"
  using test_sort_rand_passes [of sort_static_init 1 "[3, 1, 2 :: nat]"]
  by (simp add: sort_static_init_def)

text \<open>Claim C28: \<open>test_unique\<close>, run as the first user of \<open>mt::sort\<close>, passes on
  every input whose length is at least the thread count: \<open>mt::unique\<close> on the
  sorted vector, cut at its returned end, equals \<open>std::unique\<close> cut at its end,
  in size and in contents.\<close>

theorem test_unique_passes:
  assumes "qs_frame st = None" "threads * 8 \<noteq> 0"
    and "0 < unat threads" "unat threads \<le> length xs" "length xs < 2 ^ 64"
  shows "fst (test_unique threads (xs :: 'a::linorder list) st) = Some (Inr True)"
proof -
  have "check_unique threads (sort xs) = Inr True"
    using assms(3-5) by (intro check_unique_sorted) simp_all
  then show ?thesis using assms(1,2) by (simp add: test_unique_def first_call_sorts)
qed

lemma test_unique_passes_witness:
  "fst (test_unique 1 [2, 1, 2 :: nat] sort_static_init) = Some (Inr True)"
  using test_unique_passes [of sort_static_init 1 "[2, 1, 2 :: nat]"]
  by (simp add: sort_static_init_def)

text \<open>Claim C26: in the order \<open>main()\<close> runs them, only the first sorting test
  passes: every later test calls \<open>mt::sort\<close> of the same instantiation, whose
  closure still refers to the first call's finished frame, and on a vector of
  two or more elements each of them meets the dangling reference.\<close>

theorem main_sort_tests_dangle:
  assumes "threads * 8 \<noteq> 0" "2 \<le> length x2" "2 \<le> length x3" "2 \<le> length x4" "2 \<le> length x5"
  shows "main_sort_tests threads (x1 :: 'a::linorder list) x2 x3 x4 x5 =
    [Some (Inr True), Some (Inl DanglingReference), Some (Inl DanglingReference),
     Some (Inl DanglingReference), Some (Inl DanglingReference)]"
  using assms
  by (simp add: main_sort_tests_def test_sort_rand_def test_sort_sorted_def test_sort_a_lot_of_duplicates_def
      test_unique_def test_unique_a_lot_of_duplicates_def sort_static_init_def first_call_sorts
      later_call_dangles std_sort_whole check_sorted_def)

lemma main_sort_tests_dangle_witness:
  "main_sort_tests 1 [1 :: nat] [2, 1] [1, 1] [3, 1, 3] [2, 2] =
    [Some (Inr True), Some (Inl DanglingReference), Some (Inl DanglingReference),
     Some (Inl DanglingReference), Some (Inl DanglingReference)]"
  using main_sort_tests_dangle [of 1 "[2, 1 :: nat]" "[1, 1]" "[3, 1, 3]" "[2, 2]" "[1]"] by simp

end
