(* ===== verification/Spec2Isabelle.thy ===== *)
theory Spec2Isabelle
  imports SortPool SortStatic SortContract ParallelUnique RetPush TaskFailure Macros PoolTests SortTests
begin

text \<open>
  \<^bold>\<open>A verification library for the multithread library \<open>mt\<close>\<close>
  (src/thread_pool.hpp, src/sort.hpp, src/unique.hpp, with the tests of
  src/mt_test.cpp).

  \<^bold>\<open>The program.\<close>  \<open>mt::thread_pool\<close> owns \<open>n\<close> worker threads (started with
  \<open>std::async\<close>), a FIFO queue of tasks, a counter \<open>active\<close> of workers that are
  draining the queue, a flag \<open>shutdown_request\<close>, one mutex and two condition
  variables.  \<open>push\<close> enqueues a task and wakes one worker; \<open>wait()\<close> blocks the
  caller until the queue is empty and no worker is active; the destructor waits,
  raises the flag, wakes all workers and lets the member destructors join them.
  \<open>mt::sort\<close> builds a pool and submits a recursive quicksort task: a range
  larger than a threshold is partitioned twice around its middle element with
  \<open>std::partition\<close> and its two outer parts are submitted as new tasks; a smaller
  range is sorted with \<open>std::sort\<close>.  \<open>mt::unique\<close> splits a range into
  \<open>threads_amount\<close> chunks, runs \<open>std::unique\<close> on each in its own
  \<open>std::async\<close> thread, and stitches the results together with \<open>std::copy\<close>.

  \<^bold>\<open>Theories.\<close>
  \<^item> \<open>Prelude\<close>: \<open>size_t\<close> as \<open>64 word\<close>, the error values, array ranges as
    slices of a list, frame conditions, and sums over the list of workers.
  \<^item> \<open>ThreadPool\<close>: src/thread_pool.hpp.  The record \<open>pool\<close> holds the class
    members (lines 103--109), the program points of every thread, the data the
    tasks share and two ghost logs (submitted and finished tasks).  The
    datatype \<open>wpc\<close> names the program points of \<open>worker()\<close> (lines 124--154),
    \<open>mop\<close> the owner's operations (\<open>push\<close>, \<open>wait\<close>, and the statements of
    \<open>~thread_pool\<close> followed by the member destructors in C++ order).
    \<open>pool_step\<close> is an inductive step relation with one rule per atomic action of
    a thread; a code region executed under \<open>queue_mutex\<close> that only touches
    lock-protected state is one step, and every unlocked access
    (\<open>shutdown_request\<close>, the destructor's \<open>notify_all\<close>) is a step of its own.
    Condition variables follow the C++ standard (\<open>notify_one\<close> wakes any one
    waiter or none; spurious wake-ups are allowed when the relation's flag
    \<open>spurious\<close> is set).  \<open>main_at\<close>/\<open>worker_at\<close> form an executable scheduler
    proved to refine \<open>pool_step\<close> (\<open>sched_step_sound\<close>), which makes concrete
    interleavings evaluable by \<open>simp\<close>.  Lemmas: mutual exclusion of the
    mutex (\<open>lock_inv\<close>), \<open>active\<close> equals the number of draining workers
    (\<open>active_inv\<close>), conservation of tasks (\<open>task_inv\<close>), and the barrier
    invariant (\<open>barrier_inv\<close>); each is preserved by every step and holds in
    every reachable state.
  \<^item> \<open>StdAlgo\<close>: the C++ library algorithms the sources call, modelled
    from the standard (they are not code of the repository): \<open>std::partition\<close>
    as libstdc++'s two-phase loop (\<open>partition_loop\<close>, one \<open>function\<close> with a
    flag for the phase and a measure), \<open>std::unique\<close> and \<open>std::copy\<close> as their
    reference loops, \<open>std::sort\<close> by its contract (an insertion sort by the
    comparison).  Each comes with its contract: the frame outside the range,
    permutation of the range, and the partition, \<open>remdups_adj\<close> or sortedness
    property inside; \<open>swo\<close> is the strict weak ordering \<open>Compare\<close> must be.
  \<^item> \<open>ParallelSort\<close>: src/sort.hpp lines 70--95.  \<open>chunk_size_of\<close> is the
    threshold in \<open>size_t\<close> with its division by a possibly wrapped zero as an
    error; \<open>quick_sort_task\<close> is the lambda \<open>quick_sort\<close> on a range, returning
    the ranges it pushes.  \<open>qs_step\<close> runs any pending range (every schedule),
    \<open>qs_run\<close> the FIFO schedule of one worker as a \<open>partial_function (option)\<close>,
    \<open>mt_sort_fifo\<close> the whole call under that schedule.  The invariant
    \<open>qs_inv\<close> (permutation, pending ranges inside the vector and pairwise
    disjoint, elements not inside one pending range in order) is preserved by
    every task; the measure \<open>qs_measure\<close> (the sum of \<open>2 * length + 1\<close> over the
    pending ranges) decreases with every task, because the pivot is excluded
    from both pushed ranges.
  \<^item> \<open>SortPool\<close>: the composition.  The pool of \<open>ThreadPool\<close> runs
    \<open>quick_sort_task\<close> as its task function with the owner program
    \<open>mt_sort_prog\<close> (push the root range, then the destructor).  \<open>pend\<close> maps a
    pool state to the ranges not yet executed; every pool step is a stutter or
    one \<open>qs_step\<close> (\<open>pool_step_sim\<close>), so every reachable pool state refines a
    state of the abstract process.
  \<^item> \<open>PoolDrain\<close>: why the workers leave no task behind when they return,
    spurious wake-ups included.  \<open>rechecks\<close> marks the program points from
    which a worker tests the queue again before it can return; the invariant
    \<open>drain_inv\<close> (a non-empty queue has such a worker, a worker at line 147
    saw the queue empty and holds the lock, workers return only after the
    flag, the flag comes after the owner's last push) is kept by every step
    (\<open>drain_inv_step\<close>); \<open>SortPool\<close> instantiates it for \<open>mt::sort\<close>.
  \<^item> \<open>SortStatic\<close>: the function-local \<open>static\<close> closure \<open>quick_sort\<close> of
    \<open>mt::sort\<close> (line 76) across successive calls of one instantiation.
    \<open>sort_static\<close> records the calls made and the call whose locals the
    closure captured; \<open>mt_sort_call\<close> is one call (the threshold, the
    one-time initialisation, then \<open>mt_sort_fifo\<close> for the initialising call,
    or the root task reading a returned call's \<open>chunk_size\<close>, the error
    \<open>DanglingReference\<close>, for later ones); \<open>mt_sort_calls\<close> runs a sequence.
  \<^item> \<open>SortContract\<close>: the documented contract of \<open>mt::sort\<close> (sort.hpp
    lines 55--69): \<open>sort_postcondition\<close> is the comment's adjacent-pairs
    condition; the FIFO run meets it for every strict weak ordering.
  \<^item> \<open>ParallelUnique\<close>: src/unique.hpp.  \<open>part_size_of\<close> (division by a
    zero \<open>threads_amount\<close> as an error), \<open>chunk_begin\<close>/\<open>chunk_end\<close> (lines
    65--67), \<open>launch\<close> (the loop of lines 64--69; the \<open>std::async\<close> executions
    work on disjoint chunks and are run in loop order, which
    \<open>chunk_uniques_commute\<close> justifies: \<open>std::unique\<close> on two disjoint ranges
    commutes, from the locality lemma \<open>std_unique_agree\<close> of \<open>StdAlgo\<close>), \<open>merge_loop\<close> (lines
    72--78, with the reads \<open>*_begin\<close>, \<open>*(last - 1)\<close> and a \<open>std::copy\<close> whose
    source end precedes its start as \<open>OutOfRange\<close>), \<open>mt_unique\<close> and the
    overload \<open>mt_unique_eq\<close>.  The predicate \<open>chunk_done\<close> states that a chunk
    has been compacted; \<open>launch_correct\<close> and \<open>merge_step\<close> carry it through the
    two loops.
  \<^item> \<open>PoolProgress\<close>: progress of the pool while its owner is blocked
    in \<open>wait()\<close>.  A worker is \<open>parked\<close> asleep in \<open>queue_cv.wait\<close> or after
    returning; \<open>unparked_can_step\<close> shows that any other worker, or the owner of
    \<open>queue_mutex\<close>, can move.  The invariant \<open>progress_inv\<close> (a worker at the
    shutdown test or the wait saw an empty queue, only a raised flag lets a
    worker return, a non-empty queue has an unparked worker, a blocked owner
    waits for queued or running tasks) holds in every reachable state without
    spurious wake-ups; with it, \<open>pending_work_unparked\<close> and
    \<open>some_worker_moves\<close> show that while tasks are queued or running a worker
    can move (by the executable \<open>worker_step\<close>).
  \<^item> \<open>RetPush\<close>: the result-returning \<open>push\<close> compiled under
    \<open>MT_POOL_RET_SUPPORT\<close> (thread_pool.hpp lines 78--88).  \<open>run_packaged\<close>
    is the queued \<open>std::packaged_task\<close>: it runs the bound call and stores its
    \<open>outcome\<close> (a value or a thrown exception) in the shared state of its
    future; \<open>ret_prog\<close> is the caller's pushes, \<open>future_get\<close> is
    \<open>std::future::get\<close> (blocking while the state is not ready).  The shared
    states are allocated with the pool (\<open>ret_init\<close>) instead of one per
    \<open>push\<close>, which no thread can observe.  The invariant \<open>store_inv\<close> says a
    ready state holds its function's outcome and every task that has run made
    its state ready; \<open>ready_ran\<close> is the converse (a ready state's task has
    run), and \<open>ret_count_inv\<close> ties the call counter of \<open>f_with_ret\<close> to the
    tasks that have run.  \<open>f_with_ret\<close>, \<open>ret_test_args\<close> and
    \<open>ret_test_prog\<close> are the fixtures of mt_test.cpp.
  \<^item> \<open>TaskFailure\<close>: a task that throws in fire-and-forget mode.
    \<open>fail_step\<close> extends \<open>pool_step\<close> by the exceptional exit of a worker
    calling a throwing task (\<open>task()\<close> at line 137 has no \<open>try\<close>): the worker
    ends without \<open>active--\<close>, and its \<open>unique_lock\<close> unlocks a mutex it no
    longer owns; \<open>runs_throwing\<close> forbids a throwing task to return normally.
    \<open>active_offset_step\<close> of \<open>ThreadPool\<close> shows that \<open>active\<close> then stays
    above the draining workers by the number of such exits.
  \<^item> \<open>PoolTests\<close>: \<open>f_with_args\<close> and the tests that push it
    (mt_test.cpp lines 41--50 and 97--132).  The three statements of
    \<open>f_with_args\<close> are separate atomic operations, so concurrent calls
    interleave them: the pool runs each pushed call as a task whose entry
    changes no data (\<open>call_enter\<close>), and \<open>args_step\<close> adds one step per
    statement of a call a worker is executing (\<open>f_with_args\<close> on the record
    \<open>args_data\<close> of the three atomics), with \<open>task()\<close> returning only after its
    three statements; \<open>args_run\<close> is an executable scheduler for it.
    \<open>args_inv\<close> relates the counter to the calls that have incremented it and
    the recorded arguments to the submitted calls.  (\<open>RetPush\<close> keeps the
    stores of \<open>f_with_ret\<close> as one step, since its theorems read only the
    counter and the returned values.)
  \<^item> \<open>Macros\<close>: the macro \<open>CONSTEXPR\<close> of both headers (sort.hpp lines
    45--51, unique.hpp lines 48--54) with the include order of mt_test.cpp,
    and whether its expansion can stand before \<open>inline\<close> in a declaration.
  \<^item> \<open>SortTests\<close>: the sorting and unique tests of mt_test.cpp (lines
    177--347).  Each test (\<open>test_sort_rand\<close>, \<open>test_sort_sorted\<close>,
    \<open>test_sort_a_lot_of_duplicates\<close>, \<open>test_unique\<close>,
    \<open>test_unique_a_lot_of_duplicates\<close>) takes the state \<open>sort_static\<close> of
    \<open>SortStatic\<close> and returns it with whether its assertions hold
    (\<open>check_sorted\<close>, \<open>check_unique\<close>: the comparison after both
    \<open>resize\<close> calls) or the error met; \<open>main_sort_tests\<close> runs them in the
    order of \<open>main()\<close>.  All of them instantiate \<open>mt::sort\<close> once
    (\<open>vector<uint32_t>\<close>, \<open>std::less\<close>), so they share one static closure.
  \<^item> \<open>Spec2Isabelle\<close> (this theory): the header and the properties that span
    components.

  \<^bold>\<open>What the theorems show.\<close>  Without spurious wake-ups \<open>wait()\<close> is a
  correct quiescence barrier even when tasks submit tasks; no task is lost or
  run twice; \<open>queue_mutex\<close> is exclusive and \<open>active\<close> stays within \<open>[0, n]\<close>.
  Three closed counterexamples exhibit defects of the code: \<open>wait()\<close> tests its
  condition with \<open>if\<close> instead of a loop, so a spurious wake-up makes it return
  early; the destructor writes \<open>shutdown_request\<close> and notifies without the
  mutex, so a worker can miss the wake-up and the destructor hangs; and the
  mutex and condition variables are destroyed before the worker threads are
  joined.  A pool of zero workers, which the default argument produces when
  \<open>hardware_concurrency()\<close> returns 0, never gets past \<open>wait()\<close> after a
  push; with at least one worker and no shutdown requested, a blocked
  \<open>wait()\<close> is never a deadlock: some thread can always take a step.
  With result handles, \<open>get()\<close> returns exactly the function's value (or
  rethrows its exception) on the pushed arguments, every handle is ready once
  the destructor's \<open>wait()\<close> returns, and a caller blocked in \<open>get()\<close> always
  leaves a worker able to move; \<open>test_a_few_calls_with_ret\<close> passes under
  every interleaving.  In fire-and-forget mode, a task that throws
  kills its worker and leaks its increment of \<open>active\<close>, so \<open>wait()\<close> never
  returns.  After the pushes of \<open>f_with_args\<close> and \<open>wait()\<close>, under every
  interleaving of the calls' statements, the counter has grown by the number
  of pushes and each recorded argument comes from some pushed call; the
  recorded pair itself can mix two calls, (1234, 456) for the first two
  pushes of \<open>test_a_few_calls_with_args\<close>.

  For \<open>mt::sort\<close>: under every interleaving of any number of workers,
  when the destructor's \<open>wait()\<close> returns (without spurious wake-ups) the
  vector is the sorted input; tasks that may run concurrently work on disjoint
  ranges; and no schedule of the tasks runs forever (for a strict weak
  ordering).  The threshold's division by a \<open>threads_amount * 8\<close> that is
  zero in \<open>size_t\<close> is the error \<open>DivisionByZero\<close> of the model.  A
  spurious wake-up lets the destructor go on while tasks are pending (the
  counterexamples above); the workers still drain the queue before they
  return, so what breaks is the destruction of the members under them, not
  the order of the vector: once the destructor has joined the workers (at
  least one), the vector is the sorted input under every interleaving,
  spurious wake-ups included.  Across calls, only the first call of an
  instantiation that gets past the threshold sorts with its own locals; every
  later call on two
  or more elements reads the returned call's \<open>chunk_size\<close> through the
  \<open>static\<close> closure.  The result meets the postcondition documented in
  sort.hpp for every strict weak ordering.  The model of \<open>CONSTEXPR\<close> keeps
  its expansion to the misspelt \<open>contexpr\<close> from C++17 on (a finding of the
  manifest, read off the definition).

  For \<open>mt::unique\<close> with \<open>operator==\<close> and \<open>1 \<le> threads_amount \<le>\<close>
  length: the kept prefix is \<open>remdups_adj\<close> of the input (for any input);
  more threads than elements (an empty range with two threads included) read
  outside the range; and the chunks ignore the caller's predicate.  Zero
  threads are the division error of \<open>part_size_of\<close>.

  For the tests: run as the first caller of \<open>mt::sort\<close>, \<open>test_sort_rand\<close>
  and \<open>test_unique\<close> pass on every input (for \<open>test_unique\<close>, with at least
  as many elements as threads, which the tests' sizes of \<open>2^28\<close> and
  \<open>2^32\<close> give); run in the order of \<open>main()\<close>, every test after
  \<open>test_sort_rand\<close> meets the dangling reference of the static closure.

  \<^bold>\<open>Not modelled.\<close>  Timing and printing in the tests (they do not
  affect any result); the random contents of the tests' vectors, an arbitrary
  input in \<open>SortTests\<close> (the theorems hold for every input; the element type
  \<open>uint32_t\<close> is any linear order); the memory model (every access to an
  atomic or to data under the mutex is a sequentially consistent step; a sort
  task's partitions are one step, which the disjointness of the ranges in
  flight justifies; a task that throws is modelled
  without the effects it had before throwing); the compile-time
  preconditions of the sources (the \<open>MT_POOL_RET_SUPPORT\<close> switch and the
  GNU \<open>typeof\<close> of sort.hpp line 84), which only decide whether the code
  compiles.
\<close>

end
